(* ===== verification/Prelude.thy ===== *)
theory Prelude
  imports Main "HOL-Library.Word"
begin

unbundle bit_operations_syntax

text \<open>
  Shared vocabulary of the development: the machine integers of the C sources on an
  LP64 platform, big-endian values of byte strings, and the generic lemmas on words and
  lists that the component theories use.
\<close>

type_synonym byte = "8 word"
type_synonym u16 = "16 word"
type_synonym u32 = "32 word"
type_synonym u64 = "64 word"
type_synonym size_t = "64 word"

text \<open>
  Two collections carry the component proofs: \<open>word_nat\<close> moves word arithmetic to
  natural numbers, \<open>ct_mask\<close> replaces constant-time masks by the conditions they encode.
\<close>

named_theorems word_nat
named_theorems ct_mask

subsection \<open>Words\<close>

lemma bit_top_u32: "bit (w :: u32) 31 \<longleftrightarrow> 2 ^ 31 \<le> uint w"
proof -
  have "bit w 31 \<longleftrightarrow> bit (uint w) 31"
    by (simp add: bit_uint_iff)
  also have "\<dots> \<longleftrightarrow> odd (uint w div 2 ^ 31)"
    by (simp add: bit_iff_odd)
  also have "\<dots> \<longleftrightarrow> 2 ^ 31 \<le> uint w"
  proof (cases "2 ^ 31 \<le> uint w")
    case True
    moreover have "uint w < 2 * 2 ^ 31"
      using uint_lt2p [of w] by simp
    ultimately have "uint w div 2 ^ 31 = 1"
      by (intro div_pos_geq [THEN trans]) (simp_all add: div_pos_pos_trivial)
    then show ?thesis
      using True by simp
  next
    case False
    then have "uint w div 2 ^ 31 = 0"
      by (simp add: div_pos_pos_trivial)
    then show ?thesis
      using False by simp
  qed
  finally show ?thesis .
qed

lemma uint_sub_u32:
  "uint (a - b :: u32) = (if uint b \<le> uint a then uint a - uint b else uint a - uint b + 2 ^ 32)"
  by (simp add: uint_sub_if')

subsection \<open>Big-endian values of byte strings\<close>

definition be_nat :: "byte list \<Rightarrow> nat" where
  "be_nat bs = foldl (\<lambda>v b. v * 256 + unat b) 0 bs"

primrec be_bytes :: "nat \<Rightarrow> nat \<Rightarrow> byte list" where
  "be_bytes 0 v = []"
| "be_bytes (Suc n) v = be_bytes n (v div 256) @ [of_nat v]"

lemma be_bytes_numeral:
  "be_bytes (numeral k) v = be_bytes (pred_numeral k) (v div 256) @ [of_nat v]"
  by (simp only: numeral_eq_Suc [of k] be_bytes.simps)

lemma be_nat_Nil [simp]: "be_nat [] = 0"
  by (simp add: be_nat_def)

lemma be_nat_snoc [simp]: "be_nat (bs @ [b]) = be_nat bs * 256 + unat b"
  by (simp add: be_nat_def)

lemma be_nat_append: "be_nat (xs @ ys) = be_nat xs * 256 ^ length ys + be_nat ys"
  by (induction ys rule: rev_induct)
    (simp_all add: algebra_simps flip: append_assoc)

lemma be_nat_Cons: "be_nat (b # bs) = unat b * 256 ^ length bs + be_nat bs"
  using be_nat_append [of "[b]" bs] by (simp add: be_nat_def)

lemma unat_byte_lt: "unat (b :: byte) < 256"
  using unsigned_less [of b, where 'a = nat] by simp

lemma be_nat_less: "be_nat bs < 256 ^ length bs"
proof (induction bs rule: rev_induct)
  case (snoc b bs)
  then show ?case
    using unat_byte_lt [of b] by simp
qed simp

lemma length_be_bytes [simp]: "length (be_bytes n v) = n"
  by (induction n arbitrary: v) simp_all

lemma unat_of_nat_byte [simp]: "unat (of_nat v :: byte) = v mod 256"
  by (simp add: unat_of_nat)

lemma be_nat_be_bytes: "be_nat (be_bytes n v) = v mod 256 ^ n"
proof (induction n arbitrary: v)
  case (Suc n)
  then show ?case
    by (simp add: mod_mult2_eq)
qed simp

lemma be_bytes_be_nat: "be_bytes (length bs) (be_nat bs) = bs"
proof (induction bs rule: rev_induct)
  case (snoc b bs)
  moreover have "(word_of_nat (be_nat bs * 256) :: byte) = 0"
    by (simp only: word_of_nat_eq_0_iff) simp
  ultimately show ?case
    using unat_byte_lt [of b] by simp
qed simp

lemma be_bytes_eqI: "length bs = n \<Longrightarrow> be_nat bs = v \<Longrightarrow> be_bytes n v = bs"
  using be_bytes_be_nat by blast

subsection \<open>Shift-and-or accumulation\<close>

text \<open>
  The loop \<^verbatim>\<open>v <<= 8; v |= byte\<close> over a byte string computes its big-endian value as long
  as the string fits into the accumulator.
\<close>

definition shift_in :: "'a :: len word \<Rightarrow> byte \<Rightarrow> 'a word" where
  "shift_in v b = push_bit 8 v OR ucast b"

lemma unat_ucast_up:
  assumes "LENGTH('b) \<le> LENGTH('a)"
  shows "unat (ucast (w :: 'b :: len word) :: 'a :: len word) = unat w"
proof -
  have "unat w < 2 ^ LENGTH('b)"
    by (rule unsigned_less)
  also have "(2 :: nat) ^ LENGTH('b) \<le> 2 ^ LENGTH('a)"
    using assms by (rule power_increasing) simp
  finally show ?thesis
    by (simp add: unsigned_ucast_eq take_bit_nat_eq_self)
qed

lemma unat_ucast_u32_size_t [word_nat]: "unat (ucast (w :: u32) :: size_t) = unat w"
  by (rule unat_ucast_up) simp

lemma unat_ucast_byte_size_t [word_nat]: "unat (ucast (w :: byte) :: size_t) = unat w"
  by (rule unat_ucast_up) simp

lemma unat_add_size_t [word_nat]: "unat x + unat y < 2 ^ 64 \<Longrightarrow> unat (x + y :: size_t) = unat x + unat y"
  by (simp add: unat_word_ariths)

lemma drop_bit_eq_0: "drop_bit n (v :: 'a :: len word) = 0 \<longleftrightarrow> unat v < 2 ^ n"
proof -
  have "drop_bit n v = 0 \<longleftrightarrow> unat (drop_bit n v) = 0"
    by (simp only: unat_eq_zero)
  also have "unat (drop_bit n v) = unat v div 2 ^ n"
    using unat_drop_bit_eq [of n v] drop_bit_eq_div [of n "unat v"] by simp
  finally show ?thesis
    by (simp add: div_eq_0_iff)
qed

lemma unat_shift_in:
  assumes "unat v * 256 + 255 < 2 ^ LENGTH('a)" and "8 \<le> LENGTH('a)"
  shows "unat (shift_in (v :: 'a :: len word) b) = unat v * 256 + unat b"
proof -
  have "push_bit 8 v AND ucast b = 0"
    by (rule bit_word_eqI) (auto simp: bit_simps dest: bit_imp_le_length)
  then have "shift_in v b = push_bit 8 v + ucast b"
    by (simp add: shift_in_def disjunctive_add_eq_or)
  moreover have "unat (push_bit 8 v) = unat v * 256"
    using unsigned_push_bit_eq [where 'a = nat and n = 8 and w = v] assms
    by (simp add: take_bit_eq_mod push_bit_eq_mult del: push_bit_numeral push_bit_of_nat)
  moreover have "unat (ucast b :: 'a word) = unat b"
    using assms(2) by (simp add: unat_ucast_up)
  moreover have "unat v * 256 + unat b < 2 ^ LENGTH('a)"
    using assms(1) unat_byte_lt [of b] by linarith
  ultimately show ?thesis
    by (simp add: unat_word_ariths)
qed

lemma unat_foldl_shift_in:
  assumes "8 * (length bs) \<le> LENGTH('a)" and "8 \<le> LENGTH('a)"
  shows "unat (foldl shift_in (0 :: 'a :: len word) bs) = be_nat bs"
  using assms(1)
proof (induction bs rule: rev_induct)
  case (snoc b bs)
  let ?v = "foldl shift_in (0 :: 'a word) bs"
  have v: "unat ?v = be_nat bs"
    using snoc by simp
  have "be_nat bs * 256 + 255 < 256 ^ length (bs @ [b])"
    using be_nat_less [of bs] by simp
  also have "(256 :: nat) ^ length (bs @ [b]) = 2 ^ (8 * length (bs @ [b]))"
    by (simp add: power_mult power_add)
  also have "\<dots> \<le> 2 ^ LENGTH('a)"
    using snoc.prems by (intro power_increasing) simp_all
  finally show ?case
    using v assms(2) by (simp add: unat_shift_in)
qed simp

subsection \<open>Bits of a byte\<close>

lemma byte_and_7f: "unat (b AND 0x7f :: byte) = unat b mod 128"
proof -
  have "b AND 0x7f = take_bit 7 b"
    by (simp add: take_bit_eq_mask mask_eq_exp_minus_1)
  then show ?thesis
    by (simp add: take_bit_eq_mod unat_mod)
qed

lemma byte_and_80: "(b AND 0x80 :: byte) = 0 \<longleftrightarrow> unat b < 128"
proof -
  have "(b AND 0x80 :: byte) = 0 \<longleftrightarrow> \<not> bit b 7"
    using and_exp_eq_0_iff_not_bit [of b 7] by simp
  also have "bit b 7 \<longleftrightarrow> bit (unat b) 7"
    by (simp add: bit_unsigned_iff)
  also have "\<dots> \<longleftrightarrow> odd (unat b div 2 ^ 7)"
    by (simp add: bit_iff_odd)
  also have "\<dots> \<longleftrightarrow> \<not> unat b < 128"
  proof (cases "unat b < 128")
    case False
    then have "unat b div 2 ^ 7 = 1"
      using unat_byte_lt [of b] by (intro div_nat_eqI) simp_all
    then show ?thesis
      using False by simp
  qed simp
  finally show ?thesis by simp
qed
subsection \<open>Shifts\<close>

lemma unat_push_bit: "unat (push_bit k w :: 'a :: len word) = unat w * 2 ^ k mod 2 ^ LENGTH('a)"
  by (subst unsigned_push_bit_eq) (simp only: push_bit_eq_mult take_bit_eq_mod)

lemma unat_drop_bit: "unat (drop_bit k w :: 'a :: len word) = unat w div 2 ^ k"
  by (subst unat_drop_bit_eq) (rule drop_bit_eq_div)

lemma and_full_u32 [simp]: "(x :: u32) AND 0xffffffff = x"
proof -
  have "(0xffffffff :: u32) = - 1"
    by simp
  then show ?thesis
    by (simp only: and.right_neutral)
qed

lemma and_full_u64 [simp]: "(x :: u64) AND 0xffffffffffffffff = x"
proof -
  have "(0xffffffffffffffff :: u64) = - 1"
    by simp
  then show ?thesis
    by (simp only: and.right_neutral)
qed

subsection \<open>Writing into a buffer\<close>

text \<open>\<^verbatim>\<open>memcpy\<close>, \<^verbatim>\<open>memmove\<close> and \<^verbatim>\<open>memset\<close>: the bytes \<open>xs\<close> at position \<open>pos\<close> of a buffer.\<close>

definition put_at :: "nat \<Rightarrow> byte list \<Rightarrow> byte list \<Rightarrow> byte list" where
  "put_at pos xs buf = take pos buf @ xs @ drop (pos + length xs) buf"

lemma length_put_at: "pos + length xs \<le> length buf \<Longrightarrow> length (put_at pos xs buf) = length buf"
  by (simp add: put_at_def)

lemma take_put_at: "pos + length xs \<le> length buf \<Longrightarrow> take (pos + length xs) (put_at pos xs buf) = take pos buf @ xs"
  by (simp add: put_at_def)

lemma put_at_decomp: "length xs = length ys \<Longrightarrow> length pre = pos \<Longrightarrow> put_at pos xs (pre @ ys @ zs) = pre @ xs @ zs"
  by (simp add: put_at_def)

lemma put_at_snoc: "pos + length xs < length buf \<Longrightarrow>
    put_at pos xs (buf[pos + length xs := x]) = put_at pos (xs @ [x]) buf"
  by (simp add: put_at_def upd_conv_take_nth_drop min_def)

lemma foldl_shift_in_of_nat:
  assumes "8 * length bs \<le> LENGTH('a)" "8 \<le> LENGTH('a)"
  shows "foldl shift_in (0 :: 'a :: len word) bs = of_nat (be_nat bs)"
  using unat_foldl_shift_in [OF assms] by (metis of_nat_unat ucast_id)

lemma foldl_fusion:
  assumes "\<And>r x. f (g r x) = h (f r) x"
  shows "f (foldl g r xs) = foldl h (f r) xs"
  by (induction xs arbitrary: r) (simp_all add: assms)

end
