(* ===== verification/Constant_Time.thy ===== *)
theory Constant_Time
  imports Prelude
begin

unbundle bit_operations_syntax

text \<open>
  The branch-free primitives of \<^verbatim>\<open>crypto/constant_time_locl.h\<close>. \<^verbatim>\<open>unsigned int\<close> is a
  32-bit word, \<^verbatim>\<open>int\<close> is the same word read in two's complement. The lemmas show that each
  mask is all ones exactly when its condition holds, so that the record layer can replace
  masks by conditions (collection \<open>ct_mask\<close>).
\<close>

section \<open>Definitions\<close>

definition constant_time_msb :: "u32 \<Rightarrow> u32" where
  "constant_time_msb a = 0 - drop_bit (4 * 8 - 1) a"

definition constant_time_lt :: "u32 \<Rightarrow> u32 \<Rightarrow> u32" where
  "constant_time_lt a b = constant_time_msb (a XOR ((a XOR b) OR ((a - b) XOR b)))"

definition constant_time_lt_8 :: "u32 \<Rightarrow> u32 \<Rightarrow> byte" where
  "constant_time_lt_8 a b = ucast (constant_time_lt a b)"

definition constant_time_ge :: "u32 \<Rightarrow> u32 \<Rightarrow> u32" where
  "constant_time_ge a b = NOT (constant_time_lt a b)"

definition constant_time_ge_8 :: "u32 \<Rightarrow> u32 \<Rightarrow> byte" where
  "constant_time_ge_8 a b = ucast (constant_time_ge a b)"

definition constant_time_is_zero :: "u32 \<Rightarrow> u32" where
  "constant_time_is_zero a = constant_time_msb (NOT a AND (a - 1))"

definition constant_time_is_zero_8 :: "u32 \<Rightarrow> byte" where
  "constant_time_is_zero_8 a = ucast (constant_time_is_zero a)"

definition constant_time_eq :: "u32 \<Rightarrow> u32 \<Rightarrow> u32" where
  "constant_time_eq a b = constant_time_is_zero (a XOR b)"

definition constant_time_eq_8 :: "u32 \<Rightarrow> u32 \<Rightarrow> byte" where
  "constant_time_eq_8 a b = ucast (constant_time_eq a b)"

text \<open>The signed variants convert their arguments to unsigned, which keeps the bits.\<close>

definition constant_time_eq_int :: "u32 \<Rightarrow> u32 \<Rightarrow> u32" where
  "constant_time_eq_int a b = constant_time_eq a b"

definition constant_time_eq_int_8 :: "u32 \<Rightarrow> u32 \<Rightarrow> byte" where
  "constant_time_eq_int_8 a b = constant_time_eq_8 a b"

definition constant_time_select :: "u32 \<Rightarrow> u32 \<Rightarrow> u32 \<Rightarrow> u32" where
  "constant_time_select msk a b = (msk AND a) OR (NOT msk AND b)"

text \<open>The 8-bit arguments are promoted to \<^verbatim>\<open>unsigned int\<close> and the result is truncated.\<close>

definition constant_time_select_8 :: "byte \<Rightarrow> byte \<Rightarrow> byte \<Rightarrow> byte" where
  "constant_time_select_8 msk a b = ucast (constant_time_select (ucast msk) (ucast a) (ucast b))"

definition constant_time_select_int :: "u32 \<Rightarrow> u32 \<Rightarrow> u32 \<Rightarrow> u32" where
  "constant_time_select_int msk a b = constant_time_select msk a b"

section \<open>The masks\<close>

lemma constant_time_msb_eq: "constant_time_msb a = (if bit a 31 then - 1 else 0)"
proof -
  have "drop_bit 31 a = of_bool (bit a 31)"
  proof (rule bit_word_eqI)
    fix n
    show "bit (drop_bit 31 a) n \<longleftrightarrow> bit (of_bool (bit a 31) :: u32) n"
      using bit_imp_le_length [of a "31 + n"]
      by (cases "n = 0") (auto simp: bit_drop_bit_eq bit_of_bool_iff)
  qed
  then show ?thesis
    by (simp add: constant_time_msb_def)
qed

lemma constant_time_lt_eq [ct_mask]: "constant_time_lt a b = (if a < b then - 1 else 0)"
proof -
  have top: "\<lbrakk>0 \<le> x; x < 2 ^ 32; 0 \<le> y; y < 2 ^ 32\<rbrakk> \<Longrightarrow>
    ((2 ^ 31 \<le> x) \<noteq> ((2 ^ 31 \<le> x) \<noteq> (2 ^ 31 \<le> y) \<or>
      (2 ^ 31 \<le> (if y \<le> x then x - y else x - y + 2 ^ 32)) \<noteq> (2 ^ 31 \<le> y))) = (x < y)"
    for x y :: int
    by auto
  have "bit (a XOR ((a XOR b) OR ((a - b) XOR b))) 31 \<longleftrightarrow> a < b"
    unfolding bit_xor_iff bit_or_iff unfolding bit_top_u32 uint_sub_u32 word_less_def
    by (rule top) (use uint_lt2p [of a] uint_lt2p [of b] in simp_all)
  then show ?thesis
    by (simp add: constant_time_lt_def constant_time_msb_eq)
qed

lemma constant_time_ge_eq [ct_mask]: "constant_time_ge a b = (if b \<le> a then - 1 else 0)"
  by (cases "a < b") (simp_all add: constant_time_ge_def constant_time_lt_eq linorder_not_less linorder_not_le)

lemma constant_time_is_zero_eq [ct_mask]: "constant_time_is_zero a = (if a = 0 then - 1 else 0)"
proof -
  have "bit (NOT a AND (a - 1)) 31 \<longleftrightarrow> a = 0"
    using uint_lt2p [of a] word_neq_0_conv [of a]
    unfolding bit_and_iff bit_not_iff unfolding bit_top_u32 uint_sub_u32
    by (cases "a = 0") (auto simp: word_less_def split: if_splits)
  then show ?thesis
    by (simp add: constant_time_is_zero_def constant_time_msb_eq)
qed

lemma constant_time_eq_eq [ct_mask]: "constant_time_eq a b = (if a = b then - 1 else 0)"
proof -
  have "a XOR b = 0 \<longleftrightarrow> a = b"
    by (auto simp: bit_eq_iff bit_simps)
  then show ?thesis
    by (simp add: constant_time_eq_def constant_time_is_zero_eq)
qed

lemma ucast_mask_8: "(ucast (if P then - 1 else 0 :: u32) :: byte) = (if P then - 1 else 0)"
  by (rule bit_word_eqI) (auto simp: bit_simps)

lemma constant_time_8_eq [ct_mask]:
  "constant_time_lt_8 a b = (if a < b then - 1 else 0)"
  "constant_time_ge_8 a b = (if b \<le> a then - 1 else 0)"
  "constant_time_is_zero_8 a = (if a = 0 then - 1 else 0)"
  "constant_time_eq_8 a b = (if a = b then - 1 else 0)"
  unfolding constant_time_lt_8_def constant_time_ge_8_def constant_time_is_zero_8_def
    constant_time_eq_8_def constant_time_lt_eq constant_time_ge_eq constant_time_is_zero_eq
    constant_time_eq_eq
  by (rule ucast_mask_8)+

lemma constant_time_select_if [ct_mask]:
  "constant_time_select (if P then - 1 else 0) a b = (if P then a else b)"
  by (simp add: constant_time_select_def)

lemma constant_time_select_int_if [ct_mask]:
  "constant_time_select_int (if P then - 1 else 0) a b = (if P then a else b)"
  by (simp add: constant_time_select_int_def constant_time_select_if)

lemma constant_time_select_8_if [ct_mask]:
  "constant_time_select_8 (if P then - 1 else 0) a b = (if P then a else b)"
  by (rule bit_word_eqI)
    (auto simp: constant_time_select_8_def constant_time_select_def bit_simps)

text \<open>
  Each constant-time comparison yields the mask of all ones if its condition holds and 0
  otherwise, and selection with such a mask is a conditional.
\<close>

theorem constant_time_masks:
  "constant_time_lt a b = (if a < b then - 1 else 0) \<and> constant_time_ge a b = (if b \<le> a then - 1 else 0) \<and>
   constant_time_is_zero a = (if a = 0 then - 1 else 0) \<and> constant_time_eq a b = (if a = b then - 1 else 0) \<and>
   constant_time_select (constant_time_lt a b) x y = (if a < b then x else y) \<and>
   constant_time_select_8 (constant_time_eq_8 a b) p q = (if a = b then p else q)"
  by (simp add: ct_mask)

end
