(* ===== verification/Cbs.thy ===== *)
theory Cbs
  imports Constant_Time
begin

unbundle bit_operations_syntax

text \<open>
  The byte-string reader of \<^verbatim>\<open>crypto/bytestring/cbs.c\<close>, with \<^verbatim>\<open>CRYPTO_memcmp\<close> of
  \<^verbatim>\<open>crypto/cryptlib.c\<close>. The pointer \<^verbatim>\<open>data\<close> of a \<^verbatim>\<open>CBS\<close> is the list of the bytes from
  the pointed-at address to the end of the underlying object; \<^verbatim>\<open>len\<close> is kept apart, as in the
  struct, so that reading at most \<^verbatim>\<open>len\<close> bytes is a property to prove and not a consequence of the
  representation. A function that returns 0 or 1 and advances its argument is modelled by a
  function that returns an optional result, with \<open>None\<close> for 0, together with the state of the
  argument after the call: some functions leave a failed argument partly consumed.
\<close>

section \<open>State and operations\<close>

record cbs =
  cbs_data :: "byte list"
  cbs_len :: size_t

type_synonym 'a cbs_op = "cbs \<Rightarrow> 'a option \<times> cbs"

definition CBS_ASN1_CONSTRUCTED :: u32 where
  "CBS_ASN1_CONSTRUCTED = 0x20"

definition CBS_ASN1_BOOLEAN :: u32 where
  "CBS_ASN1_BOOLEAN = 0x1"

definition CBS_ASN1_INTEGER :: u32 where
  "CBS_ASN1_INTEGER = 0x2"

definition CBS_ASN1_OCTETSTRING :: u32 where
  "CBS_ASN1_OCTETSTRING = 0x4"

definition CBS_ASN1_SEQUENCE :: u32 where
  "CBS_ASN1_SEQUENCE = CBS_ASN1_CONSTRUCTED OR 0x10"

definition CBS_ASN1_SET :: u32 where
  "CBS_ASN1_SET = CBS_ASN1_CONSTRUCTED OR 0x11"

definition CBS_init :: "byte list \<Rightarrow> size_t \<Rightarrow> cbs" where
  "CBS_init d n = \<lparr>cbs_data = d, cbs_len = n\<rparr>"

definition CBS_data :: "cbs \<Rightarrow> byte list" where
  "CBS_data c = cbs_data c"

definition CBS_len :: "cbs \<Rightarrow> size_t" where
  "CBS_len c = cbs_len c"

definition CBS_dup :: "cbs \<Rightarrow> cbs" where
  "CBS_dup c = CBS_init (CBS_data c) (CBS_len c)"

definition cbs_get :: "size_t \<Rightarrow> byte list cbs_op" where
  "cbs_get n c =
     (if cbs_len c < n then (None, c)
      else (Some (cbs_data c),
            c\<lparr>cbs_data := drop (unat n) (cbs_data c), cbs_len := cbs_len c - n\<rparr>))"

definition CBS_skip :: "size_t \<Rightarrow> unit cbs_op" where
  "CBS_skip n c = (case cbs_get n c of (None, c') \<Rightarrow> (None, c') | (Some _, c') \<Rightarrow> (Some (), c'))"

text \<open>
  \<^verbatim>\<open>CBS_stow\<close> and \<^verbatim>\<open>CBS_strdup\<close> allocate: \<open>malloc_ok\<close> says for which sizes the allocator
  succeeds. The result is the return value, the new \<^verbatim>\<open>*out_ptr\<close> (\<open>None\<close> for NULL) and the new
  \<^verbatim>\<open>*out_len\<close>.
\<close>

definition CBS_stow :: "(size_t \<Rightarrow> bool) \<Rightarrow> cbs \<Rightarrow> bool \<times> byte list option \<times> size_t" where
  "CBS_stow malloc_ok c =
     (if cbs_len c = 0 then (True, None, 0)
      else if \<not> malloc_ok (cbs_len c) then (False, None, 0)
      else (True, Some (take (unat (cbs_len c)) (cbs_data c)), cbs_len c))"

definition CBS_strdup :: "(size_t \<Rightarrow> bool) \<Rightarrow> cbs \<Rightarrow> bool \<times> byte list option" where
  "CBS_strdup malloc_ok c =
     (let s = takeWhile (\<lambda>b. b \<noteq> 0) (take (unat (cbs_len c)) (cbs_data c))
      in if malloc_ok (of_nat (length s) + 1) then (True, Some (s @ [0])) else (False, None))"

text \<open>The destination buffer is returned with its first \<^verbatim>\<open>len\<close> bytes overwritten.\<close>

definition CBS_write_bytes :: "cbs \<Rightarrow> byte list \<Rightarrow> size_t \<Rightarrow> (byte list \<times> size_t) option" where
  "CBS_write_bytes c dest dest_len =
     (if dest_len < cbs_len c then None
      else Some (take (unat (cbs_len c)) (cbs_data c) @ drop (unat (cbs_len c)) dest, cbs_len c))"

definition CBS_contains_zero_byte :: "cbs \<Rightarrow> bool" where
  "CBS_contains_zero_byte c = list_ex (\<lambda>b. b = 0) (take (unat (cbs_len c)) (cbs_data c))"

definition CRYPTO_memcmp :: "byte list \<Rightarrow> byte list \<Rightarrow> size_t \<Rightarrow> byte" where
  "CRYPTO_memcmp a b n = foldl (\<lambda>x i. x OR (a ! i XOR b ! i)) 0 [0..<unat n]"

definition CBS_mem_equal :: "cbs \<Rightarrow> byte list \<Rightarrow> size_t \<Rightarrow> bool" where
  "CBS_mem_equal c d n = (if n \<noteq> cbs_len c then False else CRYPTO_memcmp (cbs_data c) d n = 0)"

definition cbs_get_u :: "size_t \<Rightarrow> u32 cbs_op" where
  "cbs_get_u n c =
     (case cbs_get n c of
        (None, c') \<Rightarrow> (None, c')
      | (Some d, c') \<Rightarrow> (Some (foldl shift_in 0 (take (unat n) d)), c'))"

definition CBS_get_u8 :: "byte cbs_op" where
  "CBS_get_u8 c = (case cbs_get 1 c of (None, c') \<Rightarrow> (None, c') | (Some v, c') \<Rightarrow> (Some (v ! 0), c'))"

definition CBS_get_u16 :: "u16 cbs_op" where
  "CBS_get_u16 c =
     (case cbs_get_u 2 c of (None, c') \<Rightarrow> (None, c') | (Some v, c') \<Rightarrow> (Some (ucast v), c'))"

definition CBS_get_u24 :: "u32 cbs_op" where
  "CBS_get_u24 c = cbs_get_u 3 c"

definition CBS_get_u32 :: "u32 cbs_op" where
  "CBS_get_u32 c = cbs_get_u 4 c"

definition CBS_get_bytes :: "size_t \<Rightarrow> cbs cbs_op" where
  "CBS_get_bytes n c =
     (case cbs_get n c of (None, c') \<Rightarrow> (None, c') | (Some v, c') \<Rightarrow> (Some (CBS_init v n), c'))"

definition cbs_get_length_prefixed :: "size_t \<Rightarrow> cbs cbs_op" where
  "cbs_get_length_prefixed len_len c =
     (case cbs_get_u len_len c of
        (None, c') \<Rightarrow> (None, c')
      | (Some n, c') \<Rightarrow> CBS_get_bytes (ucast n) c')"

definition CBS_get_u8_length_prefixed :: "cbs cbs_op" where
  "CBS_get_u8_length_prefixed c = cbs_get_length_prefixed 1 c"

definition CBS_get_u16_length_prefixed :: "cbs cbs_op" where
  "CBS_get_u16_length_prefixed c = cbs_get_length_prefixed 2 c"

definition CBS_get_u24_length_prefixed :: "cbs cbs_op" where
  "CBS_get_u24_length_prefixed c = cbs_get_length_prefixed 3 c"

text \<open>
  An element is returned with its header, its tag and the length of the header. The header is
  read from a copy, so every failure before the final \<^verbatim>\<open>CBS_get_bytes\<close> leaves the reader as it
  was.
\<close>

definition asn1_element :: "u32 \<Rightarrow> size_t \<Rightarrow> size_t \<Rightarrow> (cbs \<times> u32 \<times> size_t) cbs_op" where
  "asn1_element tag header_len n c =
     (case CBS_get_bytes n c of
        (None, c') \<Rightarrow> (None, c')
      | (Some out, c') \<Rightarrow> (Some (out, tag, header_len), c'))"

definition asn1_after_tag :: "byte \<Rightarrow> byte \<Rightarrow> cbs \<Rightarrow> (cbs \<times> u32 \<times> size_t) cbs_op" where
  "asn1_after_tag tag length_byte header c =
     (if tag AND 0x1f = 0x1f then (None, c)
      else if length_byte AND 0x80 = 0 then asn1_element (ucast tag) 2 (ucast length_byte + 2) c
      else
        let num_bytes = ucast (length_byte AND 0x7f) :: size_t in
        if ucast tag AND CBS_ASN1_CONSTRUCTED \<noteq> 0 \<and> num_bytes = 0 then asn1_element (ucast tag) 2 2 c
        else if num_bytes = 0 \<or> 4 < num_bytes then (None, c)
        else
          (case cbs_get_u num_bytes header of (None, _) \<Rightarrow> (None, c) | (Some len32, _) \<Rightarrow>
           if len32 < 128 then (None, c)
           else if drop_bit (unat ((num_bytes - 1) * 8)) len32 = 0 then (None, c)
           else
             let n = ucast len32 :: size_t in
             if n + 2 + num_bytes < n then (None, c)
             else asn1_element (ucast tag) (2 + num_bytes) (n + (2 + num_bytes)) c))"

definition CBS_get_any_asn1_element :: "(cbs \<times> u32 \<times> size_t) cbs_op" where
  "CBS_get_any_asn1_element c =
     (case CBS_get_u8 c of (None, _) \<Rightarrow> (None, c) | (Some tag, header) \<Rightarrow>
     (case CBS_get_u8 header of (None, _) \<Rightarrow> (None, c) | (Some length_byte, header) \<Rightarrow>
      asn1_after_tag tag length_byte header c))"

definition cbs_get_asn1 :: "u32 \<Rightarrow> bool \<Rightarrow> cbs cbs_op" where
  "cbs_get_asn1 tag_value skip_header c =
     (case CBS_get_any_asn1_element c of
        (None, c') \<Rightarrow> (None, c')
      | (Some (out, tag, header_len), c') \<Rightarrow>
          if tag \<noteq> tag_value \<or>
             (0 < header_len \<and> CBS_len out = header_len \<and>
              CBS_data out ! unat (header_len - 1) = 0x80)
          then (None, c')
          else if skip_header then
            (case CBS_skip header_len out of (None, _) \<Rightarrow> (None, c') | (Some _, out') \<Rightarrow> (Some out', c'))
          else (Some out, c'))"

definition CBS_get_asn1 :: "u32 \<Rightarrow> cbs cbs_op" where
  "CBS_get_asn1 tag_value c = cbs_get_asn1 tag_value True c"

definition CBS_get_asn1_element :: "u32 \<Rightarrow> cbs cbs_op" where
  "CBS_get_asn1_element tag_value c = cbs_get_asn1 tag_value False c"

definition CBS_peek_asn1_tag :: "cbs \<Rightarrow> u32 \<Rightarrow> bool" where
  "CBS_peek_asn1_tag c tag_value = (if CBS_len c < 1 then False else ucast (CBS_data c ! 0) = tag_value)"

fun uint64_loop :: "u64 \<Rightarrow> byte list \<Rightarrow> u64 option" where
  "uint64_loop out [] = Some out"
| "uint64_loop out (b # bs) =
     (if drop_bit 56 out \<noteq> 0 then None else uint64_loop (shift_in out b) bs)"

definition CBS_get_asn1_uint64 :: "u64 cbs_op" where
  "CBS_get_asn1_uint64 c =
     (case CBS_get_asn1 CBS_ASN1_INTEGER c of
        (None, c') \<Rightarrow> (None, c')
      | (Some bytes, c') \<Rightarrow>
          let d = CBS_data bytes; n = CBS_len bytes in
          if n = 0 then (None, c')
          else if d ! 0 AND 0x80 \<noteq> 0 then (None, c')
          else if d ! 0 = 0 \<and> 1 < n \<and> d ! 1 AND 0x80 = 0 then (None, c')
          else (uint64_loop 0 (take (unat n) d), c'))"

text \<open>An optional element: \<open>Some None\<close> is a successful call with \<^verbatim>\<open>*out_present = 0\<close>.\<close>

definition CBS_get_optional_asn1 :: "u32 \<Rightarrow> cbs option cbs_op" where
  "CBS_get_optional_asn1 tag c =
     (if CBS_peek_asn1_tag c tag then
        (case CBS_get_asn1 tag c of (None, c') \<Rightarrow> (None, c') | (Some out, c') \<Rightarrow> (Some (Some out), c'))
      else (Some None, c))"

definition CBS_get_optional_asn1_octet_string :: "u32 \<Rightarrow> (cbs \<times> bool) cbs_op" where
  "CBS_get_optional_asn1_octet_string tag c =
     (case CBS_get_optional_asn1 tag c of
        (None, c') \<Rightarrow> (None, c')
      | (Some None, c') \<Rightarrow> (Some (CBS_init [] 0, False), c')
      | (Some (Some child), c') \<Rightarrow>
          (case CBS_get_asn1 CBS_ASN1_OCTETSTRING child of
             (None, _) \<Rightarrow> (None, c')
           | (Some out, child') \<Rightarrow>
               if CBS_len child' \<noteq> 0 then (None, c') else (Some (out, True), c')))"

definition CBS_get_optional_asn1_uint64 :: "u32 \<Rightarrow> u64 \<Rightarrow> u64 cbs_op" where
  "CBS_get_optional_asn1_uint64 tag default_value c =
     (case CBS_get_optional_asn1 tag c of
        (None, c') \<Rightarrow> (None, c')
      | (Some None, c') \<Rightarrow> (Some default_value, c')
      | (Some (Some child), c') \<Rightarrow>
          (case CBS_get_asn1_uint64 child of
             (None, _) \<Rightarrow> (None, c')
           | (Some out, child') \<Rightarrow> if CBS_len child' \<noteq> 0 then (None, c') else (Some out, c')))"

definition CBS_get_optional_asn1_bool :: "u32 \<Rightarrow> int \<Rightarrow> int cbs_op" where
  "CBS_get_optional_asn1_bool tag default_value c =
     (case CBS_get_optional_asn1 tag c of
        (None, c') \<Rightarrow> (None, c')
      | (Some None, c') \<Rightarrow> (Some default_value, c')
      | (Some (Some child), c') \<Rightarrow>
          (case CBS_get_asn1 CBS_ASN1_BOOLEAN child of
             (None, _) \<Rightarrow> (None, c')
           | (Some child2, child') \<Rightarrow>
               if CBS_len child2 \<noteq> 1 \<or> CBS_len child' \<noteq> 0 then (None, c')
               else
                 let boolean = CBS_data child2 ! 0 in
                 if boolean = 0 then (Some 0, c')
                 else if boolean = 0xff then (Some 1, c')
                 else (None, c')))"

section \<open>The bytes a reader stands for\<close>

text \<open>
  A reader is well formed when its length does not run past the underlying object. Its
  abstraction is the byte string between the pointer and the length.
\<close>

definition cbs_wf :: "cbs \<Rightarrow> bool" where
  "cbs_wf c \<longleftrightarrow> unat (cbs_len c) \<le> length (cbs_data c)"

definition cbs_bytes :: "cbs \<Rightarrow> byte list" where
  "cbs_bytes c = take (unat (cbs_len c)) (cbs_data c)"

lemma length_cbs_bytes [simp]: "cbs_wf c \<Longrightarrow> length (cbs_bytes c) = unat (cbs_len c)"
  by (simp add: cbs_wf_def cbs_bytes_def)

lemma length_cbs_bytes_less: "length (cbs_bytes c) < 2 ^ 64"
proof -
  have "length (cbs_bytes c) \<le> unat (cbs_len c)"
    by (simp add: cbs_bytes_def)
  also have "\<dots> < 2 ^ 64"
    using unsigned_less [of "cbs_len c", where 'a = nat] by simp
  finally show ?thesis .
qed

lemma cbs_init_wf: "unat n \<le> length d \<Longrightarrow> cbs_wf (CBS_init d n)"
  by (simp add: cbs_wf_def CBS_init_def)

lemma cbs_bytes_init: "cbs_bytes (CBS_init d n) = take (unat n) d"
  by (simp add: cbs_bytes_def CBS_init_def)

lemma take_cbs_data: "n \<le> unat (cbs_len c) \<Longrightarrow> take n (cbs_data c) = take n (cbs_bytes c)"
  by (simp add: cbs_bytes_def min_absorb1)

lemma nth_cbs_data: "i < unat (cbs_len c) \<Longrightarrow> cbs_data c ! i = cbs_bytes c ! i"
  by (simp add: cbs_bytes_def)

lemma cbs_get_None: "cbs_len c < n \<Longrightarrow> cbs_get n c = (None, c)"
  by (simp add: cbs_get_def)

lemma cbs_get_Some:
  assumes "cbs_wf c" and "n \<le> cbs_len c"
  obtains c' where "cbs_get n c = (Some (cbs_data c), c')" and "cbs_wf c'"
    and "cbs_bytes c' = drop (unat n) (cbs_bytes c)"
proof
  let ?c' = "c\<lparr>cbs_data := drop (unat n) (cbs_data c), cbs_len := cbs_len c - n\<rparr>"
  have le: "unat n \<le> unat (cbs_len c)"
    using assms(2) by (simp add: word_le_nat_alt)
  have len: "unat (cbs_len c - n) = unat (cbs_len c) - unat n"
    using assms(2) by (rule unat_sub)
  show "cbs_get n c = (Some (cbs_data c), ?c')"
    using assms(2) by (simp add: cbs_get_def)
  show "cbs_wf ?c'"
    using assms(1) by (simp add: cbs_wf_def len)
  show "cbs_bytes ?c' = drop (unat n) (cbs_bytes c)"
    using le by (simp add: cbs_bytes_def len drop_take)
qed

section \<open>Readers and the strings they accept\<close>

text \<open>
  The contract every reading operation shares. \<open>enc\<close> is the encoding the operation reads,
  \<open>val\<close> the value its result stands for, \<open>valid\<close> the values that have an encoding, and
  \<open>res_wf\<close> what a result keeps of the memory invariant. A successful call consumes exactly one
  encoding, and a string that starts with an encoding is accepted.
\<close>

locale cbs_reader =
  fixes read :: "'r cbs_op"
    and val :: "'r \<Rightarrow> 'a"
    and enc :: "'a \<Rightarrow> byte list"
    and valid :: "'a \<Rightarrow> bool"
    and res_wf :: "'r \<Rightarrow> bool"
  assumes read_sound: "cbs_wf c \<Longrightarrow> read c = (Some r, c') \<Longrightarrow>
      res_wf r \<and> cbs_wf c' \<and> valid (val r) \<and> cbs_bytes c = enc (val r) @ cbs_bytes c'"
    and read_complete: "cbs_wf c \<Longrightarrow> valid a \<Longrightarrow> cbs_bytes c = enc a @ rest \<Longrightarrow>
      \<exists>r c'. read c = (Some r, c') \<and> val r = a \<and> cbs_bytes c' = rest"
begin

lemma read_iff:
  assumes "cbs_wf c"
  shows "(\<exists>r c'. read c = (Some r, c') \<and> val r = a \<and> cbs_bytes c' = rest) \<longleftrightarrow>
     valid a \<and> cbs_bytes c = enc a @ rest"
  using assms read_sound read_complete by blast

lemma read_None_iff:
  assumes "cbs_wf c"
  shows "fst (read c) = None \<longleftrightarrow> (\<nexists>a rest. valid a \<and> cbs_bytes c = enc a @ rest)"
proof (cases "read c")
  case (Pair r c')
  then show ?thesis
    using assms read_sound [of c _ c'] read_complete [of c] by (cases r) fastforce+
qed

lemma enc_prefix_free:
  assumes "valid a" "valid b" "enc a @ xs = enc b @ ys" "length (enc a @ xs) < 2 ^ 64"
  shows "a = b \<and> xs = ys"
proof -
  let ?c = "CBS_init (enc a @ xs) (of_nat (length (enc a @ xs)))"
  have len: "unat (of_nat (length (enc a @ xs)) :: size_t) = length (enc a @ xs)"
    using assms(4) by (simp add: unat_of_nat del: of_nat_add length_append)
  have wf: "cbs_wf ?c"
    by (rule cbs_init_wf) (simp only: len)
  have bytes: "cbs_bytes ?c = enc a @ xs"
    using len by (simp add: cbs_bytes_init)
  show ?thesis
    using read_complete [OF wf assms(1) bytes] read_complete [OF wf assms(2)] bytes assms(3)
    by force
qed

end

text \<open>Two readers one after the other read the concatenation of their encodings.\<close>

locale cbs_reader_pair =
  fst: cbs_reader read1 val1 enc1 valid1 wf1 + snd: cbs_reader read2 val2 enc2 valid2 wf2
  for read1 :: "'r cbs_op" and val1 :: "'r \<Rightarrow> 'a" and enc1 valid1 wf1
    and read2 :: "'s cbs_op" and val2 :: "'s \<Rightarrow> 'b" and enc2 valid2 wf2
begin

lemma read_both:
  assumes "cbs_wf c" "valid1 a" "valid2 b" "cbs_bytes c = enc1 a @ enc2 b @ rest"
  shows "\<exists>r c1 s c2. read1 c = (Some r, c1) \<and> val1 r = a \<and> read2 c1 = (Some s, c2) \<and> val2 s = b \<and>
     cbs_bytes c2 = rest"
proof -
  obtain r c1 where 1: "read1 c = (Some r, c1)" "val1 r = a" "cbs_bytes c1 = enc2 b @ rest"
    using fst.read_complete [OF assms(1,2,4)] by blast
  have "cbs_wf c1"
    using fst.read_sound [OF assms(1) 1(1)] by simp
  then show ?thesis
    using snd.read_complete [OF _ assms(3) 1(3)] 1 by blast
qed

end

section \<open>Fixed-width integers\<close>

lemma cbs_get_u_Some:
  assumes "cbs_wf c" "unat n \<le> 4" "n \<le> cbs_len c"
  obtains c' where "cbs_get_u n c = (Some (foldl shift_in 0 (take (unat n) (cbs_bytes c))), c')"
    and "cbs_wf c'" and "cbs_bytes c' = drop (unat n) (cbs_bytes c)"
proof -
  obtain c' where "cbs_get n c = (Some (cbs_data c), c')" "cbs_wf c'"
    "cbs_bytes c' = drop (unat n) (cbs_bytes c)"
    using cbs_get_Some [OF assms(1,3)] .
  moreover have "take (unat n) (cbs_data c) = take (unat n) (cbs_bytes c)"
    using assms(3) by (simp add: take_cbs_data word_le_nat_alt)
  ultimately show ?thesis
    by (intro that [of c']) (simp_all add: cbs_get_u_def)
qed

lemma unat_shift_in_u32: "length bs \<le> 4 \<Longrightarrow> unat (foldl shift_in (0 :: u32) bs) = be_nat bs"
  by (rule unat_foldl_shift_in) simp_all

lemma cbs_get_u_sound:
  assumes "cbs_wf c" "unat n \<le> 4" "cbs_get_u n c = (Some v, c')"
  shows "cbs_wf c' \<and> unat v < 256 ^ unat n \<and> cbs_bytes c = be_bytes (unat n) (unat v) @ cbs_bytes c'"
proof -
  have le: "n \<le> cbs_len c"
    using assms(3) cbs_get_None [of c n] linorder_not_less [of "cbs_len c" n]
    by (cases "cbs_len c < n") (force simp: cbs_get_u_def, blast)
  let ?bs = "take (unat n) (cbs_bytes c)"
  have len: "length ?bs = unat n"
    using le assms(1) by (simp add: word_le_nat_alt)
  obtain c'' where c'': "cbs_get_u n c = (Some (foldl shift_in 0 ?bs), c'')" "cbs_wf c''"
    "cbs_bytes c'' = drop (unat n) (cbs_bytes c)"
    using cbs_get_u_Some [OF assms(1,2) le] .
  have v: "unat v = be_nat ?bs"
    using c''(1) assms(2,3) by (simp add: unat_shift_in_u32)
  then have "be_bytes (unat n) (unat v) = ?bs"
    using len be_bytes_be_nat [of ?bs] by simp
  moreover have "unat v < 256 ^ unat n"
    using be_nat_less [of ?bs] len v by simp
  ultimately show ?thesis
    using c'' assms(3) by simp
qed

lemma cbs_get_u_complete:
  assumes "cbs_wf c" "unat n \<le> 4" "v < 256 ^ unat n" "cbs_bytes c = be_bytes (unat n) v @ rest"
  shows "\<exists>c'. cbs_get_u n c = (Some (of_nat v), c') \<and> cbs_wf c' \<and> cbs_bytes c' = rest"
proof -
  have le: "n \<le> cbs_len c"
    using assms(1,4) length_cbs_bytes [of c] by (simp add: word_le_nat_alt)
  obtain c' where c': "cbs_get_u n c = (Some (foldl shift_in 0 (be_bytes (unat n) v)), c')"
    "cbs_wf c'" "cbs_bytes c' = rest"
    using cbs_get_u_Some [OF assms(1,2) le] assms(4) by (metis append_eq_conv_conj length_be_bytes)
  have "unat (foldl shift_in (0 :: u32) (be_bytes (unat n) v)) = v"
    using assms(2,3) by (simp add: unat_shift_in_u32 be_nat_be_bytes)
  then have "foldl shift_in (0 :: u32) (be_bytes (unat n) v) = of_nat v"
    by (metis of_nat_unat ucast_id)
  then show ?thesis
    using c' by simp
qed

interpretation u8: cbs_reader CBS_get_u8 "\<lambda>v. v" "\<lambda>v. [v]" "\<lambda>_. True" "\<lambda>_. True"
proof
  fix c r c'
  assume wf: "cbs_wf c" and ok: "CBS_get_u8 c = (Some r, c')"
  have le: "1 \<le> cbs_len c"
    using ok cbs_get_None [of c 1] linorder_not_less [of "cbs_len c" 1]
    by (cases "cbs_len c < 1") (force simp: CBS_get_u8_def, blast)
  obtain c'' where c'': "cbs_get 1 c = (Some (cbs_data c), c'')" "cbs_wf c''"
    "cbs_bytes c'' = drop (unat (1 :: size_t)) (cbs_bytes c)"
    using cbs_get_Some [OF wf le] by blast
  have "cbs_bytes c \<noteq> []"
    using wf le by (metis length_cbs_bytes list.size(3) unat_gt_0 word_le_nat_alt leD unat_1 less_one)
  moreover have "r = cbs_bytes c ! 0"
    using ok c''(1) le nth_cbs_data [of 0 c] by (simp add: CBS_get_u8_def word_le_nat_alt)
  ultimately show "True \<and> cbs_wf c' \<and> True \<and> cbs_bytes c = [r] @ cbs_bytes c'"
    using ok c'' by (cases "cbs_bytes c") (simp_all add: CBS_get_u8_def)
next
  fix c a rest
  assume wf: "cbs_wf c" and bytes: "cbs_bytes c = [a] @ rest"
  then have "unat (cbs_len c) = Suc (length rest)"
    using length_cbs_bytes [OF wf] by simp
  then have le: "1 \<le> cbs_len c"
    by (simp add: word_le_nat_alt)
  obtain c' where c': "cbs_get 1 c = (Some (cbs_data c), c')"
    "cbs_bytes c' = drop (unat (1 :: size_t)) (cbs_bytes c)"
    using cbs_get_Some [OF wf le] by blast
  moreover have "cbs_data c ! 0 = a"
    using nth_cbs_data [of 0 c] le bytes by (simp add: word_le_nat_alt)
  ultimately show "\<exists>r c'. CBS_get_u8 c = (Some r, c') \<and> r = a \<and> cbs_bytes c' = rest"
    using bytes by (simp add: CBS_get_u8_def)
qed

interpretation u24: cbs_reader CBS_get_u24 "\<lambda>v. v" "\<lambda>v. be_bytes 3 (unat v)" "\<lambda>v. unat v < 2 ^ 24" "\<lambda>_. True"
proof
  fix c r c'
  assume "cbs_wf c" "CBS_get_u24 c = (Some r, c')"
  then show "True \<and> cbs_wf c' \<and> unat r < 2 ^ 24 \<and> cbs_bytes c = be_bytes 3 (unat r) @ cbs_bytes c'"
    using cbs_get_u_sound [of c 3 r c'] by (simp add: CBS_get_u24_def)
next
  fix c and a :: u32 and rest
  assume "cbs_wf c" "unat a < 2 ^ 24" "cbs_bytes c = be_bytes 3 (unat a) @ rest"
  then show "\<exists>r c'. CBS_get_u24 c = (Some r, c') \<and> r = a \<and> cbs_bytes c' = rest"
    using cbs_get_u_complete [of c 3 "unat a" rest] by (auto simp: CBS_get_u24_def)
qed

interpretation u32: cbs_reader CBS_get_u32 "\<lambda>v. v" "\<lambda>v. be_bytes 4 (unat v)" "\<lambda>_. True" "\<lambda>_. True"
proof
  fix c r c'
  assume "cbs_wf c" "CBS_get_u32 c = (Some r, c')"
  then show "True \<and> cbs_wf c' \<and> True \<and> cbs_bytes c = be_bytes 4 (unat r) @ cbs_bytes c'"
    using cbs_get_u_sound [of c 4 r c'] by (simp add: CBS_get_u32_def)
next
  fix c and a :: u32 and rest
  assume "cbs_wf c" "cbs_bytes c = be_bytes 4 (unat a) @ rest"
  moreover have "unat a < 256 ^ unat (4 :: size_t)"
    using unsigned_less [of a, where 'a = nat] by (simp del: unsigned_less)
  ultimately show "\<exists>r c'. CBS_get_u32 c = (Some r, c') \<and> r = a \<and> cbs_bytes c' = rest"
    using cbs_get_u_complete [of c 4 "unat a" rest] by (auto simp: CBS_get_u32_def)
qed

interpretation u16: cbs_reader CBS_get_u16 "\<lambda>v. v" "\<lambda>v. be_bytes 2 (unat v)" "\<lambda>_. True" "\<lambda>_. True"
proof
  fix c r c'
  assume wf: "cbs_wf c" and ok: "CBS_get_u16 c = (Some r, c')"
  then obtain v where v: "cbs_get_u 2 c = (Some v, c')" "r = ucast v"
    by (auto simp: CBS_get_u16_def split: prod.splits option.splits)
  have s: "cbs_wf c' \<and> unat v < 2 ^ 16 \<and> cbs_bytes c = be_bytes 2 (unat v) @ cbs_bytes c'"
    using cbs_get_u_sound [OF wf _ v(1)] by simp
  then have "unat r = unat v"
    using v(2) by (simp add: unsigned_ucast_eq take_bit_nat_eq_self)
  then show "True \<and> cbs_wf c' \<and> True \<and> cbs_bytes c = be_bytes 2 (unat r) @ cbs_bytes c'"
    using s by simp
next
  fix c and a :: u16 and rest
  assume "cbs_wf c" "cbs_bytes c = be_bytes 2 (unat a) @ rest"
  moreover have "unat a < 256 ^ unat (2 :: size_t)"
    using unsigned_less [of a, where 'a = nat] by (simp del: unsigned_less)
  ultimately obtain c' where "cbs_get_u 2 c = (Some (of_nat (unat a)), c')" "cbs_bytes c' = rest"
    using cbs_get_u_complete [of c 2 "unat a" rest] by auto
  moreover have "ucast (of_nat (unat a) :: u32) = a"
    by (rule bit_word_eqI) (simp add: bit_simps)
  ultimately show "\<exists>r c'. CBS_get_u16 c = (Some r, c') \<and> r = a \<and> cbs_bytes c' = rest"
    by (simp add: CBS_get_u16_def)
qed

section \<open>Sub-readers and length prefixes\<close>

lemma CBS_get_bytes_sound:
  assumes "cbs_wf c" "CBS_get_bytes n c = (Some out, c')"
  shows "cbs_wf out \<and> cbs_wf c' \<and> cbs_bytes c = cbs_bytes out @ cbs_bytes c' \<and>
     cbs_len out = n \<and> length (cbs_bytes out) = unat n"
proof -
  have le: "n \<le> cbs_len c"
    using assms(2) cbs_get_None [of c n] linorder_not_less [of "cbs_len c" n]
    by (cases "cbs_len c < n") (force simp: CBS_get_bytes_def, blast)
  obtain c'' where c'': "cbs_get n c = (Some (cbs_data c), c'')" "cbs_wf c''"
    "cbs_bytes c'' = drop (unat n) (cbs_bytes c)"
    using cbs_get_Some [OF assms(1) le] .
  have out: "out = CBS_init (cbs_data c) n" and c': "c' = c''"
    using c''(1) assms(2) by (simp_all add: CBS_get_bytes_def)
  have "cbs_bytes out = take (unat n) (cbs_bytes c)"
    using le by (simp add: out cbs_bytes_init take_cbs_data word_le_nat_alt)
  moreover have "cbs_wf out"
    using assms(1) le unfolding out by (intro cbs_init_wf) (simp add: cbs_wf_def word_le_nat_alt)
  moreover have "unat n \<le> length (cbs_bytes c)"
    using assms(1) le by (simp add: word_le_nat_alt)
  ultimately show ?thesis
    using c'' c' out by (simp add: CBS_init_def)
qed

lemma CBS_get_bytes_complete:
  assumes "cbs_wf c" "cbs_bytes c = xs @ rest" "length xs = unat n"
  shows "\<exists>out c'. CBS_get_bytes n c = (Some out, c') \<and> cbs_bytes out = xs \<and> cbs_bytes c' = rest"
proof -
  have le: "n \<le> cbs_len c"
    using assms length_cbs_bytes [OF assms(1)] by (simp add: word_le_nat_alt)
  obtain c' where "cbs_get n c = (Some (cbs_data c), c')"
    using cbs_get_Some [OF assms(1) le] by blast
  then obtain out where ok: "CBS_get_bytes n c = (Some out, c')"
    by (simp add: CBS_get_bytes_def)
  then have "cbs_bytes out = xs \<and> cbs_bytes c' = rest"
    using CBS_get_bytes_sound [OF assms(1) ok] assms(2,3) by (metis append_eq_append_conv)
  then show ?thesis
    using ok by blast
qed

lemma CBS_get_bytes_None:
  "CBS_get_bytes n c = (None, c') \<longleftrightarrow> cbs_len c < n \<and> c' = c"
  by (auto simp: CBS_get_bytes_def cbs_get_def)

definition prefixed :: "nat \<Rightarrow> byte list \<Rightarrow> byte list" where
  "prefixed k bs = be_bytes k (length bs) @ bs"

lemma length_prefixed_sound:
  assumes "cbs_wf c" "unat n \<le> 4" "cbs_get_length_prefixed n c = (Some out, c')"
  shows "cbs_wf out \<and> cbs_wf c' \<and> length (cbs_bytes out) < 256 ^ unat n \<and>
     cbs_bytes c = prefixed (unat n) (cbs_bytes out) @ cbs_bytes c'"
proof -
  obtain v c1 where v: "cbs_get_u n c = (Some v, c1)" "CBS_get_bytes (ucast v) c1 = (Some out, c')"
    using assms(3) by (auto simp: cbs_get_length_prefixed_def split: prod.splits option.splits)
  have 1: "cbs_wf c1 \<and> unat v < 256 ^ unat n \<and> cbs_bytes c = be_bytes (unat n) (unat v) @ cbs_bytes c1"
    using cbs_get_u_sound [OF assms(1,2) v(1)] .
  then show ?thesis
    using CBS_get_bytes_sound [OF _ v(2)] by (simp add: prefixed_def word_nat)
qed

lemma length_prefixed_complete:
  assumes "cbs_wf c" "unat n \<le> 4" "length bs < 256 ^ unat n"
    "cbs_bytes c = prefixed (unat n) bs @ rest"
  shows "\<exists>out c'. cbs_get_length_prefixed n c = (Some out, c') \<and> cbs_bytes out = bs \<and> cbs_bytes c' = rest"
proof -
  have bytes: "cbs_bytes c = be_bytes (unat n) (length bs) @ (bs @ rest)"
    using assms(4) by (simp add: prefixed_def)
  obtain c1 where c1: "cbs_get_u n c = (Some (of_nat (length bs)), c1)" "cbs_wf c1" "cbs_bytes c1 = bs @ rest"
    using cbs_get_u_complete [OF assms(1,2,3) bytes] by blast
  have "length bs < 2 ^ 32"
    using assms(3) power_increasing [OF assms(2), of "256 :: nat"] by simp
  then have "length bs = unat (ucast (of_nat (length bs) :: u32) :: size_t)"
    by (simp add: word_nat unat_of_nat)
  then show ?thesis
    using CBS_get_bytes_complete [OF c1(2,3)] c1(1) by (simp add: cbs_get_length_prefixed_def)
qed

lemma prefixed_reader:
  assumes "unat n \<le> 4"
  shows "cbs_reader (cbs_get_length_prefixed n) cbs_bytes (prefixed (unat n))
     (\<lambda>bs. length bs < 256 ^ unat n) cbs_wf"
  using length_prefixed_sound [OF _ assms] length_prefixed_complete [OF _ assms]
  by unfold_locales blast+

interpretation u8_prefixed: cbs_reader CBS_get_u8_length_prefixed cbs_bytes "prefixed 1"
  "\<lambda>bs. length bs < 2 ^ 8" cbs_wf
proof -
  have "CBS_get_u8_length_prefixed = cbs_get_length_prefixed 1"
    by (simp add: CBS_get_u8_length_prefixed_def fun_eq_iff)
  then show "cbs_reader CBS_get_u8_length_prefixed cbs_bytes (prefixed 1) (\<lambda>bs. length bs < 2 ^ 8) cbs_wf"
    using prefixed_reader [of 1] by simp
qed

interpretation u16_prefixed: cbs_reader CBS_get_u16_length_prefixed cbs_bytes "prefixed 2"
  "\<lambda>bs. length bs < 2 ^ 16" cbs_wf
proof -
  have "CBS_get_u16_length_prefixed = cbs_get_length_prefixed 2"
    by (simp add: CBS_get_u16_length_prefixed_def fun_eq_iff)
  then show "cbs_reader CBS_get_u16_length_prefixed cbs_bytes (prefixed 2) (\<lambda>bs. length bs < 2 ^ 16) cbs_wf"
    using prefixed_reader [of 2] by simp
qed

interpretation u24_prefixed: cbs_reader CBS_get_u24_length_prefixed cbs_bytes "prefixed 3"
  "\<lambda>bs. length bs < 2 ^ 24" cbs_wf
proof -
  have "CBS_get_u24_length_prefixed = cbs_get_length_prefixed 3"
    by (simp add: CBS_get_u24_length_prefixed_def fun_eq_iff)
  then show "cbs_reader CBS_get_u24_length_prefixed cbs_bytes (prefixed 3) (\<lambda>bs. length bs < 2 ^ 24) cbs_wf"
    using prefixed_reader [of 3] by simp
qed

section \<open>DER elements\<close>

text \<open>
  The canonical encoding of an element: its identifier octet, the shortest form of its length
  and its contents.
\<close>

definition length_octets :: "nat \<Rightarrow> nat" where
  "length_octets n = (if n < 2 ^ 8 then 1 else if n < 2 ^ 16 then 2 else if n < 2 ^ 24 then 3 else 4)"

definition der_length :: "nat \<Rightarrow> byte list" where
  "der_length n =
     (if n < 128 then [of_nat n] else of_nat (128 + length_octets n) # be_bytes (length_octets n) n)"

definition der :: "byte \<Rightarrow> byte list \<Rightarrow> byte list" where
  "der tag body = tag # der_length (length body) @ body"

definition low_tag :: "byte \<Rightarrow> bool" where
  "low_tag tag \<longleftrightarrow> tag AND 0x1f \<noteq> 0x1f"

lemma length_octets_iff:
  assumes "1 \<le> k" "k \<le> 4" "n < 256 ^ k"
  shows "length_octets n = k \<longleftrightarrow> k = 1 \<or> 256 ^ (k - 1) \<le> n"
proof -
  from assms(1,2) consider "k = 1" | "k = 2" | "k = 3" | "k = 4" by linarith
  then show ?thesis
    using assms(3) by cases (auto simp: length_octets_def)
qed

lemma length_octets_bounds: "1 \<le> length_octets n" "length_octets n \<le> 4"
  by (auto simp: length_octets_def)

lemma less_length_octets: "n < 2 ^ 32 \<Longrightarrow> n < 256 ^ length_octets n"
  by (auto simp: length_octets_def)

text \<open>The header of an element, read from the first two bytes of a reader and what follows.\<close>

lemma any_asn1_element_short: "length (cbs_bytes c) < 2 \<Longrightarrow> cbs_wf c \<Longrightarrow> CBS_get_any_asn1_element c = (None, c)"
proof -
  assume wf: "cbs_wf c" and len: "length (cbs_bytes c) < 2"
  show ?thesis
  proof (cases "CBS_get_u8 c")
    case (Pair r h)
    show ?thesis
    proof (cases r)
      case (Some tag)
      then have h: "cbs_wf h" "cbs_bytes c = [tag] @ cbs_bytes h"
        using Pair u8.read_sound [OF wf] by simp_all
      have "cbs_bytes h = []"
        using h(2) len by simp
      then have "fst (CBS_get_u8 h) = None"
        using u8.read_None_iff [OF h(1)] by simp
      then show ?thesis
        using Pair Some by (cases "CBS_get_u8 h") (simp add: CBS_get_any_asn1_element_def)
    qed (simp add: CBS_get_any_asn1_element_def Pair)
  qed
qed

lemma any_asn1_element_header:
  assumes "cbs_wf c" "cbs_bytes c = t # l # rest"
  obtains h where "cbs_wf h" "cbs_bytes h = rest"
    "CBS_get_any_asn1_element c = asn1_after_tag t l h c"
proof -
  have b: "cbs_bytes c = [t] @ (l # rest)"
    using assms(2) by simp
  obtain h1 where h1: "CBS_get_u8 c = (Some t, h1)" "cbs_bytes h1 = l # rest"
    using u8.read_complete [OF assms(1) _ b] by auto
  have wf1: "cbs_wf h1"
    using u8.read_sound [OF assms(1) h1(1)] by simp
  have b1: "cbs_bytes h1 = [l] @ rest"
    using h1(2) by simp
  obtain h2 where h2: "CBS_get_u8 h1 = (Some l, h2)" "cbs_bytes h2 = rest"
    using u8.read_complete [OF wf1 _ b1] by auto
  have "cbs_wf h2"
    using u8.read_sound [OF wf1 h2(1)] by simp
  then show ?thesis
    using h2 h1(1) by (intro that [of h2]) (simp_all add: CBS_get_any_asn1_element_def)
qed

lemma unat_times_8: "unat x \<le> 3 \<Longrightarrow> unat (x * 8 :: size_t) = 8 * unat x"
  by (simp add: unat_word_ariths)

lemma asn1_element_Some:
  "asn1_element tag hl n c = (Some (out, tag', hl'), c') \<longleftrightarrow>
     tag' = tag \<and> hl' = hl \<and> CBS_get_bytes n c = (Some out, c')"
  by (auto simp: asn1_element_def split: prod.splits option.splits)

lemma length_form_byte:
  assumes "l AND 0x80 \<noteq> (0 :: byte)"
  shows "l = of_nat (128 + unat (ucast (l AND 0x7f) :: size_t))"
proof -
  have "unat l div 128 = 1"
    using assms unat_byte_lt [of l] by (intro div_nat_eqI) (simp_all add: byte_and_80)
  then have "unat l = 128 + unat l mod 128"
    using div_mult_mod_eq [of "unat l" 128] by linarith
  then have "l = of_nat (128 + unat l mod 128)"
    by (metis of_nat_unat ucast_id)
  then show ?thesis
    unfolding unat_ucast_byte_size_t byte_and_7f .
qed

text \<open>What an element accepted by the reader looks like: canonical, or an indefinite header.\<close>

definition definite_element :: "byte list \<Rightarrow> byte \<Rightarrow> nat \<Rightarrow> bool" where
  "definite_element bs t hl \<longleftrightarrow>
     (\<exists>body. bs = der t body \<and> hl = length (der t body) - length body \<and> length body < 2 ^ 32)"

definition indefinite_header :: "byte list \<Rightarrow> byte \<Rightarrow> nat \<Rightarrow> bool" where
  "indefinite_header bs t hl \<longleftrightarrow> (ucast t :: u32) AND CBS_ASN1_CONSTRUCTED \<noteq> 0 \<and> bs = [t, 0x80] \<and> hl = 2"

lemma take_bytes_eq:
  assumes "cbs_bytes out @ cbs_bytes c' = xs @ ys" "length (cbs_bytes out) = length xs + n"
  obtains body where "cbs_bytes out = xs @ body" "length body = n"
  using assms by (metis add_diff_cancel_left' append_eq_append_conv_if append_take_drop_id le_add1 length_drop)

lemma asn1_after_tag_sound:
  assumes wf: "cbs_wf c" "cbs_wf h" and b: "cbs_bytes c = t # l # cbs_bytes h"
    and ok: "asn1_after_tag t l h c = (Some (out, tag, hl), c')"
  shows "tag = ucast t \<and> low_tag t \<and> CBS_get_bytes (cbs_len out) c = (Some out, c') \<and>
    (definite_element (cbs_bytes out) t (unat hl) \<or> indefinite_header (cbs_bytes out) t (unat hl))"
proof -
  have low: "low_tag t"
    using ok by (simp add: asn1_after_tag_def low_tag_def split: if_splits)
  note get = CBS_get_bytes_sound [OF wf(1)]
  let ?k = "ucast (l AND 0x7f) :: size_t"
  consider (short) "l AND 0x80 = 0" "asn1_element (ucast t) 2 (ucast l + 2) c = (Some (out, tag, hl), c')"
    | (indef) "l AND 0x80 \<noteq> 0" "ucast t AND CBS_ASN1_CONSTRUCTED \<noteq> 0" "?k = 0"
        "asn1_element (ucast t) 2 2 c = (Some (out, tag, hl), c')"
    | (long) v h' where "l AND 0x80 \<noteq> 0" "?k \<noteq> 0" "\<not> 4 < ?k" "cbs_get_u ?k h = (Some v, h')" "\<not> v < 128"
        "drop_bit (unat ((?k - 1) * 8)) v \<noteq> 0"
        "asn1_element (ucast t) (2 + ?k) (ucast v + (2 + ?k)) c = (Some (out, tag, hl), c')"
    using ok by (auto simp: asn1_after_tag_def Let_def split: if_splits prod.splits option.splits)
  then show ?thesis
  proof cases
    case short
    have g: "CBS_get_bytes (ucast l + 2) c = (Some out, c')" and hl: "hl = 2" "tag = ucast t"
      using short(2) by (simp_all add: asn1_element_Some)
    have "unat (ucast l + 2 :: size_t) = 2 + unat l"
      using unat_byte_lt [of l] by (subst unat_add_size_t) (simp_all add: word_nat)
    then obtain body where body: "cbs_bytes out = [t, l] @ body" "length body = unat l"
      using get [OF g] b by (auto intro: take_bytes_eq [of out c' "[t, l]" "cbs_bytes h" "unat l"])
    have "cbs_bytes out = der t body"
      using body short(1) by (simp add: der_def der_length_def byte_and_80)
    moreover have "length (der t body) - length body = 2" "length body < 2 ^ 32"
      using body short(1) unat_byte_lt [of l] by (simp_all add: der_def der_length_def byte_and_80)
    ultimately show ?thesis
      using low hl g get [OF g] by (auto simp: definite_element_def)
  next
    case indef
    have g: "CBS_get_bytes 2 c = (Some out, c')" and hl: "hl = 2" "tag = ucast t"
      using indef by (simp_all add: asn1_element_Some)
    obtain body where body: "cbs_bytes out = [t, l] @ body" "length body = 0"
      using get [OF g] b by (auto intro: take_bytes_eq [of out c' "[t, l]" "cbs_bytes h" 0])
    have "l = 0x80"
      using length_form_byte [OF indef(1)] indef(3) by simp
    then show ?thesis
      using low hl g get [OF g] body indef(2) by (simp add: indefinite_header_def)
  next
    case long
    define k where "k = unat ?k"
    have k: "1 \<le> k" "k \<le> 4"
      using long(2,3) unat_eq_zero [of ?k] by (simp_all add: k_def word_less_nat_alt)
    have g: "CBS_get_bytes (ucast v + (2 + ?k)) c = (Some out, c')" and hl: "hl = 2 + ?k" "tag = ucast t"
      using long(7) by (simp_all add: asn1_element_Some)
    have s: "unat v < 256 ^ k" "cbs_bytes h = be_bytes k (unat v) @ cbs_bytes h'"
      using cbs_get_u_sound [OF wf(2) _ long(4)] k by (simp_all add: k_def)
    have v: "128 \<le> unat v" "unat v < 2 ^ 32"
      using long(5) unsigned_less [of v, where 'a = nat] by (simp_all add: word_less_nat_alt)
    have "unat (?k - 1) = k - 1"
      using long(2) by (simp add: k_def unat_minus_one)
    then have "unat ((?k - 1) * 8) = 8 * (k - 1)"
      using k unat_times_8 [of "?k - 1"] by linarith
    then have "256 ^ (k - 1) \<le> unat v"
      using long(6) by (simp add: drop_bit_eq_0 power_mult not_less)
    then have oct: "length_octets (unat v) = k"
      using length_octets_iff [OF k s(1)] by simp
    have l: "l = of_nat (128 + k)"
      using length_form_byte [OF long(1)] by (simp add: k_def)
    have hk: "unat (2 + ?k) = 2 + k"
      using k by (subst unat_add_size_t) (simp_all add: k_def)
    then have "unat (ucast v + (2 + ?k)) = (2 + k) + unat v"
      using v k by (subst unat_add_size_t) (simp_all add: word_nat)
    then obtain body where body: "cbs_bytes out = (t # l # be_bytes k (unat v)) @ body" "length body = unat v"
      using get [OF g] b s(2)
      by (auto intro: take_bytes_eq [of out c' "t # l # be_bytes k (unat v)" "cbs_bytes h'" "unat v"])
    have "cbs_bytes out = der t body"
      using body v l by (simp add: der_def der_length_def oct)
    moreover have "length (der t body) - length body = 2 + k" "length body < 2 ^ 32"
      using body v by (simp_all add: der_def der_length_def oct)
    ultimately show ?thesis
      using low hl hk g get [OF g] by (auto simp: definite_element_def)
  qed
qed


lemma any_asn1_element_sound:
  assumes wf: "cbs_wf c" and ok: "CBS_get_any_asn1_element c = (Some (out, tag, hl), c')"
  obtains t where "tag = ucast t" "low_tag t" "cbs_wf out" "cbs_wf c'"
    "cbs_bytes c = cbs_bytes out @ cbs_bytes c'"
    "definite_element (cbs_bytes out) t (unat hl) \<or> indefinite_header (cbs_bytes out) t (unat hl)"
proof -
  obtain t l rest where b: "cbs_bytes c = t # l # rest"
    using any_asn1_element_short [OF _ wf] ok by (cases "cbs_bytes c"; cases "tl (cbs_bytes c)") auto
  obtain h where h: "cbs_wf h" "cbs_bytes h = rest" "CBS_get_any_asn1_element c = asn1_after_tag t l h c"
    using any_asn1_element_header [OF wf b] .
  have "cbs_bytes c = t # l # cbs_bytes h" and "asn1_after_tag t l h c = (Some (out, tag, hl), c')"
    using b h ok by simp_all
  from asn1_after_tag_sound [OF wf h(1) this] show ?thesis
    using CBS_get_bytes_sound [OF wf] by (intro that [of t]) blast+
qed

lemma asn1_element_complete:
  assumes "cbs_wf c" "cbs_bytes c = xs @ rest" "length xs = unat n"
  shows "\<exists>out c'. asn1_element tag hl n c = (Some (out, tag, hl), c') \<and> cbs_bytes out = xs \<and>
     cbs_bytes c' = rest"
  using CBS_get_bytes_complete [OF assms] by (force simp: asn1_element_Some)

lemma any_asn1_element_complete:
  assumes wf: "cbs_wf c" and b: "cbs_bytes c = der t body @ rest"
    and low: "low_tag t" and len: "length body < 2 ^ 32"
  shows "\<exists>out hl c'. CBS_get_any_asn1_element c = (Some (out, ucast t, hl), c') \<and>
     unat hl = length (der t body) - length body \<and> cbs_bytes out = der t body \<and> cbs_bytes c' = rest"
proof (cases "length body < 128")
  case True
  have b': "cbs_bytes c = t # of_nat (length body) # (body @ rest)"
    using b True by (simp add: der_def der_length_def)
  obtain h where h: "CBS_get_any_asn1_element c = asn1_after_tag t (of_nat (length body)) h c"
    using any_asn1_element_header [OF wf b'] .
  have "unat (ucast (of_nat (length body) :: byte) + 2 :: size_t) = length body + 2"
    using True by (subst unat_add_size_t) (simp_all add: word_nat)
  then have n: "length (der t body) = unat (ucast (of_nat (length body) :: byte) + 2 :: size_t)"
    using True by (simp add: der_def der_length_def)
  have "asn1_after_tag t (of_nat (length body)) h c =
      asn1_element (ucast t) 2 (ucast (of_nat (length body) :: byte) + 2) c"
    using True low by (simp add: asn1_after_tag_def low_tag_def byte_and_80)
  then show ?thesis
    using asn1_element_complete [OF wf b n, of "ucast t" 2] h True
    by (auto simp: der_def der_length_def)
next
  case False
  define k where "k = length_octets (length body)"
  define l where "l = (of_nat (128 + k) :: byte)"
  define kw where "kw = (ucast (l AND 0x7f) :: size_t)"
  note k = length_octets_bounds [of "length body", folded k_def]
  have der: "der t body = t # l # be_bytes k (length body) @ body"
    using False by (simp add: der_def der_length_def k_def l_def)
  have b': "cbs_bytes c = t # l # (be_bytes k (length body) @ body @ rest)"
    using b by (simp add: der)
  obtain h where h: "cbs_wf h" "cbs_bytes h = be_bytes k (length body) @ body @ rest"
    "CBS_get_any_asn1_element c = asn1_after_tag t l h c"
    using any_asn1_element_header [OF wf b'] .
  have l: "unat l = 128 + k"
    using k by (simp add: l_def unat_of_nat del: of_nat_add)
  have kw: "unat kw = k"
    using l k by (simp add: kw_def word_nat byte_and_7f)
  have lt: "length body < 256 ^ k"
    using less_length_octets [OF len] by (simp add: k_def)
  obtain h' where u: "cbs_get_u kw h = (Some (of_nat (length body)), h')"
    using cbs_get_u_complete [OF h(1), of kw "length body"] h(2) kw k lt by auto
  let ?v = "of_nat (length body) :: u32"
  have v: "unat ?v = length body"
    using len by (simp add: unat_of_nat)
  have "unat (kw - 1) = k - 1"
    using k kw unat_minus_one [of kw] by fastforce
  then have sh: "unat ((kw - 1) * 8) = 8 * (k - 1)"
    using k unat_times_8 [of "kw - 1"] by linarith
  have "k = 1 \<or> 256 ^ (k - 1) \<le> length body"
    using length_octets_iff [OF k lt] by (simp add: k_def)
  then have drop: "drop_bit (unat ((kw - 1) * 8)) ?v \<noteq> 0"
    unfolding drop_bit_eq_0 sh v using False by (auto simp: power_mult)
  have hk: "unat (2 + kw) = 2 + k"
    using k kw by (subst unat_add_size_t) simp_all
  have n: "unat (ucast ?v + (2 + kw)) = length body + (2 + k)"
    using hk v len k by (subst unat_add_size_t) (simp_all add: word_nat)
  have nov: "\<not> (ucast ?v :: size_t) + 2 + kw < ucast ?v"
    using n v by (simp add: word_less_nat_alt word_nat add.assoc)
  have "asn1_after_tag t l h c = asn1_element (ucast t) (2 + kw) (ucast ?v + (2 + kw)) c"
    using low l k kw u drop nov v False
    by (auto simp: asn1_after_tag_def low_tag_def byte_and_80 Let_def word_less_nat_alt simp flip: kw_def)
  then show ?thesis
    using asn1_element_complete [OF wf b, of "ucast ?v + (2 + kw)" "ucast t" "2 + kw"] h(3) n hk
    by (auto simp: der)
qed

lemma CBS_skip_complete:
  assumes "cbs_wf c" "unat n \<le> length (cbs_bytes c)"
  shows "\<exists>c'. CBS_skip n c = (Some (), c') \<and> cbs_wf c' \<and> cbs_bytes c' = drop (unat n) (cbs_bytes c)"
proof -
  have le: "n \<le> cbs_len c"
    using assms by (simp add: word_le_nat_alt)
  obtain c' where "cbs_get n c = (Some (cbs_data c), c')" "cbs_wf c'"
    "cbs_bytes c' = drop (unat n) (cbs_bytes c)"
    using cbs_get_Some [OF assms(1) le] .
  then show ?thesis
    by (simp add: CBS_skip_def)
qed

lemma length_der: "length (der t body) = Suc (length (der_length (length body)) + length body)"
  by (simp add: der_def)

lemma drop_der: "drop (length (der t body) - length body) (der t body) = body"
  by (simp add: der_def)

lemma ucast_tag_eq: "(ucast (t :: byte) :: u32) = ucast t' \<longleftrightarrow> t = t'"
  by (simp add: word_unat_eq_iff unat_ucast_up)

interpretation asn1: cbs_reader "CBS_get_asn1 (ucast t)" cbs_bytes "der t"
  "\<lambda>body. low_tag t \<and> length body < 2 ^ 32" cbs_wf for t :: byte
proof
  fix c r c'
  assume wf: "cbs_wf c" and ok: "CBS_get_asn1 (ucast t) c = (Some r, c')"
  obtain out hl where el: "CBS_get_any_asn1_element c = (Some (out, ucast t, hl), c')"
    and def: "\<not> (0 < hl \<and> CBS_len out = hl \<and> CBS_data out ! unat (hl - 1) = 0x80)"
    and skip: "CBS_skip hl out = (Some (), r)"
    using ok by (auto simp: CBS_get_asn1_def cbs_get_asn1_def split: prod.splits option.splits if_splits)
  obtain t' where t': "(ucast t :: u32) = ucast t'" "low_tag t'" "cbs_wf out" "cbs_wf c'"
    "cbs_bytes c = cbs_bytes out @ cbs_bytes c'"
    "definite_element (cbs_bytes out) t' (unat hl) \<or> indefinite_header (cbs_bytes out) t' (unat hl)"
    using any_asn1_element_sound [OF wf el] .
  have "\<not> indefinite_header (cbs_bytes out) t' (unat hl)"
  proof
    assume "indefinite_header (cbs_bytes out) t' (unat hl)"
    then have bytes: "cbs_bytes out = [t', 0x80]" and "unat hl = 2"
      by (simp_all add: indefinite_header_def)
    then have "hl = 2" "cbs_len out = 2"
      using length_cbs_bytes [OF t'(3)] by (simp_all add: word_unat_eq_iff)
    then show False
      using def bytes nth_cbs_data [of 1 out] by (simp add: CBS_len_def CBS_data_def)
  qed
  then obtain body where body: "cbs_bytes out = der t body" "unat hl = length (der t body) - length body"
    "length body < 2 ^ 32"
    using t'(1,6) by (auto simp: definite_element_def ucast_tag_eq)
  have "cbs_bytes r = body" "cbs_wf r"
    using CBS_skip_complete [OF t'(3), of hl] skip body by (simp_all add: drop_der)
  then show "cbs_wf r \<and> cbs_wf c' \<and> (low_tag t \<and> length (cbs_bytes r) < 2 ^ 32) \<and>
      cbs_bytes c = der t (cbs_bytes r) @ cbs_bytes c'"
    using t' body by (simp add: ucast_tag_eq)
next
  fix c body rest
  assume wf: "cbs_wf c" and v: "low_tag t \<and> length body < 2 ^ 32" and b: "cbs_bytes c = der t body @ rest"
  obtain out hl c' where el: "CBS_get_any_asn1_element c = (Some (out, ucast t, hl), c')"
    and hl: "unat hl = length (der t body) - length body"
    and out: "cbs_bytes out = der t body" and c': "cbs_bytes c' = rest"
    using any_asn1_element_complete [OF wf b] v by blast
  have wfo: "cbs_wf out"
    using any_asn1_element_sound [OF wf el] by blast
  have "\<not> (CBS_len out = hl \<and> CBS_data out ! unat (hl - 1) = 0x80)"
  proof
    assume *: "CBS_len out = hl \<and> CBS_data out ! unat (hl - 1) = 0x80"
    then have "length (der t body) = length (der t body) - length body"
      using length_cbs_bytes [OF wfo] hl out by (simp add: CBS_len_def)
    then have "body = []"
      by (simp add: length_der)
    then have "cbs_bytes out = [t, 0]" "unat hl = 2"
      using out hl by (simp_all add: der_def der_length_def)
    moreover from this have "hl = 2"
      by (simp add: word_unat_eq_iff)
    ultimately show False
      using * nth_cbs_data [of 1 out] by (simp add: CBS_len_def CBS_data_def)
  qed
  moreover obtain r where "CBS_skip hl out = (Some (), r)" "cbs_bytes r = body"
    using CBS_skip_complete [OF wfo, of hl] hl out by (auto simp: drop_der)
  ultimately show "\<exists>r c'. CBS_get_asn1 (ucast t) c = (Some r, c') \<and> cbs_bytes r = body \<and> cbs_bytes c' = rest"
    using el c' by (simp add: CBS_get_asn1_def cbs_get_asn1_def)
qed

section \<open>Unsigned integers\<close>

text \<open>
  The contents octets of a non-negative INTEGER: the big-endian value without leading zero
  octets, with one zero octet in front where the first bit would read as a sign.
\<close>

definition strip_zeros :: "byte list \<Rightarrow> byte list" where
  "strip_zeros bs = dropWhile (\<lambda>b. b = 0) bs"

definition uint_octets :: "nat \<Rightarrow> byte list" where
  "uint_octets v =
     (let bs = strip_zeros (be_bytes 8 v)
      in if bs = [] then [0] else if 128 \<le> unat (hd bs) then 0 # bs else bs)"

lemma be_nat_strip [simp]: "be_nat (strip_zeros bs) = be_nat bs"
  by (induction bs) (simp_all add: strip_zeros_def be_nat_Cons)

lemma strip_zeros_hd: "strip_zeros bs = b # rest \<Longrightarrow> b \<noteq> 0"
  unfolding strip_zeros_def by (metis (full_types) dropWhile_eq_Cons_conv)

lemma be_nat_inj_length:
  assumes "xs = [] \<or> hd xs \<noteq> 0" "be_nat xs = be_nat ys"
  shows "length xs \<le> length ys"
proof (cases xs)
  case (Cons b bs)
  then have "0 < unat b"
    using assms(1) unat_gt_0 [of b] by simp
  then have "256 ^ length bs \<le> be_nat xs"
    by (simp add: Cons be_nat_Cons trans_le_add1)
  also have "\<dots> < 256 ^ length ys"
    using be_nat_less [of ys] assms(2) by simp
  finally have "length bs < length ys"
    by (simp add: power_strict_increasing_iff)
  then show ?thesis
    by (simp add: Cons)
qed simp

lemma strip_zeros_unique:
  assumes "be_nat xs = be_nat ys"
  shows "strip_zeros xs = strip_zeros ys"
proof -
  have hd: "strip_zeros zs = [] \<or> hd (strip_zeros zs) \<noteq> 0" for zs
    by (metis list.exhaust_sel strip_zeros_hd)
  have "length (strip_zeros xs) = length (strip_zeros ys)"
    using be_nat_inj_length [OF hd, of xs "strip_zeros ys"] be_nat_inj_length [OF hd, of ys "strip_zeros xs"]
      assms by simp
  then show ?thesis
    using assms be_bytes_be_nat be_nat_strip by metis
qed

lemma uint64_loop_eq:
  "uint64_loop v bs =
     (if unat v * 256 ^ length bs + be_nat bs < 2 ^ 64
      then Some (of_nat (unat v * 256 ^ length bs + be_nat bs)) else None)"
proof (induction bs arbitrary: v)
  case Nil
  then show ?case
    using unsigned_less [of v, where 'a = nat] by simp
next
  case (Cons b bs)
  show ?case
  proof (cases "unat v < 2 ^ 56")
    case True
    then have "drop_bit 56 v = 0"
      by (simp add: drop_bit_eq_0)
    moreover have "unat (shift_in v b) = unat v * 256 + unat b"
      using True by (intro unat_shift_in) simp_all
    ultimately show ?thesis
      by (simp add: Cons be_nat_Cons algebra_simps)
  next
    case False
    then have "2 ^ 64 \<le> unat v * 256"
      by simp
    also have "\<dots> \<le> unat v * 256 ^ length (b # bs)"
      by simp
    finally show ?thesis
      using False by (simp add: drop_bit_eq_0)
  qed
qed

lemma uint64_loop_0: "uint64_loop 0 bs = (if be_nat bs < 2 ^ 64 then Some (of_nat (be_nat bs)) else None)"
  by (simp add: uint64_loop_eq)

text \<open>The three rejections of the reader: no contents, a negative number, a superfluous octet.\<close>

definition minimal_uint :: "byte list \<Rightarrow> bool" where
  "minimal_uint d \<longleftrightarrow> d \<noteq> [] \<and> unat (d ! 0) < 128 \<and> \<not> (d ! 0 = 0 \<and> 1 < length d \<and> unat (d ! 1) < 128)"

lemma minimal_uint_unique:
  assumes "minimal_uint d" "be_nat d < 2 ^ 64"
  shows "d = uint_octets (be_nat d)"
proof -
  have strip: "strip_zeros (be_bytes 8 (be_nat d)) = strip_zeros d"
    using assms(2) by (intro strip_zeros_unique) (simp add: be_nat_be_bytes)
  obtain b bs where d: "d = b # bs"
    using assms(1) by (cases d) (simp_all add: minimal_uint_def)
  show ?thesis
  proof (cases "b = 0")
    case True
    then show ?thesis
      using assms(1) strip
      by (cases bs) (auto simp: d minimal_uint_def uint_octets_def strip_zeros_def)
  next
    case False
    then show ?thesis
      using assms(1) strip by (simp add: d minimal_uint_def uint_octets_def strip_zeros_def)
  qed
qed

lemma minimal_uint_octets:
  assumes "v < 2 ^ 64"
  shows "minimal_uint (uint_octets v)" "be_nat (uint_octets v) = v" "length (uint_octets v) \<le> 9"
proof -
  let ?bs = "strip_zeros (be_bytes 8 v)"
  have v: "be_nat ?bs = v"
    using assms by (simp add: be_nat_be_bytes)
  have "length ?bs \<le> 8"
    using length_dropWhile_le [of "\<lambda>b. b = 0" "be_bytes 8 v"] by (simp add: strip_zeros_def)
  then show "length (uint_octets v) \<le> 9"
    by (simp add: uint_octets_def Let_def)
  show "be_nat (uint_octets v) = v"
    using v by (cases ?bs) (auto simp: uint_octets_def Let_def be_nat_Cons)
  show "minimal_uint (uint_octets v)"
    using strip_zeros_hd [of "be_bytes 8 v"]
    by (cases ?bs) (auto simp: uint_octets_def Let_def minimal_uint_def)
qed


lemma uint64_contents:
  assumes "cbs_wf r"
  shows "(if CBS_len r = 0 then (None, c')
     else if CBS_data r ! 0 AND 0x80 \<noteq> 0 then (None, c')
     else if CBS_data r ! 0 = 0 \<and> 1 < CBS_len r \<and> CBS_data r ! 1 AND 0x80 = 0 then (None, c')
     else (uint64_loop 0 (take (unat (CBS_len r)) (CBS_data r)), c')) =
   (if minimal_uint (cbs_bytes r) \<and> be_nat (cbs_bytes r) < 2 ^ 64
    then Some (of_nat (be_nat (cbs_bytes r))) else None, c')"
proof -
  have len: "length (cbs_bytes r) = unat (cbs_len r)"
    using assms by simp
  have nth: "cbs_data r ! 0 = cbs_bytes r ! 0" if "cbs_len r \<noteq> 0"
    using that by (intro nth_cbs_data) (simp add: unat_gt_0)
  have nth1: "cbs_data r ! 1 = cbs_bytes r ! 1" if "1 < cbs_len r"
    using that by (intro nth_cbs_data) (simp add: word_less_nat_alt)
  have empty: "cbs_bytes r = [] \<longleftrightarrow> cbs_len r = 0"
    using len by (metis length_0_conv unat_eq_zero)
  have more: "1 < length (cbs_bytes r) \<longleftrightarrow> 1 < cbs_len r"
    using len by (simp add: word_less_nat_alt)
  show ?thesis
    using nth nth1 empty more
    by (auto simp: CBS_len_def CBS_data_def minimal_uint_def byte_and_80 uint64_loop_0 simp flip: cbs_bytes_def)
qed

lemma CBS_ASN1_INTEGER_tag: "CBS_ASN1_INTEGER = ucast (2 :: byte)" "low_tag 2"
  by (simp_all add: CBS_ASN1_INTEGER_def low_tag_def)

lemma CBS_get_asn1_uint64_alt:
  assumes "cbs_wf c" "CBS_get_asn1 CBS_ASN1_INTEGER c = (Some r, c')"
  shows "CBS_get_asn1_uint64 c =
    (if minimal_uint (cbs_bytes r) \<and> be_nat (cbs_bytes r) < 2 ^ 64
     then Some (of_nat (be_nat (cbs_bytes r))) else None, c')"
proof -
  have "cbs_wf r"
    using asn1.read_sound [of c 2 r c'] assms by (simp add: CBS_ASN1_INTEGER_tag)
  then show ?thesis
    using uint64_contents [of r c'] assms(2) by (simp add: CBS_get_asn1_uint64_def)
qed

interpretation uint64: cbs_reader CBS_get_asn1_uint64 "\<lambda>v. v" "\<lambda>v. der 2 (uint_octets (unat v))"
  "\<lambda>_. True" "\<lambda>_. True"
proof
  fix c v c'
  assume wf: "cbs_wf c" and ok: "CBS_get_asn1_uint64 c = (Some v, c')"
  obtain r c1 where r: "CBS_get_asn1 CBS_ASN1_INTEGER c = (Some r, c1)"
    using ok by (auto simp: CBS_get_asn1_uint64_def split: prod.splits option.splits)
  have v: "minimal_uint (cbs_bytes r)" "be_nat (cbs_bytes r) < 2 ^ 64" "v = of_nat (be_nat (cbs_bytes r))"
    and "c' = c1"
    using CBS_get_asn1_uint64_alt [OF wf r] ok by (auto split: if_splits)
  moreover have "cbs_bytes r = uint_octets (be_nat (cbs_bytes r))"
    using v by (intro minimal_uint_unique)
  ultimately show "True \<and> cbs_wf c' \<and> True \<and> cbs_bytes c = der 2 (uint_octets (unat v)) @ cbs_bytes c'"
    using asn1.read_sound [OF wf, of 2 r c1] r by (simp add: CBS_ASN1_INTEGER_tag unat_of_nat)
next
  fix c and v :: u64 and rest
  assume wf: "cbs_wf c" and b: "cbs_bytes c = der 2 (uint_octets (unat v)) @ rest"
  have lt: "unat v < 2 ^ 64"
    using unsigned_less [of v, where 'a = nat] by simp
  note min = minimal_uint_octets [OF lt]
  have "length (uint_octets (unat v)) < 2 ^ 32"
    using min(3) by simp
  then obtain r c' where r: "CBS_get_asn1 CBS_ASN1_INTEGER c = (Some r, c')"
    "cbs_bytes r = uint_octets (unat v)" "cbs_bytes c' = rest"
    using asn1.read_complete [OF wf _ b] by (auto simp: CBS_ASN1_INTEGER_tag)
  show "\<exists>r c'. CBS_get_asn1_uint64 c = (Some r, c') \<and> r = v \<and> cbs_bytes c' = rest"
    using CBS_get_asn1_uint64_alt [OF wf r(1)] r(2,3) min lt by simp
qed

section \<open>Properties of the reader\<close>

text \<open>A string that fits into the address space, as a reader.\<close>

definition cbs_of :: "byte list \<Rightarrow> cbs" where
  "cbs_of bs = CBS_init bs (of_nat (length bs))"

lemma cbs_of:
  assumes "length bs < 2 ^ 64"
  shows "cbs_wf (cbs_of bs)" "cbs_bytes (cbs_of bs) = bs"
proof -
  have len: "unat (of_nat (length bs) :: size_t) = length bs"
    using assms by (simp add: unat_of_nat take_bit_nat_eq_self)
  show "cbs_wf (cbs_of bs)"
    unfolding cbs_of_def by (rule cbs_init_wf) (simp only: len)
  show "cbs_bytes (cbs_of bs) = bs"
    using len by (simp add: cbs_of_def cbs_bytes_init)
qed

text \<open>
  C13. \<^verbatim>\<open>CBS_get_any_asn1_element\<close> never reads past the length of its argument and accepts only
  strict DER: what it returns is a prefix of the input, its tag is a single byte, and it is either
  an element whose length is encoded in the shortest form and fits in 32 bits, with the header
  length reported, or the two-byte header of an indefinite-length constructed element.
\<close>

theorem CBS_get_any_asn1_element_strict:
  assumes "cbs_wf c" "CBS_get_any_asn1_element c = (Some (out, tag, hl), c')"
  shows "cbs_wf out \<and> cbs_wf c' \<and> cbs_bytes c = cbs_bytes out @ cbs_bytes c' \<and>
    (\<exists>t. tag = ucast t \<and> low_tag t \<and>
      (definite_element (cbs_bytes out) t (unat hl) \<or> indefinite_header (cbs_bytes out) t (unat hl)))"
  using any_asn1_element_sound [OF assms] by blast

theorem CBS_get_any_asn1_element_strict_witness:
  "\<exists>out tag hl c'. CBS_get_any_asn1_element (cbs_of [0x30, 3, 2, 1, 5, 9]) = (Some (out, tag, hl), c') \<and>
     cbs_bytes (cbs_of [0x30, 3, 2, 1, 5, 9]) = cbs_bytes out @ cbs_bytes c'"
proof -
  have "fst (CBS_get_any_asn1_element (cbs_of [0x30, 3, 2, 1, 5, 9])) \<noteq> None"
    by code_simp
  then obtain out tag hl c' where "CBS_get_any_asn1_element (cbs_of [0x30, 3, 2, 1, 5, 9]) = (Some (out, tag, hl), c')"
    by (metis option.exhaust prod.collapse)
  then show ?thesis
    using CBS_get_any_asn1_element_strict [OF cbs_of(1)] by fastforce
qed

text \<open>
  C6. \<^verbatim>\<open>CBS_get_asn1\<close> with an expected tag inverts the DER encoding exactly: it returns the body
  \<open>b\<close> and leaves \<open>rest\<close> if and only if the input is the DER encoding of \<open>b\<close> under that
  tag followed by \<open>rest\<close>. Hence every other encoding of the same element is rejected.
\<close>

theorem CBS_get_asn1_iff:
  assumes "cbs_wf c"
  shows "(\<exists>out c'. CBS_get_asn1 (ucast t) c = (Some out, c') \<and> cbs_bytes out = b \<and> cbs_bytes c' = rest) \<longleftrightarrow>
     low_tag t \<and> length b < 2 ^ 32 \<and> cbs_bytes c = der t b @ rest"
  using asn1.read_iff [OF assms, of t b rest] by simp

theorem CBS_get_asn1_iff_witness:
  "\<exists>out c'. CBS_get_asn1 (ucast (0x30 :: byte)) (cbs_of [0x30, 3, 2, 1, 5, 9]) = (Some out, c') \<and>
     cbs_bytes out = [2, 1, 5] \<and> cbs_bytes c' = [9]"
  using CBS_get_asn1_iff [OF cbs_of(1), of "[0x30, 3, 2, 1, 5, 9]" "0x30" "[2, 1, 5]" "[9]"]
  by (simp add: cbs_of low_tag_def der_def der_length_def)

text \<open>
  C14. \<^verbatim>\<open>CBS_get_asn1_uint64\<close> returns \<open>v\<close> and leaves \<open>rest\<close> if and only if the input is the
  DER encoding of the INTEGER \<open>v\<close>, in its shortest two's complement form, followed by
  \<open>rest\<close>: padded, negative and too large integers are rejected.
\<close>

theorem CBS_get_asn1_uint64_iff:
  assumes "cbs_wf c"
  shows "(\<exists>c'. CBS_get_asn1_uint64 c = (Some v, c') \<and> cbs_bytes c' = rest) \<longleftrightarrow>
     cbs_bytes c = der 2 (uint_octets (unat v)) @ rest"
  using uint64.read_iff [OF assms, of v rest] by simp

theorem CBS_get_asn1_uint64_iff_witness:
  "\<exists>c'. CBS_get_asn1_uint64 (cbs_of [2, 2, 0, 200, 7]) = (Some 200, c') \<and> cbs_bytes c' = [7]"
  using CBS_get_asn1_uint64_iff [OF cbs_of(1), of "[2, 2, 0, 200, 7]" 200 "[7]"]
  by (simp add: cbs_of der_def der_length_def uint_octets_def strip_zeros_def be_bytes_numeral)

text \<open>
  The readers of a length-prefixed string return the body \<open>b\<close> and leave \<open>rest\<close> if and only
  if the input is \<open>b\<close> behind its big-endian length, followed by \<open>rest\<close>; in particular a
  prefix that claims more than there is makes them fail.
\<close>

theorem CBS_get_length_prefixed_iff:
  assumes "cbs_wf c"
  shows "((\<exists>out c'. CBS_get_u8_length_prefixed c = (Some out, c') \<and> cbs_bytes out = b \<and> cbs_bytes c' = rest) \<longleftrightarrow>
       length b < 2 ^ 8 \<and> cbs_bytes c = prefixed 1 b @ rest) \<and>
     ((\<exists>out c'. CBS_get_u16_length_prefixed c = (Some out, c') \<and> cbs_bytes out = b \<and> cbs_bytes c' = rest) \<longleftrightarrow>
       length b < 2 ^ 16 \<and> cbs_bytes c = prefixed 2 b @ rest) \<and>
     ((\<exists>out c'. CBS_get_u24_length_prefixed c = (Some out, c') \<and> cbs_bytes out = b \<and> cbs_bytes c' = rest) \<longleftrightarrow>
       length b < 2 ^ 24 \<and> cbs_bytes c = prefixed 3 b @ rest)"
  using u8_prefixed.read_iff [OF assms, of b rest] u16_prefixed.read_iff [OF assms, of b rest]
    u24_prefixed.read_iff [OF assms, of b rest] by simp

theorem CBS_get_length_prefixed_iff_witness:
  "\<exists>out c'. CBS_get_u16_length_prefixed (cbs_of [0, 2, 8, 9, 7]) = (Some out, c') \<and> cbs_bytes out = [8, 9] \<and> cbs_bytes c' = [7]"
  using CBS_get_length_prefixed_iff [OF cbs_of(1), of "[0, 2, 8, 9, 7]" "[8, 9]" "[7]"]
  by (simp add: cbs_of prefixed_def be_bytes_numeral)

lemma foldl_or_zero:
  "foldl (\<lambda>x i. x OR f i) a is = 0 \<longleftrightarrow> a = 0 \<and> (\<forall>i\<in>set is. f i = (0 :: byte))"
proof (induction "is" arbitrary: a)
  case (Cons i "is")
  have "a OR f i = 0 \<longleftrightarrow> a = 0 \<and> f i = 0"
    by (metis bit.disj_zero_right disj_commute or.left_neutral or_eq_0_iff)
  then show ?case
    using Cons by simp
qed simp

lemma CRYPTO_memcmp_0:
  assumes "unat n \<le> length a" "unat n \<le> length b"
  shows "CRYPTO_memcmp a b n = 0 \<longleftrightarrow> take (unat n) a = take (unat n) b"
proof -
  have "CRYPTO_memcmp a b n = 0 \<longleftrightarrow> (\<forall>i<unat n. a ! i XOR b ! i = 0)"
    by (auto simp: CRYPTO_memcmp_def foldl_or_zero)
  also have "\<dots> \<longleftrightarrow> (\<forall>i<unat n. a ! i = b ! i)"
    by (metis (no_types, opaque_lifting) xor.assoc xor.left_neutral xor.right_neutral xor_self_eq)
  also have "\<dots> \<longleftrightarrow> take (unat n) a = take (unat n) b"
    using assms by (auto simp: list_eq_iff_nth_eq)
  finally show ?thesis .
qed

text \<open>
  \<^verbatim>\<open>CRYPTO_memcmp\<close> returns 0 exactly if the two regions are equal, so that \<^verbatim>\<open>CBS_mem_equal\<close>
  is equality of the string with the given bytes.
\<close>

theorem CBS_mem_equal_iff:
  assumes "cbs_wf c" "unat n \<le> length d"
  shows "CBS_mem_equal c d n \<longleftrightarrow> cbs_bytes c = take (unat n) d"
proof (cases "n = cbs_len c")
  case True
  then show ?thesis
    using assms CRYPTO_memcmp_0 [of n "cbs_data c" d] by (simp add: CBS_mem_equal_def cbs_wf_def cbs_bytes_def)
next
  case False
  then have "length (cbs_bytes c) \<noteq> length (take (unat n) d)"
    using assms by (auto simp: word_unat_eq_iff)
  then show ?thesis
    using False by (auto simp: CBS_mem_equal_def)
qed

theorem CBS_mem_equal_iff_witness:
  "CBS_mem_equal (cbs_of [1, 2, 3]) [1, 2, 3, 4] 3 \<and> \<not> CBS_mem_equal (cbs_of [1, 2, 3]) [1, 2, 5] 3"
  using CBS_mem_equal_iff [OF cbs_of(1), of "[1, 2, 3]" 3 "[1, 2, 3, 4]"]
    CBS_mem_equal_iff [OF cbs_of(1), of "[1, 2, 3]" 3 "[1, 2, 5]"]
  by (simp add: cbs_of)

text \<open>Two fields in a row, as in the header of a record: a type byte and a body behind its length.\<close>

interpretation u8_u16_prefixed: cbs_reader_pair CBS_get_u8 "\<lambda>v. v" "\<lambda>v. [v]" "\<lambda>_. True" "\<lambda>_. True"
  CBS_get_u16_length_prefixed cbs_bytes "prefixed 2" "\<lambda>b. length b < 2 ^ 16" cbs_wf
  by (intro cbs_reader_pair.intro u8.cbs_reader_axioms u16_prefixed.cbs_reader_axioms)

end
