(* ===== verification/Cbb.thy ===== *)
theory Cbb
  imports Cbs
begin

unbundle bit_operations_syntax

text \<open>
  The byte-string builder of \<^verbatim>\<open>crypto/bytestring/cbb.c\<close>. The objects that write to one
  buffer form a chain: the top-level \<^verbatim>\<open>CBB\<close>, its child, the child of that, and so on. The
  model keeps the shared \<^verbatim>\<open>cbb_buffer_st\<close> and the list of the live \<^verbatim>\<open>CBB\<close> structs in this
  order; the \<^verbatim>\<open>child\<close> pointer of an entry is the next entry, and NULL for the last one. An
  operation names the \<^verbatim>\<open>CBB\<close> it is called on by its position. A \<^verbatim>\<open>CBB\<close> that was invalidated by a
  flush (\<^verbatim>\<open>base == NULL\<close>) is not in the list any more, and an operation on a position past its end
  fails as the check of \<^verbatim>\<open>base\<close> does. A call that returns 0 is \<open>None\<close>: the only call that is
  allowed then is \<^verbatim>\<open>CBB_cleanup\<close>.

  \<open>ok n\<close> says whether the allocator can provide \<open>n\<close> bytes, \<open>fresh i\<close> is the byte it leaves at
  index \<open>i\<close> of memory that was never written.
\<close>

section \<open>State and operations\<close>

record cbb_buffer =
  cb_buf :: "byte list"
  cb_len :: size_t
  cb_cap :: size_t
  cb_can_resize :: bool

record cbb =
  cbb_offset :: size_t
  pending_len_len :: byte
  pending_is_asn1 :: bool
  is_top_level :: bool

record cbb_state =
  cbb_base :: cbb_buffer
  cbb_chain :: "cbb list"

definition cbb_init :: "(size_t \<Rightarrow> bool) \<Rightarrow> byte list \<Rightarrow> size_t \<Rightarrow> cbb_state option" where
  "cbb_init ok buf cap =
     (if \<not> ok 32 then None
      else Some \<lparr>cbb_base = \<lparr>cb_buf = buf, cb_len = 0, cb_cap = cap, cb_can_resize = True\<rparr>,
                 cbb_chain = [\<lparr>cbb_offset = 0, pending_len_len = 0, pending_is_asn1 = False,
                               is_top_level = True\<rparr>]\<rparr>)"

definition CBB_init :: "(size_t \<Rightarrow> bool) \<Rightarrow> (nat \<Rightarrow> byte) \<Rightarrow> size_t \<Rightarrow> cbb_state option" where
  "CBB_init ok fresh initial_capacity =
     (if 0 < initial_capacity \<and> \<not> ok initial_capacity then None
      else cbb_init ok (map fresh [0..<unat initial_capacity]) initial_capacity)"

definition CBB_init_fixed :: "(size_t \<Rightarrow> bool) \<Rightarrow> byte list \<Rightarrow> size_t \<Rightarrow> cbb_state option" where
  "CBB_init_fixed ok buf n =
     (case cbb_init ok buf n of
        None \<Rightarrow> None
      | Some s \<Rightarrow> Some (s\<lparr>cbb_base := (cbb_base s)\<lparr>cb_can_resize := False\<rparr>\<rparr>))"

text \<open>The first component of the result is the offset of the new space in the buffer.\<close>

definition cbb_buffer_add ::
  "(size_t \<Rightarrow> bool) \<Rightarrow> (nat \<Rightarrow> byte) \<Rightarrow> cbb_buffer \<Rightarrow> size_t \<Rightarrow> (size_t \<times> cbb_buffer) option" where
  "cbb_buffer_add ok fresh b n =
     (let newlen = cb_len b + n in
      if newlen < cb_len b then None
      else if cb_cap b < newlen then
        (let newcap = cb_cap b * 2 in
         if \<not> cb_can_resize b then None
         else
           let newcap = (if newcap < cb_cap b \<or> newcap < newlen then newlen else newcap) in
           if \<not> ok newcap then None
           else Some (cb_len b,
             b\<lparr>cb_buf := cb_buf b @ map fresh [unat (cb_cap b)..<unat newcap],
               cb_cap := newcap, cb_len := newlen\<rparr>))
      else Some (cb_len b, b\<lparr>cb_len := newlen\<rparr>))"

text \<open>
  The loop \<^verbatim>\<open>for (i = n - 1; i < n; i--) { p[i] = v; v >>= 8; }\<close>, which ends when \<^verbatim>\<open>i\<close> wraps
  around: \<open>n\<close> bytes at \<open>pos\<close>, the last one first. The result has the buffer and what is left of
  \<^verbatim>\<open>v\<close>.
\<close>

fun put_be :: "nat \<Rightarrow> nat \<Rightarrow> 'a :: len word \<Rightarrow> byte list \<Rightarrow> byte list \<times> 'a word" where
  "put_be pos 0 v buf = (buf, v)"
| "put_be pos (Suc i) v buf = put_be pos i (drop_bit 8 v) (buf[pos + i := ucast v])"

definition cbb_buffer_add_u ::
  "(size_t \<Rightarrow> bool) \<Rightarrow> (nat \<Rightarrow> byte) \<Rightarrow> cbb_buffer \<Rightarrow> u32 \<Rightarrow> size_t \<Rightarrow> cbb_buffer option" where
  "cbb_buffer_add_u ok fresh b v len_len =
     (if len_len = 0 then Some b
      else
        case cbb_buffer_add ok fresh b len_len of
          None \<Rightarrow> None
        | Some (p, b') \<Rightarrow> Some (b'\<lparr>cb_buf := fst (put_be (unat p) (unat len_len) v (cb_buf b'))\<rparr>))"

text \<open>
  The length of the ASN.1 length field, its first byte and the value that its other bytes hold.
\<close>

definition asn1_length_field :: "size_t \<Rightarrow> (size_t \<times> byte \<times> size_t) option" where
  "asn1_length_field n =
     (if 0xfffffffe < n then None
      else if 0xffffff < n then Some (5, 0x80 OR 4, n)
      else if 0xffff < n then Some (4, 0x80 OR 3, n)
      else if 0xff < n then Some (3, 0x80 OR 2, n)
      else if 0x7f < n then Some (2, 0x80 OR 1, n)
      else Some (1, ucast n, 0))"

definition flush_asn1 ::
  "(size_t \<Rightarrow> bool) \<Rightarrow> (nat \<Rightarrow> byte) \<Rightarrow> size_t \<Rightarrow> size_t \<Rightarrow> cbb_buffer \<Rightarrow> cbb \<Rightarrow>
     (size_t \<times> cbb_buffer \<times> cbb) option" where
  "flush_asn1 ok fresh child_start n b c =
     (case asn1_length_field n of
        None \<Rightarrow> None
      | Some (len_len, initial_length_byte, n') \<Rightarrow>
          (case
             (if len_len \<noteq> 1 then
                let extra_bytes = len_len - 1 in
                case cbb_buffer_add ok fresh b extra_bytes of
                  None \<Rightarrow> None
                | Some (_, b') \<Rightarrow>
                    Some (b'\<lparr>cb_buf :=
                      put_at (unat (child_start + extra_bytes))
                        (take (unat n') (drop (unat child_start) (cb_buf b'))) (cb_buf b')\<rparr>)
              else Some b) of
             None \<Rightarrow> None
           | Some b' \<Rightarrow>
               Some (n',
                 b'\<lparr>cb_buf := (cb_buf b')[unat (cbb_offset c) := initial_length_byte]\<rparr>,
                 c\<lparr>cbb_offset := cbb_offset c + 1, pending_len_len := ucast (len_len - 1)\<rparr>)))"

text \<open>
  \<^verbatim>\<open>CBB_flush\<close> on the first entry of a chain. An entry with a child gets its pending length
  prefix, after its child was flushed, and loses the child.
\<close>

fun flush_chain ::
  "(size_t \<Rightarrow> bool) \<Rightarrow> (nat \<Rightarrow> byte) \<Rightarrow> cbb_buffer \<Rightarrow> cbb list \<Rightarrow> (cbb_buffer \<times> cbb list) option" where
  "flush_chain ok fresh b [] = None"
| "flush_chain ok fresh b [c] = Some (b, [c])"
| "flush_chain ok fresh b (c # d # rest) =
     (if pending_len_len c = 0 then Some (b, c # d # rest)
      else
        let child_start = cbb_offset c + ucast (pending_len_len c) in
        case flush_chain ok fresh b (d # rest) of
          None \<Rightarrow> None
        | Some (b, _) \<Rightarrow>
            if child_start < cbb_offset c \<or> cb_len b < child_start then None
            else
              let n = cb_len b - child_start in
              (case (if pending_is_asn1 c then flush_asn1 ok fresh child_start n b c else Some (n, b, c)) of
                 None \<Rightarrow> None
               | Some (n, b, c) \<Rightarrow>
                   let (buf, n) = put_be (unat (cbb_offset c)) (unat (pending_len_len c)) n (cb_buf b) in
                   if n \<noteq> 0 then None
                   else Some (b\<lparr>cb_buf := buf\<rparr>,
                     [c\<lparr>cbb_offset := 0, pending_len_len := 0, pending_is_asn1 := False\<rparr>])))"

definition CBB_flush ::
  "(size_t \<Rightarrow> bool) \<Rightarrow> (nat \<Rightarrow> byte) \<Rightarrow> nat \<Rightarrow> cbb_state \<Rightarrow> cbb_state option" where
  "CBB_flush ok fresh d s =
     (case flush_chain ok fresh (cbb_base s) (drop d (cbb_chain s)) of
        None \<Rightarrow> None
      | Some (b, cs) \<Rightarrow> Some \<lparr>cbb_base = b, cbb_chain = take d (cbb_chain s) @ cs\<rparr>)"

text \<open>\<^verbatim>\<open>CBB_finish\<close> with both result pointers given: the buffer up to its length.\<close>

definition CBB_finish ::
  "(size_t \<Rightarrow> bool) \<Rightarrow> (nat \<Rightarrow> byte) \<Rightarrow> nat \<Rightarrow> cbb_state \<Rightarrow> (byte list \<times> size_t) option" where
  "CBB_finish ok fresh d s =
     (if d < length (cbb_chain s) \<and> \<not> is_top_level (cbb_chain s ! d) then None
      else
        case CBB_flush ok fresh d s of
          None \<Rightarrow> None
        | Some s' \<Rightarrow> Some (cb_buf (cbb_base s'), cb_len (cbb_base s')))"

definition new_child :: cbb where
  "new_child = \<lparr>cbb_offset = 0, pending_len_len = 0, pending_is_asn1 = False, is_top_level = False\<rparr>"

definition cbb_add_length_prefixed ::
  "(size_t \<Rightarrow> bool) \<Rightarrow> (nat \<Rightarrow> byte) \<Rightarrow> size_t \<Rightarrow> nat \<Rightarrow> cbb_state \<Rightarrow> cbb_state option" where
  "cbb_add_length_prefixed ok fresh len_len d s =
     (case CBB_flush ok fresh d s of
        None \<Rightarrow> None
      | Some s \<Rightarrow>
          let c = (cbb_chain s ! d)\<lparr>cbb_offset := cb_len (cbb_base s)\<rparr> in
          (case cbb_buffer_add ok fresh (cbb_base s) len_len of
             None \<Rightarrow> None
           | Some (p, b) \<Rightarrow>
               Some \<lparr>cbb_base = b\<lparr>cb_buf := put_at (unat p) (replicate (unat len_len) 0) (cb_buf b)\<rparr>,
                     cbb_chain = take d (cbb_chain s) @
                       [c\<lparr>pending_len_len := ucast len_len, pending_is_asn1 := False\<rparr>, new_child]\<rparr>))"

definition CBB_add_u8_length_prefixed ::
  "(size_t \<Rightarrow> bool) \<Rightarrow> (nat \<Rightarrow> byte) \<Rightarrow> nat \<Rightarrow> cbb_state \<Rightarrow> cbb_state option" where
  "CBB_add_u8_length_prefixed ok fresh = cbb_add_length_prefixed ok fresh 1"

definition CBB_add_u16_length_prefixed ::
  "(size_t \<Rightarrow> bool) \<Rightarrow> (nat \<Rightarrow> byte) \<Rightarrow> nat \<Rightarrow> cbb_state \<Rightarrow> cbb_state option" where
  "CBB_add_u16_length_prefixed ok fresh = cbb_add_length_prefixed ok fresh 2"

definition CBB_add_u24_length_prefixed ::
  "(size_t \<Rightarrow> bool) \<Rightarrow> (nat \<Rightarrow> byte) \<Rightarrow> nat \<Rightarrow> cbb_state \<Rightarrow> cbb_state option" where
  "CBB_add_u24_length_prefixed ok fresh = cbb_add_length_prefixed ok fresh 3"

text \<open>The integer writers flush and append; the value is converted to \<^verbatim>\<open>uint32_t\<close>.\<close>

definition cbb_add_u ::
  "(size_t \<Rightarrow> bool) \<Rightarrow> (nat \<Rightarrow> byte) \<Rightarrow> u32 \<Rightarrow> size_t \<Rightarrow> nat \<Rightarrow> cbb_state \<Rightarrow> cbb_state option" where
  "cbb_add_u ok fresh v n d s =
     (case CBB_flush ok fresh d s of
        None \<Rightarrow> None
      | Some s \<Rightarrow>
          (case cbb_buffer_add_u ok fresh (cbb_base s) v n of
             None \<Rightarrow> None
           | Some b \<Rightarrow> Some (s\<lparr>cbb_base := b\<rparr>)))"

definition CBB_add_u8 ::
  "(size_t \<Rightarrow> bool) \<Rightarrow> (nat \<Rightarrow> byte) \<Rightarrow> byte \<Rightarrow> nat \<Rightarrow> cbb_state \<Rightarrow> cbb_state option" where
  "CBB_add_u8 ok fresh v = cbb_add_u ok fresh (ucast v) 1"

definition CBB_add_u16 ::
  "(size_t \<Rightarrow> bool) \<Rightarrow> (nat \<Rightarrow> byte) \<Rightarrow> u16 \<Rightarrow> nat \<Rightarrow> cbb_state \<Rightarrow> cbb_state option" where
  "CBB_add_u16 ok fresh v = cbb_add_u ok fresh (ucast v) 2"

definition CBB_add_u24 ::
  "(size_t \<Rightarrow> bool) \<Rightarrow> (nat \<Rightarrow> byte) \<Rightarrow> u32 \<Rightarrow> nat \<Rightarrow> cbb_state \<Rightarrow> cbb_state option" where
  "CBB_add_u24 ok fresh v = cbb_add_u ok fresh v 3"

definition CBB_add_asn1 ::
  "(size_t \<Rightarrow> bool) \<Rightarrow> (nat \<Rightarrow> byte) \<Rightarrow> byte \<Rightarrow> nat \<Rightarrow> cbb_state \<Rightarrow> cbb_state option" where
  "CBB_add_asn1 ok fresh tag d s =
     (if tag AND 0x1f = 0x1f then None
      else
        case CBB_flush ok fresh d s of
          None \<Rightarrow> None
        | Some s \<Rightarrow>
            (case CBB_add_u8 ok fresh tag d s of
               None \<Rightarrow> None
             | Some s \<Rightarrow>
                 let off = cb_len (cbb_base s) in
                 (case CBB_add_u8 ok fresh 0 d s of
                    None \<Rightarrow> None
                  | Some s \<Rightarrow>
                      Some (s\<lparr>cbb_chain := take d (cbb_chain s) @
                        [(cbb_chain s ! d)\<lparr>cbb_offset := off, pending_len_len := 1, pending_is_asn1 := True\<rparr>,
                         new_child]\<rparr>))))"

definition CBB_add_bytes ::
  "(size_t \<Rightarrow> bool) \<Rightarrow> (nat \<Rightarrow> byte) \<Rightarrow> byte list \<Rightarrow> nat \<Rightarrow> cbb_state \<Rightarrow> cbb_state option" where
  "CBB_add_bytes ok fresh data d s =
     (case CBB_flush ok fresh d s of
        None \<Rightarrow> None
      | Some s \<Rightarrow>
          (case cbb_buffer_add ok fresh (cbb_base s) (of_nat (length data)) of
             None \<Rightarrow> None
           | Some (p, b) \<Rightarrow> Some (s\<lparr>cbb_base := b\<lparr>cb_buf := put_at (unat p) data (cb_buf b)\<rparr>\<rparr>)))"

definition CBB_add_space ::
  "(size_t \<Rightarrow> bool) \<Rightarrow> (nat \<Rightarrow> byte) \<Rightarrow> size_t \<Rightarrow> nat \<Rightarrow> cbb_state \<Rightarrow> (size_t \<times> cbb_state) option" where
  "CBB_add_space ok fresh n d s =
     (case CBB_flush ok fresh d s of
        None \<Rightarrow> None
      | Some s \<Rightarrow>
          (case cbb_buffer_add ok fresh (cbb_base s) n of
             None \<Rightarrow> None
           | Some (p, b) \<Rightarrow> Some (p, s\<lparr>cbb_base := b\<rparr>)))"

text \<open>
  The loop of \<^verbatim>\<open>CBB_add_asn1_uint64\<close> over the bytes of the value, most significant first, on the
  child at position \<open>d\<close>.
\<close>

fun add_uint64_bytes ::
  "(size_t \<Rightarrow> bool) \<Rightarrow> (nat \<Rightarrow> byte) \<Rightarrow> nat \<Rightarrow> bool \<Rightarrow> byte list \<Rightarrow> cbb_state \<Rightarrow> (bool \<times> cbb_state) option" where
  "add_uint64_bytes ok fresh d started [] s = Some (started, s)"
| "add_uint64_bytes ok fresh d started (byte # rest) s =
     (if \<not> started \<and> byte = 0 then add_uint64_bytes ok fresh d False rest s
      else
        case (if \<not> started \<and> byte AND 0x80 \<noteq> 0 then CBB_add_u8 ok fresh 0 d s else Some s) of
          None \<Rightarrow> None
        | Some s \<Rightarrow>
            (case CBB_add_u8 ok fresh byte d s of
               None \<Rightarrow> None
             | Some s \<Rightarrow> add_uint64_bytes ok fresh d True rest s))"

definition CBB_add_asn1_uint64 ::
  "(size_t \<Rightarrow> bool) \<Rightarrow> (nat \<Rightarrow> byte) \<Rightarrow> u64 \<Rightarrow> nat \<Rightarrow> cbb_state \<Rightarrow> cbb_state option" where
  "CBB_add_asn1_uint64 ok fresh value d s =
     (case CBB_add_asn1 ok fresh (ucast CBS_ASN1_INTEGER) d s of
        None \<Rightarrow> None
      | Some s \<Rightarrow>
          (case add_uint64_bytes ok fresh (d + 1) False
             (map (\<lambda>i. ucast (drop_bit (8 * (7 - i)) value AND 0xff)) [0..<8]) s of
             None \<Rightarrow> None
           | Some (started, s) \<Rightarrow>
               (case (if \<not> started then CBB_add_u8 ok fresh 0 (d + 1) s else Some s) of
                  None \<Rightarrow> None
                | Some s \<Rightarrow> CBB_flush ok fresh d s)))"

section \<open>The buffer\<close>

definition buf_wf :: "cbb_buffer \<Rightarrow> bool" where
  "buf_wf b \<longleftrightarrow> length (cb_buf b) = unat (cb_cap b) \<and> cb_len b \<le> cb_cap b"

definition contents :: "cbb_buffer \<Rightarrow> byte list" where
  "contents b = take (unat (cb_len b)) (cb_buf b)"

lemma length_contents: "buf_wf b \<Longrightarrow> length (contents b) = unat (cb_len b)"
  by (simp add: buf_wf_def contents_def word_le_nat_alt)

lemma put_be_eq:
  "pos + n \<le> length buf \<Longrightarrow>
     put_be pos n v buf = (put_at pos (be_bytes n (unat v)) buf, drop_bit (8 * n) (v :: 'a :: len word))"
proof (induction n arbitrary: v buf)
  case 0
  then show ?case
    by (simp add: put_at_def)
next
  case (Suc n)
  have "unat (drop_bit 8 v) = unat v div 256"
    using unat_drop_bit_eq [of 8 v] by (simp add: drop_bit_eq_div)
  moreover have "(of_nat (unat v) :: byte) = ucast v"
    by simp
  ultimately show ?case
    using Suc put_at_snoc [of pos "be_bytes n (unat v div 256)" buf "ucast v"]
    by (simp add: drop_bit_drop_bit add.commute)
qed

lemma buffer_add_Some:
  assumes "buf_wf b" "cbb_buffer_add ok fresh b n = Some (p, b')"
  shows "buf_wf b' \<and> p = cb_len b \<and> unat (cb_len b') = unat (cb_len b) + unat n \<and>
    cb_can_resize b' = cb_can_resize b \<and> (\<exists>t. cb_buf b' = contents b @ t)"
proof -
  have nov: "\<not> cb_len b + n < cb_len b" and p: "p = cb_len b" and len: "cb_len b' = cb_len b + n"
    and res: "cb_can_resize b' = cb_can_resize b"
    using assms(2) by (auto simp: cbb_buffer_add_def Let_def split: if_splits)
  have "unat (cb_len b + n) = unat (cb_len b) + unat n"
    using nov by (simp add: linorder_not_less unat_plus_simple)
  moreover have "buf_wf b'"
    using assms
    by (auto simp: cbb_buffer_add_def Let_def buf_wf_def linorder_not_less word_le_nat_alt word_less_nat_alt split: if_splits)
  moreover obtain u where "cb_buf b' = cb_buf b @ u"
    using assms(2) by (auto simp: cbb_buffer_add_def Let_def split: if_splits)
  then have "cb_buf b' = contents b @ (drop (unat (cb_len b)) (cb_buf b) @ u)"
    by (simp add: contents_def)
  ultimately show ?thesis
    using p len res by auto
qed


lemma buffer_add_write:
  assumes "buf_wf b" "cbb_buffer_add ok fresh b n = Some (p, b')" "length xs = unat n"
  shows "buf_wf (b'\<lparr>cb_buf := put_at (unat p) xs (cb_buf b')\<rparr>)"
    and "contents (b'\<lparr>cb_buf := put_at (unat p) xs (cb_buf b')\<rparr>) = contents b @ xs"
proof -
  obtain t where t: "cb_buf b' = contents b @ t" and b': "buf_wf b'" "p = cb_len b"
    "unat (cb_len b') = unat (cb_len b) + unat n"
    using buffer_add_Some [OF assms(1,2)] by blast
  have "length (contents b @ t) = unat (cb_cap b')" "unat (cb_len b') \<le> unat (cb_cap b')"
    using b' t by (simp_all add: buf_wf_def word_le_nat_alt)
  then have n: "unat n \<le> length t"
    using b' length_contents [OF assms(1)] by simp
  then obtain u v where uv: "t = u @ v" "length u = unat n"
    by (metis append_take_drop_id length_take min.absorb2)
  have put: "put_at (unat p) xs (cb_buf b') = contents b @ xs @ v"
    using uv t assms(3) b'(2) length_contents [OF assms(1)] by (simp add: put_at_decomp)
  show "buf_wf (b'\<lparr>cb_buf := put_at (unat p) xs (cb_buf b')\<rparr>)"
    using b'(1) t uv assms(3) unfolding put by (simp add: buf_wf_def)
  show "contents (b'\<lparr>cb_buf := put_at (unat p) xs (cb_buf b')\<rparr>) = contents b @ xs"
    using b'(3) assms(3) length_contents [OF assms(1)] unfolding put by (simp add: contents_def)
qed

text \<open>Growing cannot fail unless the allocator does, the buffer is fixed or the length overflows.\<close>

lemma buffer_add_total:
  assumes "\<And>n. ok n" "cb_can_resize b" "unat (cb_len b) + unat n < 2 ^ 64"
  shows "\<exists>p b'. cbb_buffer_add ok fresh b n = Some (p, b')"
proof -
  have "\<not> cb_len b + n < cb_len b"
    using assms(3) by (simp add: word_less_nat_alt unat_add_size_t)
  then show ?thesis
    using assms by (simp add: cbb_buffer_add_def Let_def)
qed

lemma buffer_add_u_Some:
  assumes "buf_wf b" "cbb_buffer_add_u ok fresh b v n = Some b'"
  shows "buf_wf b' \<and> contents b' = contents b @ be_bytes (unat n) (unat v) \<and>
    cb_can_resize b' = cb_can_resize b"
proof (cases "n = 0")
  case True
  then show ?thesis
    using assms by (simp add: cbb_buffer_add_u_def)
next
  case False
  then obtain p b1 where b1: "cbb_buffer_add ok fresh b n = Some (p, b1)"
    "b' = b1\<lparr>cb_buf := fst (put_be (unat p) (unat n) v (cb_buf b1))\<rparr>"
    using assms(2) by (auto simp: cbb_buffer_add_u_def split: option.splits)
  note s = buffer_add_Some [OF assms(1) b1(1)]
  have "unat p + unat n \<le> length (cb_buf b1)"
    using s by (auto simp: buf_wf_def word_le_nat_alt)
  then have "b' = b1\<lparr>cb_buf := put_at (unat p) (be_bytes (unat n) (unat v)) (cb_buf b1)\<rparr>"
    using b1(2) by (simp add: put_be_eq)
  then show ?thesis
    using buffer_add_write [OF assms(1) b1(1)] s by simp
qed

section \<open>Open prefixes and what flushing them writes\<close>

text \<open>
  The abstract state of a builder: for every object that has a child, the bytes it wrote so far
  and the kind of the pending prefix, from the top level down, and then the bytes of the last
  object. Closing a prefix is writing the length of everything below it.
\<close>

datatype prefix = Fixed nat | Asn1Len

fun prefix_len :: "prefix \<Rightarrow> nat" where
  "prefix_len (Fixed k) = k"
| "prefix_len Asn1Len = 1"

fun close :: "prefix \<Rightarrow> byte list \<Rightarrow> byte list option" where
  "close (Fixed k) body = (if length body < 256 ^ k then Some (prefixed k body) else None)"
| "close Asn1Len body =
     (if length body < 2 ^ 32 - 1 then Some (der_length (length body) @ body) else None)"

fun close_all :: "(byte list \<times> prefix) list \<Rightarrow> byte list \<Rightarrow> byte list option" where
  "close_all [] xs = Some xs"
| "close_all ((ys, k) # fs) xs =
     (case close_all fs xs of None \<Rightarrow> None | Some zs \<Rightarrow> map_option (append ys) (close k zs))"

text \<open>
  A chain stands for an abstract state, with the bytes it covers starting at \<open>start\<close>: each
  object that has a child points at a hole of zeros for its prefix.
\<close>

fun chain_rep :: "cbb list \<Rightarrow> nat \<Rightarrow> byte list \<Rightarrow> (byte list \<times> prefix) list \<Rightarrow> byte list \<Rightarrow> bool" where
  "chain_rep [c] start bs fs xs \<longleftrightarrow> fs = [] \<and> bs = xs"
| "chain_rep (c # d # rest) start bs ((ys, k) # fs) xs \<longleftrightarrow>
     (\<exists>bs'. bs = ys @ replicate (prefix_len k) 0 @ bs' \<and>
        unat (cbb_offset c) = start + length ys \<and> 0 < prefix_len k \<and>
        unat (pending_len_len c) = prefix_len k \<and> pending_is_asn1 c = (k = Asn1Len) \<and>
        chain_rep (d # rest) (start + length ys + prefix_len k) bs' fs xs)"
| "chain_rep _ _ _ _ _ \<longleftrightarrow> False"

text \<open>One prefix: the bytes of the child become final, the hole is filled in.\<close>

lemma flush_fixed:
  assumes wf: "buf_wf b" and c: "contents b = pre @ replicate k 0 @ zs"
    and n: "unat n = length zs" and k: "0 < k"
    and put: "put_be (length pre) k n (cb_buf b) = (buf, r)"
  shows "r = 0 \<longleftrightarrow> length zs < 256 ^ k"
    and "buf_wf (b\<lparr>cb_buf := buf\<rparr>)" "contents (b\<lparr>cb_buf := buf\<rparr>) = pre @ prefixed k zs"
proof -
  obtain t where t: "cb_buf b = (pre @ replicate k 0 @ zs) @ t"
    using c by (metis append_take_drop_id contents_def)
  have buf: "buf = put_at (length pre) (be_bytes k (length zs)) (cb_buf b)" and r: "r = drop_bit (8 * k) n"
    using put put_be_eq [of "length pre" k "cb_buf b" n] t n by simp_all
  have buf': "buf = pre @ be_bytes k (length zs) @ zs @ t"
    unfolding buf t by (simp add: put_at_decomp)
  have len: "unat (cb_len b) = length pre + k + length zs"
    using length_contents [OF wf] c by simp
  show "r = 0 \<longleftrightarrow> length zs < 256 ^ k"
    using n by (simp add: r drop_bit_eq_0 power_mult)
  show "buf_wf (b\<lparr>cb_buf := buf\<rparr>)"
    using wf t by (simp add: buf_wf_def buf')
  show "contents (b\<lparr>cb_buf := buf\<rparr>) = pre @ prefixed k zs"
    using len by (simp add: contents_def buf' prefixed_def)
qed

lemma asn1_length_field_spec:
  assumes "asn1_length_field n = Some (len_len, ib, n')"
  shows "unat n < 2 ^ 32 - 1"
    "len_len = 1 \<Longrightarrow> n' = 0 \<and> der_length (unat n) = [ib]"
    "len_len \<noteq> 1 \<Longrightarrow> n' = n \<and> 2 \<le> unat len_len \<and> unat len_len \<le> 5 \<and>
       der_length (unat n) = ib # be_bytes (unat len_len - 1) (unat n) \<and> unat n < 256 ^ (unat len_len - 1)"
  using assms
  by (auto simp: asn1_length_field_def der_length_def length_octets_def word_less_nat_alt split: if_splits)

lemma move_up:
  assumes "length (pre @ [z] @ zs @ t) \<ge> length pre + 1 + k + length zs"
  obtains x t' where "length x = k"
    "put_at (length pre + 1 + k) zs (pre @ [z] @ zs @ t) = pre @ [z] @ x @ zs @ t'"
    "length (x @ zs @ t') = length (zs @ t)"
proof
  let ?w = "zs @ t"
  show "length (take k ?w) = k"
    using assms by simp
  show "put_at (length pre + 1 + k) zs (pre @ [z] @ zs @ t) = pre @ [z] @ take k ?w @ zs @ drop (k + length zs) ?w"
    using assms by (simp add: put_at_def add.commute)
  show "length (take k ?w @ zs @ drop (k + length zs) ?w) = length ?w"
    using assms by simp
qed

lemma flush_asn1_long:
  assumes wf: "buf_wf b" and cont: "contents b = pre @ [0] @ zs" and n: "unat n = length zs"
    and add: "cbb_buffer_add ok fresh b e = Some (p, b1)" and lt: "length zs < 256 ^ unat e"
    and put: "put_be (length pre + 1) (unat e) n
       ((put_at (length pre + 1 + unat e) (take (unat n) (drop (length pre + 1) (cb_buf b1))) (cb_buf b1))
          [length pre := ib]) = (buf, r)"
  shows "r = 0 \<and> buf_wf (b1\<lparr>cb_buf := buf\<rparr>) \<and>
     contents (b1\<lparr>cb_buf := buf\<rparr>) = pre @ [ib] @ be_bytes (unat e) (length zs) @ zs"
proof -
  let ?k = "unat e"
  obtain t where t: "cb_buf b1 = (pre @ [0] @ zs) @ t" and wf1: "buf_wf b1"
    and len1: "unat (cb_len b1) = unat (cb_len b) + ?k"
    using buffer_add_Some [OF wf add] cont by auto
  have blen: "unat (cb_len b) = length pre + 1 + length zs"
    using length_contents [OF wf] cont by simp
  have "length pre + 1 + ?k + length zs \<le> length (pre @ [0] @ zs @ t)"
    using wf1 t len1 blen by (simp add: buf_wf_def word_le_nat_alt)
  then obtain x t' where x: "length x = ?k" "length (x @ zs @ t') = length (zs @ t)"
    "put_at (length pre + 1 + ?k) zs (pre @ [0] @ zs @ t) = pre @ [0] @ x @ zs @ t'"
    using move_up by metis
  have moved: "(put_at (length pre + 1 + ?k) (take (unat n) (drop (length pre + 1) (cb_buf b1))) (cb_buf b1))
          [length pre := ib] = (pre @ [ib]) @ x @ zs @ t'"
    using x(3) t n by (simp add: list_update_append)
  have "buf = put_at (length (pre @ [ib])) (be_bytes ?k (length zs)) ((pre @ [ib]) @ x @ zs @ t')"
    and r: "r = drop_bit (8 * ?k) n"
    using put moved put_be_eq [of "length (pre @ [ib])" ?k "(pre @ [ib]) @ x @ zs @ t'" n] x(1) n by simp_all
  then have buf: "buf = pre @ [ib] @ be_bytes ?k (length zs) @ zs @ t'"
    using x(1) put_at_decomp [of "be_bytes ?k (length zs)" x "pre @ [ib]" "length (pre @ [ib])" "zs @ t'"]
    by simp
  have "r = 0"
    using r lt n by (simp add: drop_bit_eq_0 power_mult)
  then show ?thesis
    using wf1 t x(1,2) len1 blen by (simp add: buf buf_wf_def contents_def)
qed

lemma flush_asn1_spec:
  assumes wf: "buf_wf b" and cont: "contents b = pre @ [0] @ zs"
    and off: "unat (cbb_offset c) = length pre" and cs: "child_start = cbb_offset c + 1"
    and n: "unat n = length zs"
    and fl: "flush_asn1 ok fresh child_start n b c = Some (n', b', c')"
    and put: "put_be (unat (cbb_offset c')) (unat (pending_len_len c')) n' (cb_buf b') = (buf, r)"
  shows "length zs < 2 ^ 32 - 1 \<and> r = 0 \<and> buf_wf (b'\<lparr>cb_buf := buf\<rparr>) \<and>
     contents (b'\<lparr>cb_buf := buf\<rparr>) = pre @ der_length (length zs) @ zs \<and>
     cb_can_resize b' = cb_can_resize b"
proof -
  obtain len_len ib where f: "asn1_length_field n = Some (len_len, ib, n')"
    using fl by (auto simp: flush_asn1_def split: option.splits)
  note spec = asn1_length_field_spec [OF f]
  have blen: "unat (cb_len b) = length pre + 1 + length zs"
    using length_contents [OF wf] cont by simp
  have off1: "unat (cbb_offset c + 1) = length pre + 1"
    using blen off unsigned_less [of "cb_len b", where 'a = nat] by (subst unat_add_size_t) simp_all
  show ?thesis
  proof (cases "len_len = 1")
    case True
    obtain t where t: "cb_buf b = (pre @ [0] @ zs) @ t"
      using cont by (metis append_take_drop_id contents_def)
    have b': "b' = b\<lparr>cb_buf := (cb_buf b)[unat (cbb_offset c) := ib]\<rparr>" and "pending_len_len c' = 0"
      using fl True f by (auto simp: flush_asn1_def)
    moreover from this have "buf = pre @ [ib] @ zs @ t" "r = 0"
      using put spec(2) [OF True] t off by (auto simp: list_update_append)
    ultimately show ?thesis
      using wf t spec(1,2) True n blen by (auto simp: buf_wf_def contents_def)
  next
    case False
    define k where "k = unat (len_len - 1)"
    have k: "k = unat len_len - 1" "2 \<le> unat len_len" "unat len_len \<le> 5"
      using spec(3) [OF False] by (auto simp: k_def unat_sub word_le_nat_alt)
    let ?e = "len_len - 1"
    obtain p b1 where add: "cbb_buffer_add ok fresh b ?e = Some (p, b1)"
      and b': "b' = b1\<lparr>cb_buf := (put_at (unat (child_start + ?e))
         (take (unat n') (drop (unat child_start) (cb_buf b1))) (cb_buf b1))[unat (cbb_offset c) := ib]\<rparr>"
      and c': "cbb_offset c' = cbb_offset c + 1" "pending_len_len c' = ucast ?e"
      using fl f False by (auto simp: flush_asn1_def Let_def split: option.splits)
    have "unat (cb_len b) + k < 2 ^ 64"
      using buffer_add_Some [OF wf add] unsigned_less [of "cb_len b1", where 'a = nat] by (simp add: k_def)
    then have pos: "unat (child_start + ?e) = length pre + 1 + k"
      using off1 cs blen by (subst unat_add_size_t) (simp_all add: k_def)
    have "unat (ucast ?e :: byte) = k"
      using k by (simp add: k_def unsigned_ucast_eq take_bit_nat_eq_self)
    then have "r = 0 \<and> buf_wf (b1\<lparr>cb_buf := buf\<rparr>) \<and>
        contents (b1\<lparr>cb_buf := buf\<rparr>) = pre @ [ib] @ be_bytes (unat ?e) (length zs) @ zs"
      using flush_asn1_long [OF wf cont n add, of ib buf r] put b' c' off off1 pos cs n spec(3) [OF False] k
      by (simp add: k_def)
    then show ?thesis
      using b' spec(1) spec(3) [OF False] n k buffer_add_Some [OF wf add] by (simp add: k_def)
  qed
qed

text \<open>The offset of the child in a chain, where the check for wrap-around passed.\<close>

lemma child_start_unat:
  assumes "\<not> cbb_offset c + ucast (pending_len_len c) < cbb_offset c"
  shows "unat (cbb_offset c + ucast (pending_len_len c)) = unat (cbb_offset c) + unat (pending_len_len c)"
  using assms by (simp add: linorder_not_less unat_plus_simple unat_ucast_byte_size_t)

lemma flush_one:
  assumes wf: "buf_wf b" and cont: "contents b = pre @ replicate (prefix_len k) 0 @ zs"
    and off: "unat (cbb_offset c) = length pre" and pend: "unat (pending_len_len c) = prefix_len k" "0 < prefix_len k"
    and kind: "pending_is_asn1 c = (k = Asn1Len)"
    and cs: "child_start = cbb_offset c + ucast (pending_len_len c)"
    and n: "unat n = length zs"
    and fl: "(if pending_is_asn1 c then flush_asn1 ok fresh child_start n b c else Some (n, b, c)) = Some (n', b', c')"
    and put: "put_be (unat (cbb_offset c')) (unat (pending_len_len c')) n' (cb_buf b') = (buf, 0)"
  shows "\<exists>ws. close k zs = Some ws \<and> buf_wf (b'\<lparr>cb_buf := buf\<rparr>) \<and> contents (b'\<lparr>cb_buf := buf\<rparr>) = pre @ ws \<and>
     cb_can_resize b' = cb_can_resize b \<and> is_top_level c' = is_top_level c"
proof (cases k)
  case (Fixed m)
  then have "b' = b" "c' = c" "n' = n"
    using fl kind by simp_all
  then show ?thesis
    using flush_fixed [OF wf _ n, of pre m buf 0] cont off pend put Fixed by simp
next
  case Asn1Len
  have "pending_len_len c = 1"
    using pend Asn1Len by (simp add: word_unat_eq_iff)
  then have cs': "child_start = cbb_offset c + 1"
    using cs by simp
  have fl': "flush_asn1 ok fresh child_start n b c = Some (n', b', c')"
    using fl kind Asn1Len by simp
  then have "is_top_level c' = is_top_level c"
    by (auto simp: flush_asn1_def split: option.splits)
  moreover have "contents b = pre @ [0] @ zs"
    using cont Asn1Len by simp
  ultimately show ?thesis
    using flush_asn1_spec [OF wf _ off cs' n fl' put] Asn1Len by simp
qed

lemma flush_chain_sound:
  assumes "buf_wf b" "contents b = pre @ bs" "chain_rep cs (length pre) bs fs xs"
    "flush_chain ok fresh b cs = Some (b', cs')"
  shows "\<exists>zs c. close_all fs xs = Some zs \<and> buf_wf b' \<and> contents b' = pre @ zs \<and> cs' = [c] \<and>
    is_top_level c = is_top_level (hd cs) \<and> cb_can_resize b' = cb_can_resize b"
  using assms
proof (induction ok fresh b cs arbitrary: pre bs fs b' cs' rule: flush_chain.induct)
  case (3 ok fresh b c d rest)
  obtain ys k fs' bs' where fs: "fs = (ys, k) # fs'"
    and bs: "bs = ys @ replicate (prefix_len k) 0 @ bs'"
    and off: "unat (cbb_offset c) = length (pre @ ys)"
    and pend: "0 < prefix_len k" "unat (pending_len_len c) = prefix_len k"
    and kind: "pending_is_asn1 c = (k = Asn1Len)"
    and rep: "chain_rep (d # rest) (length (pre @ ys @ replicate (prefix_len k) 0)) bs' fs' xs"
    using "3.prems"(3) by (cases "(c # d # rest, length pre, bs, fs, xs)" rule: chain_rep.cases) (auto simp: add.assoc)
  define child_start where "child_start = cbb_offset c + ucast (pending_len_len c)"
  have nz: "pending_len_len c \<noteq> 0"
    using pend by auto
  obtain b1 cs1 where b1: "flush_chain ok fresh b (d # rest) = Some (b1, cs1)"
    and ov: "\<not> child_start < cbb_offset c" and le: "\<not> cb_len b1 < child_start"
    using "3.prems"(4) nz by (auto simp: child_start_def Let_def split: option.splits if_splits)
  obtain n' b2 c2 buf where step: "(if pending_is_asn1 c then flush_asn1 ok fresh child_start (cb_len b1 - child_start) b1 c
       else Some (cb_len b1 - child_start, b1, c)) = Some (n', b2, c2)"
    and put: "put_be (unat (cbb_offset c2)) (unat (pending_len_len c2)) n' (cb_buf b2) = (buf, 0)"
    and res: "b' = b2\<lparr>cb_buf := buf\<rparr>"
      "cs' = [c2\<lparr>cbb_offset := 0, pending_len_len := 0, pending_is_asn1 := False\<rparr>]"
    using "3.prems"(4) nz b1 ov le
    by (auto simp: child_start_def Let_def split: option.splits if_splits prod.splits)
  have "contents b = (pre @ ys @ replicate (prefix_len k) 0) @ bs'"
    using "3.prems"(2) bs by simp
  then obtain zs where zs: "close_all fs' xs = Some zs" "buf_wf b1"
    "contents b1 = (pre @ ys @ replicate (prefix_len k) 0) @ zs" "cb_can_resize b1 = cb_can_resize b"
    using "3.IH" [OF nz child_start_def "3.prems"(1) _ rep b1] by blast
  have "unat child_start = length (pre @ ys) + prefix_len k"
    using child_start_unat [of c] ov off pend by (simp add: child_start_def)
  then have "unat (cb_len b1 - child_start) = length zs"
    using le length_contents [OF zs(2)] zs(3) by (simp add: unat_sub linorder_not_less)
  then obtain ws where "close k zs = Some ws" "buf_wf b'" "contents b' = (pre @ ys) @ ws"
    "cb_can_resize b2 = cb_can_resize b1" "is_top_level c2 = is_top_level c"
    using flush_one [OF zs(2) _ off pend(2,1) kind child_start_def _ step put] zs(3) res by auto
  then show ?case
    using zs res fs by simp
qed auto

section \<open>The builder as a whole\<close>

definition cbb_rep :: "cbb_state \<Rightarrow> (byte list \<times> prefix) list \<Rightarrow> byte list \<Rightarrow> bool" where
  "cbb_rep s fs xs \<longleftrightarrow> buf_wf (cbb_base s) \<and> chain_rep (cbb_chain s) 0 (contents (cbb_base s)) fs xs \<and>
     is_top_level (hd (cbb_chain s))"

lemma chain_rep_length: "chain_rep cs start bs fs xs \<Longrightarrow> length cs = Suc (length fs)"
  by (induction cs start bs fs xs rule: chain_rep.induct) auto

lemma chain_rep_Cons:
  "0 < length cs \<Longrightarrow> chain_rep (c # cs) start bs ((ys, k) # fs) xs \<longleftrightarrow>
     (\<exists>bs'. bs = ys @ replicate (prefix_len k) 0 @ bs' \<and>
        unat (cbb_offset c) = start + length ys \<and> 0 < prefix_len k \<and>
        unat (pending_len_len c) = prefix_len k \<and> pending_is_asn1 c = (k = Asn1Len) \<and>
        chain_rep cs (start + length ys + prefix_len k) bs' fs xs)"
  by (cases cs) auto

lemma chain_rep_split:
  assumes "chain_rep cs start bs fs xs" "d < length cs"
  obtains pre bs' where "bs = pre @ bs'" "chain_rep (drop d cs) (start + length pre) bs' (drop d fs) xs"
    "\<And>cs'' bs'' fs'' xs''. chain_rep cs'' (start + length pre) bs'' fs'' xs'' \<Longrightarrow>
       chain_rep (take d cs @ cs'') start (pre @ bs'') (take d fs @ fs'') xs''"
proof -
  have "\<exists>pre bs'. bs = pre @ bs' \<and> chain_rep (drop d cs) (start + length pre) bs' (drop d fs) xs \<and>
    (\<forall>cs'' bs'' fs'' xs''. chain_rep cs'' (start + length pre) bs'' fs'' xs'' \<longrightarrow>
       chain_rep (take d cs @ cs'') start (pre @ bs'') (take d fs @ fs'') xs'')"
    using assms
  proof (induction d arbitrary: cs start bs fs)
    case 0
    then show ?case
      by (rule_tac exI [of _ "[]"], rule_tac exI [of _ bs]) simp
  next
    case (Suc d)
    obtain c c' rest where cs: "cs = c # c' # rest"
      using Suc.prems(2) by (metis Suc_less_eq2 length_Suc_conv less_Suc_eq_0_disj list.exhaust list.size(3) not_less_eq)
    obtain ys k fs' bs' where fs: "fs = (ys, k) # fs'"
      and bs: "bs = ys @ replicate (prefix_len k) 0 @ bs'"
      and rep: "chain_rep (c' # rest) (start + length ys + prefix_len k) bs' fs' xs"
      and c: "unat (cbb_offset c) = start + length ys" "0 < prefix_len k"
        "unat (pending_len_len c) = prefix_len k" "pending_is_asn1 c = (k = Asn1Len)"
      using Suc.prems(1) unfolding cs by (cases "(c # c' # rest, start, bs, fs, xs)" rule: chain_rep.cases) auto
    obtain pre bs1 where 1: "bs' = pre @ bs1"
      "chain_rep (drop d (c' # rest)) (start + length ys + prefix_len k + length pre) bs1 (drop d fs') xs"
      "\<And>cs'' bs'' fs'' xs''. chain_rep cs'' (start + length ys + prefix_len k + length pre) bs'' fs'' xs'' \<Longrightarrow>
         chain_rep (take d (c' # rest) @ cs'') (start + length ys + prefix_len k) (pre @ bs'') (take d fs' @ fs'') xs''"
      using Suc.IH [OF rep] Suc.prems(2) cs by auto
    show ?case
    proof (intro exI conjI allI impI)
      show "bs = (ys @ replicate (prefix_len k) 0 @ pre) @ bs1"
        using bs 1(1) by simp
      show "chain_rep (drop (Suc d) cs) (start + length (ys @ replicate (prefix_len k) 0 @ pre)) bs1 (drop (Suc d) fs) xs"
        using 1(2) by (simp add: cs fs add.assoc)
      fix cs'' bs'' fs'' xs''
      assume r: "chain_rep cs'' (start + length (ys @ replicate (prefix_len k) 0 @ pre)) bs'' fs'' xs''"
      then have r': "chain_rep (take d (c' # rest) @ cs'') (start + length ys + prefix_len k) (pre @ bs'') (take d fs' @ fs'') xs''"
        by (intro 1(3)) (simp add: add.assoc)
      show "chain_rep (take (Suc d) cs @ cs'') start ((ys @ replicate (prefix_len k) 0 @ pre) @ bs'') (take (Suc d) fs @ fs'') xs''"
        using r' c chain_rep_length [OF r'] by (auto simp: cs fs chain_rep_Cons)
    qed
  qed
  then show ?thesis
    using that by blast
qed


lemma CBB_flush_sound:
  assumes rep: "cbb_rep s fs xs" and fl: "CBB_flush ok fresh d s = Some s'"
  shows "\<exists>zs. close_all (drop d fs) xs = Some zs \<and> cbb_rep s' (take d fs) zs \<and> length (cbb_chain s') = Suc d \<and>
    d \<le> length fs \<and> cb_can_resize (cbb_base s') = cb_can_resize (cbb_base s)"
proof -
  have len: "length (cbb_chain s) = Suc (length fs)"
    using rep by (auto simp: cbb_rep_def dest: chain_rep_length)
  obtain b cs where b: "flush_chain ok fresh (cbb_base s) (drop d (cbb_chain s)) = Some (b, cs)"
    and s': "s' = \<lparr>cbb_base = b, cbb_chain = take d (cbb_chain s) @ cs\<rparr>"
    using fl by (auto simp: CBB_flush_def split: option.splits)
  have d: "d < length (cbb_chain s)"
    using b by (cases "d < length (cbb_chain s)") simp_all
  obtain pre bs where pre: "contents (cbb_base s) = pre @ bs"
    "chain_rep (drop d (cbb_chain s)) (0 + length pre) bs (drop d fs) xs"
    "\<And>cs'' bs'' fs'' xs''. chain_rep cs'' (0 + length pre) bs'' fs'' xs'' \<Longrightarrow>
       chain_rep (take d (cbb_chain s) @ cs'') 0 (pre @ bs'') (take d fs @ fs'') xs''"
    using chain_rep_split [OF _ d, of 0 "contents (cbb_base s)" fs xs] rep unfolding cbb_rep_def by blast
  obtain zs c where zs: "close_all (drop d fs) xs = Some zs" "buf_wf b" "contents b = pre @ zs" "cs = [c]"
    "cb_can_resize b = cb_can_resize (cbb_base s)" "is_top_level c = is_top_level (hd (drop d (cbb_chain s)))"
    using flush_chain_sound [OF _ pre(1) _ b, of "drop d fs" xs] rep pre(2) by (auto simp: cbb_rep_def)
  have "chain_rep (take d (cbb_chain s) @ [c]) 0 (pre @ zs) (take d fs @ []) zs"
    by (rule pre(3)) simp
  moreover have "is_top_level (hd (take d (cbb_chain s) @ [c]))"
    using zs(6) rep d by (cases d) (auto simp: cbb_rep_def hd_append)
  ultimately show ?thesis
    using zs s' d len by (simp add: cbb_rep_def)
qed

text \<open>A flush of an object that has no child, as after a flush, changes nothing.\<close>

lemma CBB_flush_last: "length (cbb_chain s) = Suc d \<Longrightarrow> CBB_flush ok fresh d s = Some s"
proof -
  assume "length (cbb_chain s) = Suc d"
  then obtain cs c where "cbb_chain s = cs @ [c]" "length cs = d"
    by (metis length_Suc_conv_rev)
  then show ?thesis
    by (simp add: CBB_flush_def)
qed

text \<open>Appending to the last object.\<close>

lemma chain_rep_append:
  "chain_rep cs start bs fs xs \<Longrightarrow> chain_rep cs start (bs @ ys) fs (xs @ ys)"
  by (induction cs start bs fs xs rule: chain_rep.induct) auto

lemma chain_rep_push:
  assumes "chain_rep (cs @ [c]) start bs fs xs" "unat (cbb_offset c') = start + length bs"
    "unat (pending_len_len c') = prefix_len k" "0 < prefix_len k" "pending_is_asn1 c' = (k = Asn1Len)"
  shows "chain_rep (cs @ [c', e]) start (bs @ replicate (prefix_len k) 0) (fs @ [(xs, k)]) []"
  using assms
proof (induction cs arbitrary: start bs fs)
  case Nil
  then show ?case
    by simp
next
  case (Cons a cs)
  obtain a' rest where ne: "cs @ [c] = a' # rest"
    by (cases cs) auto
  obtain ys j fs' bs' where fs: "fs = (ys, j) # fs'" and bs: "bs = ys @ replicate (prefix_len j) 0 @ bs'"
    and rep: "chain_rep (cs @ [c]) (start + length ys + prefix_len j) bs' fs' xs"
    and a: "unat (cbb_offset a) = start + length ys" "0 < prefix_len j"
      "unat (pending_len_len a) = prefix_len j" "pending_is_asn1 a = (j = Asn1Len)"
    using Cons.prems(1) by (cases "(a # a' # rest, start, bs, fs, xs)" rule: chain_rep.cases) (auto simp: ne)
  have "chain_rep (cs @ [c', e]) (start + length ys + prefix_len j) (bs' @ replicate (prefix_len k) 0) (fs' @ [(xs, k)]) []"
    using Cons.IH [OF rep] Cons.prems(2-) bs by simp
  moreover obtain a'' rest' where "cs @ [c', e] = a'' # rest'"
    by (cases cs) auto
  ultimately show ?case
    using a by (simp add: fs bs)
qed

lemma CBB_add_bytes_sound:
  assumes rep: "cbb_rep s fs xs" and len: "length bs < 2 ^ 64" and add: "CBB_add_bytes ok fresh bs d s = Some s'"
  shows "\<exists>zs. close_all (drop d fs) xs = Some zs \<and> cbb_rep s' (take d fs) (zs @ bs)"
proof -
  obtain s1 p b where s1: "CBB_flush ok fresh d s = Some s1"
    and b: "cbb_buffer_add ok fresh (cbb_base s1) (of_nat (length bs)) = Some (p, b)"
    and s': "s' = s1\<lparr>cbb_base := b\<lparr>cb_buf := put_at (unat p) bs (cb_buf b)\<rparr>\<rparr>"
    using add by (auto simp: CBB_add_bytes_def split: option.splits)
  obtain zs where zs: "close_all (drop d fs) xs = Some zs" "cbb_rep s1 (take d fs) zs"
    using CBB_flush_sound [OF rep s1] by blast
  have "unat (of_nat (length bs) :: size_t) = length bs"
    using len by (simp add: unat_of_nat take_bit_nat_eq_self)
  then show ?thesis
    using zs buffer_add_write [OF _ b, of bs] chain_rep_append [of "cbb_chain s1" 0 "contents (cbb_base s1)" "take d fs" zs bs]
    by (simp add: s' cbb_rep_def)
qed

lemma cbb_add_u_sound:
  assumes rep: "cbb_rep s fs xs" and add: "cbb_add_u ok fresh v n d s = Some s'"
  shows "\<exists>zs. close_all (drop d fs) xs = Some zs \<and> cbb_rep s' (take d fs) (zs @ be_bytes (unat n) (unat v)) \<and>
    length (cbb_chain s') = Suc d"
proof -
  obtain s1 b where s1: "CBB_flush ok fresh d s = Some s1"
    and b: "cbb_buffer_add_u ok fresh (cbb_base s1) v n = Some b" and s': "s' = s1\<lparr>cbb_base := b\<rparr>"
    using add by (auto simp: cbb_add_u_def split: option.splits)
  obtain zs where zs: "close_all (drop d fs) xs = Some zs" "cbb_rep s1 (take d fs) zs" "length (cbb_chain s1) = Suc d"
    using CBB_flush_sound [OF rep s1] by blast
  then show ?thesis
    using buffer_add_u_Some [OF _ b] chain_rep_append [of "cbb_chain s1" 0 "contents (cbb_base s1)" "take d fs" zs]
    by (simp add: s' cbb_rep_def)
qed

text \<open>
  Flushing succeeds whenever every open prefix can hold the length below it, memory is available
  and the finished bytes fit in the address space.
\<close>

lemma close_length: "close k zs = Some ws \<Longrightarrow> prefix_len k + length zs \<le> length ws"
  by (cases k) (auto simp: prefixed_def der_length_def split: if_splits)

lemma flush_one_total:
  assumes wf: "buf_wf b" and cont: "contents b = pre @ replicate (prefix_len k) 0 @ zs"
    and off: "unat (cbb_offset c) = length pre" and pend: "unat (pending_len_len c) = prefix_len k" "0 < prefix_len k"
    and kind: "pending_is_asn1 c = (k = Asn1Len)"
    and cs: "child_start = cbb_offset c + ucast (pending_len_len c)"
    and n: "unat n = length zs"
    and cl: "close k zs = Some ws" and sz: "length pre + length ws < 2 ^ 64"
    and res: "\<And>n. ok n" "cb_can_resize b"
  shows "\<exists>n' b' c' buf. (if pending_is_asn1 c then flush_asn1 ok fresh child_start n b c else Some (n, b, c)) = Some (n', b', c') \<and>
    put_be (unat (cbb_offset c')) (unat (pending_len_len c')) n' (cb_buf b') = (buf, 0)"
proof (cases k)
  case (Fixed m)
  obtain buf r where put: "put_be (unat (cbb_offset c)) (unat (pending_len_len c)) n (cb_buf b) = (buf, r)"
    by fastforce
  then have "r = 0"
    using flush_fixed(1) [OF wf _ n, of pre m buf r] cont off pend Fixed cl by (auto split: if_splits)
  then show ?thesis
    using kind Fixed put by simp
next
  case Asn1Len
  have zs: "length zs < 2 ^ 32 - 1" "ws = der_length (length zs) @ zs"
    using cl Asn1Len by (auto split: if_splits)
  have "n \<le> 0xfffffffe"
    using zs n by (simp add: word_le_nat_alt)
  then have "asn1_length_field n \<noteq> None"
    by (simp add: asn1_length_field_def linorder_not_less)
  then obtain len_len ib n' where f: "asn1_length_field n = Some (len_len, ib, n')"
    by auto
  note spec = asn1_length_field_spec [OF f]
  have blen: "unat (cb_len b) = length pre + 1 + length zs"
    using length_contents [OF wf] cont Asn1Len by simp
  have "\<exists>p b'. cbb_buffer_add ok fresh b (len_len - 1) = Some (p, b')" if "len_len \<noteq> 1"
  proof (rule buffer_add_total [OF res])
    have "unat (len_len - 1) = unat len_len - 1"
      using spec(3) [OF that] by (simp add: unat_sub word_le_nat_alt)
    then show "unat (cb_len b) + unat (len_len - 1) < 2 ^ 64"
      using spec(3) [OF that] n blen sz zs(2) by simp
  qed
  then have "flush_asn1 ok fresh child_start n b c \<noteq> None"
    using f by (cases "len_len = 1") (auto simp: flush_asn1_def)
  then obtain n1 b1 c1 where fl: "flush_asn1 ok fresh child_start n b c = Some (n1, b1, c1)"
    by auto
  obtain buf r where put: "put_be (unat (cbb_offset c1)) (unat (pending_len_len c1)) n1 (cb_buf b1) = (buf, r)"
    by fastforce
  have "pending_len_len c = 1"
    using pend Asn1Len by (simp add: word_unat_eq_iff)
  then have "r = 0"
    using flush_asn1_spec [OF wf _ off _ n fl put] cont cs Asn1Len by simp
  then show ?thesis
    using kind Asn1Len fl put by auto
qed

lemma flush_chain_total:
  assumes "buf_wf b" "contents b = pre @ bs" "chain_rep cs (length pre) bs fs xs"
    "close_all fs xs = Some zs" "length pre + length zs < 2 ^ 64" "\<And>n. ok n" "cb_can_resize b"
  shows "\<exists>b' cs'. flush_chain ok fresh b cs = Some (b', cs')"
  using assms
proof (induction ok fresh b cs arbitrary: pre bs fs zs rule: flush_chain.induct)
  case (3 ok fresh b c d rest)
  obtain ys k fs' bs' where fs: "fs = (ys, k) # fs'"
    and bs: "bs = ys @ replicate (prefix_len k) 0 @ bs'"
    and off: "unat (cbb_offset c) = length (pre @ ys)"
    and pend: "0 < prefix_len k" "unat (pending_len_len c) = prefix_len k"
    and kind: "pending_is_asn1 c = (k = Asn1Len)"
    and rep: "chain_rep (d # rest) (length (pre @ ys @ replicate (prefix_len k) 0)) bs' fs' xs"
    using "3.prems"(3) by (cases "(c # d # rest, length pre, bs, fs, xs)" rule: chain_rep.cases) (auto simp: add.assoc)
  obtain us ws where us: "close_all fs' xs = Some us" "close k us = Some ws" "zs = ys @ ws"
    using "3.prems"(4) fs by (auto split: option.splits)
  have sz: "length ys + prefix_len k + length us \<le> length zs"
    using close_length [OF us(2)] us(3) by simp
  define child_start where "child_start = cbb_offset c + ucast (pending_len_len c)"
  have nz: "pending_len_len c \<noteq> 0"
    using pend by auto
  have cont: "contents b = (pre @ ys @ replicate (prefix_len k) 0) @ bs'"
    using "3.prems"(2) bs by simp
  obtain b1 cs1 where b1: "flush_chain ok fresh b (d # rest) = Some (b1, cs1)"
    using "3.IH" [OF nz child_start_def "3.prems"(1) cont rep us(1) _ "3.prems"(6,7)] sz "3.prems"(5) by auto
  then have c1: "buf_wf b1" "contents b1 = (pre @ ys) @ replicate (prefix_len k) 0 @ us" "cb_can_resize b1"
    using flush_chain_sound [OF "3.prems"(1) cont rep b1] us(1) "3.prems"(7) by auto
  have len: "unat (cb_len b1) = length (pre @ ys) + prefix_len k + length us"
    using length_contents [OF c1(1)] c1(2) by simp
  have st: "unat child_start = length (pre @ ys) + prefix_len k"
    using off pend sz "3.prems"(5) unfolding child_start_def
    by (subst unat_add_size_t) (simp_all add: unat_ucast_byte_size_t)
  have guard: "\<not> (child_start < cbb_offset c \<or> cb_len b1 < child_start)" and n: "unat (cb_len b1 - child_start) = length us"
    using st len off by (simp_all add: word_less_nat_alt unat_sub word_le_nat_alt)
  have "\<exists>n' b' c' buf. (if pending_is_asn1 c then flush_asn1 ok fresh child_start (cb_len b1 - child_start) b1 c
       else Some (cb_len b1 - child_start, b1, c)) = Some (n', b', c') \<and>
    put_be (unat (cbb_offset c')) (unat (pending_len_len c')) n' (cb_buf b') = (buf, 0)"
    using us(3) "3.prems"(5-7)
    by (intro flush_one_total [OF c1(1,2) off pend(2,1) kind child_start_def n us(2)]) (auto simp: c1(3))
  then show ?case
    using nz b1 guard by (auto simp: Let_def simp flip: child_start_def split: if_splits)
qed auto

section \<open>The builder interface\<close>

text \<open>
  What an operation does to the abstract state: it closes what is open below the object it is
  called on and then appends to that object, or opens a new prefix in it.
\<close>

type_synonym builder = "(byte list \<times> prefix) list \<times> byte list"

definition spec_flush :: "nat \<Rightarrow> builder \<Rightarrow> builder option" where
  "spec_flush d st =
     (if d \<le> length (fst st) then map_option (Pair (take d (fst st))) (close_all (drop d (fst st)) (snd st)) else None)"

definition spec_append :: "byte list \<Rightarrow> nat \<Rightarrow> builder \<Rightarrow> builder option" where
  "spec_append bs d st = map_option (\<lambda>(fs, xs). (fs, xs @ bs)) (spec_flush d st)"

definition spec_open :: "prefix \<Rightarrow> byte list \<Rightarrow> nat \<Rightarrow> builder \<Rightarrow> builder option" where
  "spec_open k hdr d st = map_option (\<lambda>(fs, xs). (fs @ [(xs @ hdr, k)], [])) (spec_flush d st)"

definition spec_size :: "builder \<Rightarrow> nat" where
  "spec_size st = sum_list (map (\<lambda>(ys, k). length ys + prefix_len k) (fst st)) + length (snd st)"

lemma chain_rep_size: "chain_rep cs start bs fs xs \<Longrightarrow> length bs = spec_size (fs, xs)"
  by (induction cs start bs fs xs rule: chain_rep.induct) (auto simp: spec_size_def)

lemma close_all_size: "close_all fs xs = Some zs \<Longrightarrow> spec_size (fs, xs) \<le> length zs"
proof (induction fs arbitrary: zs)
  case (Cons f fs)
  then show ?case
    using close_length [of "snd f"]
    by (cases f) (fastforce simp: spec_size_def split: option.splits)
qed (simp add: spec_size_def)

lemma spec_flush_size: "spec_flush d st = Some st' \<Longrightarrow> spec_size st \<le> spec_size st'"
proof -
  assume "spec_flush d st = Some st'"
  then obtain zs where zs: "close_all (drop d (fst st)) (snd st) = Some zs" "st' = (take d (fst st), zs)"
    by (auto simp: spec_flush_def split: if_splits)
  have "spec_size st = sum_list (map (\<lambda>(ys, k). length ys + prefix_len k) (take d (fst st))) + spec_size (drop d (fst st), snd st)"
    unfolding spec_size_def fst_conv snd_conv
    by (subst append_take_drop_id [of d "fst st", symmetric], subst map_append, subst sum_list_append) simp
  then show ?thesis
    using close_all_size [OF zs(1)] zs(2) by (simp add: spec_size_def)
qed

lemma spec_flush_idem: "spec_flush d st = Some st' \<Longrightarrow> length (fst st') = d \<and> spec_flush d st' = Some st'"
  by (auto simp: spec_flush_def split: if_splits)

text \<open>
  The contract of an operation: whatever the allocator does, a call that returns 1 has done what
  the abstract operation does; if memory is available and the result fits in the address space,
  the call returns 1 whenever the abstract operation is defined.
\<close>

locale cbb_op =
  fixes opn :: "(size_t \<Rightarrow> bool) \<Rightarrow> (nat \<Rightarrow> byte) \<Rightarrow> cbb_state \<Rightarrow> cbb_state option"
    and spec :: "builder \<Rightarrow> builder option"
  assumes op_sound: "\<And>ok fresh s s' st. cbb_rep s (fst st) (snd st) \<Longrightarrow> opn ok fresh s = Some s' \<Longrightarrow>
      \<exists>st'. spec st = Some st' \<and> cbb_rep s' (fst st') (snd st') \<and>
        cb_can_resize (cbb_base s') = cb_can_resize (cbb_base s)"
    and op_complete: "\<And>ok fresh s st st'. cbb_rep s (fst st) (snd st) \<Longrightarrow> spec st = Some st' \<Longrightarrow>
      spec_size st' < 2 ^ 64 \<Longrightarrow> (\<And>n. ok n) \<Longrightarrow> cb_can_resize (cbb_base s) \<Longrightarrow>
      \<exists>s'. opn ok fresh s = Some s'"
    and op_size: "\<And>st st'. spec st = Some st' \<Longrightarrow> spec_size st \<le> spec_size st'"
begin

lemma op_exact:
  assumes "cbb_rep s (fst st) (snd st)" "spec st = Some st'" "spec_size st' < 2 ^ 64" "\<And>n. ok n"
    "cb_can_resize (cbb_base s)"
  shows "\<exists>s'. opn ok fresh s = Some s' \<and> cbb_rep s' (fst st') (snd st') \<and> cb_can_resize (cbb_base s')"
  using op_complete [OF assms] op_sound [OF assms(1)] assms(2,5) by fastforce

lemma op_fails: "cbb_rep s (fst st) (snd st) \<Longrightarrow> spec st = None \<Longrightarrow> opn ok fresh s = None"
  using op_sound [of s st ok fresh] by (cases "opn ok fresh s") auto

end

text \<open>Calls in sequence: the second one is made if the first one returned 1.\<close>

lemma cbb_op_seq:
  assumes "cbb_op o1 s1" "cbb_op o2 s2"
  shows "cbb_op (\<lambda>ok fresh s. Option.bind (o1 ok fresh s) (o2 ok fresh)) (\<lambda>st. Option.bind (s1 st) s2)"
proof
  fix ok fresh s s' st
  assume rep: "cbb_rep s (fst st) (snd st)" and run: "Option.bind (o1 ok fresh s) (o2 ok fresh) = Some s'"
  obtain t where t: "o1 ok fresh s = Some t" "o2 ok fresh t = Some s'"
    using run by (auto simp: Option.bind_eq_Some_conv)
  show "\<exists>st'. Option.bind (s1 st) s2 = Some st' \<and> cbb_rep s' (fst st') (snd st') \<and>
        cb_can_resize (cbb_base s') = cb_can_resize (cbb_base s)"
    using cbb_op.op_sound [OF assms(1) rep t(1)] cbb_op.op_sound [OF assms(2) _ t(2)] by force
next
  fix ok :: "size_t \<Rightarrow> bool" and fresh s st st'
  assume rep: "cbb_rep s (fst st) (snd st)" and st': "Option.bind (s1 st) s2 = Some st'"
    and res: "spec_size st' < 2 ^ 64" "\<And>n. ok n" "cb_can_resize (cbb_base s)"
  obtain u where u: "s1 st = Some u" "s2 u = Some st'"
    using st' by (auto simp: Option.bind_eq_Some_conv)
  have "spec_size u < 2 ^ 64"
    using cbb_op.op_size [OF assms(2) u(2)] res(1) by simp
  then obtain t where "o1 ok fresh s = Some t" "cbb_rep t (fst u) (snd u)" "cb_can_resize (cbb_base t)"
    using cbb_op.op_exact [where ok = ok, OF assms(1) rep u(1) _ res(2,3)] by blast
  then show "\<exists>s'. Option.bind (o1 ok fresh s) (o2 ok fresh) = Some s'"
    using cbb_op.op_complete [where ok = ok, OF assms(2) _ u(2) res(1,2)] by simp
next
  fix st st'
  assume "Option.bind (s1 st) s2 = Some st'"
  then obtain u where "s1 st = Some u" "s2 u = Some st'"
    by (auto simp: Option.bind_eq_Some_conv)
  then show "spec_size st \<le> spec_size st'"
    using cbb_op.op_size [OF assms(1)] cbb_op.op_size [OF assms(2)] le_trans by blast
qed

lemma CBB_flush_total:
  assumes rep: "cbb_rep s fs xs" and spec: "spec_flush d (fs, xs) = Some st'" and sz: "spec_size st' < 2 ^ 64"
    and ok: "\<And>n. ok n" and res: "cb_can_resize (cbb_base s)"
  shows "\<exists>s'. CBB_flush ok fresh d s = Some s'"
proof -
  obtain zs where zs: "close_all (drop d fs) xs = Some zs" "st' = (take d fs, zs)" and "d \<le> length fs"
    using spec by (auto simp: spec_flush_def split: if_splits)
  have d: "d < length (cbb_chain s)"
    using rep \<open>d \<le> length fs\<close> by (auto simp: cbb_rep_def dest: chain_rep_length)
  obtain pre bs where pre: "contents (cbb_base s) = pre @ bs"
    "chain_rep (drop d (cbb_chain s)) (length pre) bs (drop d fs) xs"
    "chain_rep (take d (cbb_chain s) @ [new_child]) 0 (pre @ zs) (take d fs @ []) zs"
    using chain_rep_split [OF _ d, of 0 "contents (cbb_base s)" fs xs] rep unfolding cbb_rep_def
    by (metis add_0 chain_rep.simps(1))
  have "length pre + length zs < 2 ^ 64"
    using chain_rep_size [OF pre(3)] sz zs(2) by simp
  then obtain b' cs' where "flush_chain ok fresh (cbb_base s) (drop d (cbb_chain s)) = Some (b', cs')"
    using flush_chain_total [where ok = ok, OF _ pre(1,2) zs(1) _ ok res] rep unfolding cbb_rep_def by blast
  then show ?thesis
    by (simp add: CBB_flush_def)
qed

interpretation flush: cbb_op "\<lambda>ok fresh. CBB_flush ok fresh d" "spec_flush d" for d
proof
  fix ok fresh s s' st
  assume "cbb_rep s (fst st) (snd st)" "CBB_flush ok fresh d s = Some s'"
  then show "\<exists>st'. spec_flush d st = Some st' \<and> cbb_rep s' (fst st') (snd st') \<and>
      cb_can_resize (cbb_base s') = cb_can_resize (cbb_base s)"
    using CBB_flush_sound by (fastforce simp: spec_flush_def)
qed (auto intro: CBB_flush_total spec_flush_size)


text \<open>Adding to the object that a flush has made the last one.\<close>

lemma spec_append_Some:
  "spec_append bs d st = Some st' \<longleftrightarrow> (\<exists>u. spec_flush d st = Some u \<and> st' = (fst u, snd u @ bs))"
  by (auto simp: spec_append_def)

lemma spec_append_size: "spec_append bs d st = Some st' \<Longrightarrow> spec_size st \<le> spec_size st'"
  by (auto simp: spec_append_Some spec_size_def dest!: spec_flush_size)

lemma spec_size_rep: "cbb_rep s fs xs \<Longrightarrow> unat (cb_len (cbb_base s)) = spec_size (fs, xs)"
  using chain_rep_size length_contents by (fastforce simp: cbb_rep_def)

text \<open>
  Every writer of a fixed number of bytes is a flush followed by a growth of the buffer and a
  write to the new space.
\<close>

lemma cbb_op_appendI:
  assumes "\<And>ok fresh s. opn ok fresh s =
      (case CBB_flush ok fresh d s of None \<Rightarrow> None
       | Some s \<Rightarrow> map_option (\<lambda>b. s\<lparr>cbb_base := b\<rparr>) (put ok fresh (cbb_base s)))"
    and "\<And>ok fresh b b'. buf_wf b \<Longrightarrow> put ok fresh b = Some b' \<Longrightarrow>
      buf_wf b' \<and> contents b' = contents b @ bs \<and> cb_can_resize b' = cb_can_resize b"
    and "\<And>ok fresh b. buf_wf b \<Longrightarrow> (\<And>n. ok n) \<Longrightarrow> cb_can_resize b \<Longrightarrow> unat (cb_len b) + length bs < 2 ^ 64 \<Longrightarrow>
      put ok fresh b \<noteq> None"
  shows "cbb_op opn (spec_append bs d)"
proof
  fix ok fresh s s' st
  assume rep: "cbb_rep s (fst st) (snd st)" and run: "opn ok fresh s = Some s'"
  obtain t b where t: "CBB_flush ok fresh d s = Some t" "put ok fresh (cbb_base t) = Some b" "s' = t\<lparr>cbb_base := b\<rparr>"
    using run assms(1) by (auto split: option.splits)
  obtain u where u: "spec_flush d st = Some u" "cbb_rep t (fst u) (snd u)"
    "cb_can_resize (cbb_base t) = cb_can_resize (cbb_base s)"
    using flush.op_sound [OF rep t(1)] by blast
  then show "\<exists>st'. spec_append bs d st = Some st' \<and> cbb_rep s' (fst st') (snd st') \<and>
      cb_can_resize (cbb_base s') = cb_can_resize (cbb_base s)"
    using assms(2) [OF _ t(2)] chain_rep_append [of "cbb_chain t" 0 "contents (cbb_base t)" "fst u" "snd u" bs]
    by (auto simp: spec_append_Some t(3) cbb_rep_def)
next
  fix ok :: "size_t \<Rightarrow> bool" and fresh s st st'
  assume rep: "cbb_rep s (fst st) (snd st)" and st': "spec_append bs d st = Some st'"
    and res: "spec_size st' < 2 ^ 64" "\<And>n. ok n" "cb_can_resize (cbb_base s)"
  obtain u where u: "spec_flush d st = Some u" "st' = (fst u, snd u @ bs)"
    using st' by (auto simp: spec_append_Some)
  have "spec_size u < 2 ^ 64"
    using res(1) u(2) by (simp add: spec_size_def)
  then obtain t where t: "CBB_flush ok fresh d s = Some t" "cbb_rep t (fst u) (snd u)" "cb_can_resize (cbb_base t)"
    using flush.op_exact [where ok = ok, OF rep u(1) _ res(2,3)] by blast
  have "put ok fresh (cbb_base t) \<noteq> None"
  proof (rule assms(3) [OF _ res(2) t(3)])
    show "buf_wf (cbb_base t)"
      using t(2) by (simp add: cbb_rep_def)
    show "unat (cb_len (cbb_base t)) + length bs < 2 ^ 64"
      using res(1) spec_size_rep [OF t(2)] u(2) by (simp add: spec_size_def)
  qed
  then show "\<exists>s'. opn ok fresh s = Some s'"
    using t(1) assms(1) by auto
qed (rule spec_append_size)

lemma cbb_op_add_u:
  assumes "n \<noteq> 0"
  shows "cbb_op (\<lambda>ok fresh. cbb_add_u ok fresh v n d) (spec_append (be_bytes (unat n) (unat v)) d)"
proof (rule cbb_op_appendI [where put = "\<lambda>ok fresh b. cbb_buffer_add_u ok fresh b v n"])
  fix ok fresh s
  show "cbb_add_u ok fresh v n d s = (case CBB_flush ok fresh d s of None \<Rightarrow> None
       | Some s \<Rightarrow> map_option (\<lambda>b. s\<lparr>cbb_base := b\<rparr>) (cbb_buffer_add_u ok fresh (cbb_base s) v n))"
    by (simp add: cbb_add_u_def map_option_case split: option.splits)
next
  fix ok :: "size_t \<Rightarrow> bool" and fresh and b :: cbb_buffer
  assume "\<And>n. ok n" "cb_can_resize b" "unat (cb_len b) + length (be_bytes (unat n) (unat v)) < 2 ^ 64"
  then show "cbb_buffer_add_u ok fresh b v n \<noteq> None"
    using buffer_add_total [of ok b n fresh] assms by (auto simp: cbb_buffer_add_u_def)
qed (rule buffer_add_u_Some)

interpretation add_u8: cbb_op "\<lambda>ok fresh. CBB_add_u8 ok fresh v d" "spec_append [v] d" for v d
  using cbb_op_add_u [of 1 "ucast v" d] by (simp add: CBB_add_u8_def unat_ucast_up unat_byte_lt)

interpretation add_u16: cbb_op "\<lambda>ok fresh. CBB_add_u16 ok fresh v d" "spec_append (be_bytes 2 (unat v)) d" for v d
  using cbb_op_add_u [of 2 "ucast v" d] by (simp add: CBB_add_u16_def unat_ucast_up)

interpretation add_u24: cbb_op "\<lambda>ok fresh. CBB_add_u24 ok fresh v d" "spec_append (be_bytes 3 (unat v)) d" for v d
  using cbb_op_add_u [of 3 v d] by (simp add: CBB_add_u24_def)

lemma cbb_op_add_bytes:
  assumes "length bs < 2 ^ 64"
  shows "cbb_op (\<lambda>ok fresh. CBB_add_bytes ok fresh bs d) (spec_append bs d)"
proof (rule cbb_op_appendI [where put = "\<lambda>ok fresh b. map_option (\<lambda>(p, b). b\<lparr>cb_buf := put_at (unat p) bs (cb_buf b)\<rparr>)
    (cbb_buffer_add ok fresh b (of_nat (length bs)))"])
  have n: "unat (of_nat (length bs) :: size_t) = length bs"
    using assms by (simp add: unat_of_nat take_bit_nat_eq_self)
  fix ok fresh and b b' :: cbb_buffer
  assume wf: "buf_wf b" and put: "map_option (\<lambda>(p, b). b\<lparr>cb_buf := put_at (unat p) bs (cb_buf b)\<rparr>)
    (cbb_buffer_add ok fresh b (of_nat (length bs))) = Some b'"
  then obtain p b1 where "cbb_buffer_add ok fresh b (of_nat (length bs)) = Some (p, b1)"
    "b' = b1\<lparr>cb_buf := put_at (unat p) bs (cb_buf b1)\<rparr>"
    by auto
  then show "buf_wf b' \<and> contents b' = contents b @ bs \<and> cb_can_resize b' = cb_can_resize b"
    using buffer_add_write [OF wf, of ok fresh _ p b1 bs] buffer_add_Some [OF wf] n by auto
next
  fix ok :: "size_t \<Rightarrow> bool" and fresh and b :: cbb_buffer
  assume "\<And>n. ok n" "cb_can_resize b" "unat (cb_len b) + length bs < 2 ^ 64"
  then show "map_option (\<lambda>(p, b). b\<lparr>cb_buf := put_at (unat p) bs (cb_buf b)\<rparr>)
    (cbb_buffer_add ok fresh b (of_nat (length bs))) \<noteq> None"
    using buffer_add_total [of ok b "of_nat (length bs)" fresh] assms
    by (auto simp: unat_of_nat take_bit_nat_eq_self)
qed (simp add: CBB_add_bytes_def option.map_comp comp_def case_prod_beta map_option_case split: option.splits)

text \<open>Opening a prefix.\<close>

lemma spec_open_Some:
  "spec_open k hdr d st = Some st' \<longleftrightarrow> (\<exists>u. spec_flush d st = Some u \<and> st' = (fst u @ [(snd u @ hdr, k)], []))"
  by (auto simp: spec_open_def)

lemma spec_open_size: "spec_open k hdr d st = Some st' \<Longrightarrow> spec_size st \<le> spec_size st'"
  by (auto simp: spec_open_Some spec_size_def dest!: spec_flush_size)

lemma cbb_rep_push:
  assumes rep: "cbb_rep s fs xs" and d: "length fs = d" and b: "buf_wf b" "contents b = contents (cbb_base s) @ replicate (prefix_len k) 0"
    and c: "cbb_offset c = cb_len (cbb_base s)" "unat (pending_len_len c) = prefix_len k" "0 < prefix_len k"
      "pending_is_asn1 c = (k = Asn1Len)" "is_top_level c = is_top_level (cbb_chain s ! d)"
  shows "cbb_rep \<lparr>cbb_base = b, cbb_chain = take d (cbb_chain s) @ [c, new_child]\<rparr> (fs @ [(xs, k)]) []"
proof -
  have len: "length (cbb_chain s) = Suc d"
    using rep d by (auto simp: cbb_rep_def dest: chain_rep_length)
  then have chain: "cbb_chain s = take d (cbb_chain s) @ [cbb_chain s ! d]"
    by (metis lessI take_Suc_conv_app_nth take_all_iff order_refl)
  have "chain_rep (take d (cbb_chain s) @ [c, new_child]) 0 (contents (cbb_base s) @ replicate (prefix_len k) 0) (fs @ [(xs, k)]) []"
    using rep chain c length_contents [of "cbb_base s"]
    by (intro chain_rep_push [where c = "cbb_chain s ! d"]) (auto simp: cbb_rep_def)
  moreover have "is_top_level (hd (take d (cbb_chain s) @ [c, new_child]))"
    using rep c(5) len by (cases d; cases "cbb_chain s") (auto simp: cbb_rep_def)
  ultimately show ?thesis
    using b by (simp add: cbb_rep_def)
qed

lemma cbb_op_length_prefixed:
  assumes n: "n \<noteq> 0" "unat n < 256"
  shows "cbb_op (\<lambda>ok fresh. cbb_add_length_prefixed ok fresh n d) (spec_open (Fixed (unat n)) [] d)"
proof
  fix ok fresh s s' st
  assume rep: "cbb_rep s (fst st) (snd st)" and run: "cbb_add_length_prefixed ok fresh n d s = Some s'"
  obtain t p b where t: "CBB_flush ok fresh d s = Some t" "cbb_buffer_add ok fresh (cbb_base t) n = Some (p, b)"
    and s': "s' = \<lparr>cbb_base = b\<lparr>cb_buf := put_at (unat p) (replicate (unat n) 0) (cb_buf b)\<rparr>,
       cbb_chain = take d (cbb_chain t) @
         [(cbb_chain t ! d)\<lparr>cbb_offset := cb_len (cbb_base t), pending_len_len := ucast n, pending_is_asn1 := False\<rparr>, new_child]\<rparr>"
    using run by (auto simp: cbb_add_length_prefixed_def Let_def split: option.splits)
  obtain u where u: "spec_flush d st = Some u" "cbb_rep t (fst u) (snd u)"
    "cb_can_resize (cbb_base t) = cb_can_resize (cbb_base s)"
    using flush.op_sound [OF rep t(1)] by blast
  have wf: "buf_wf (cbb_base t)"
    using u(2) by (simp add: cbb_rep_def)
  have "unat (ucast n :: byte) = unat n"
    using n by (simp add: unsigned_ucast_eq take_bit_nat_eq_self)
  then have "cbb_rep s' (fst u @ [(snd u, Fixed (unat n))]) []"
    unfolding s' using buffer_add_write [OF wf t(2), of "replicate (unat n) 0"] n spec_flush_idem [OF u(1)]
    by (intro cbb_rep_push [OF u(2)]) (simp_all add: unat_gt_0)
  then show "\<exists>st'. spec_open (Fixed (unat n)) [] d st = Some st' \<and> cbb_rep s' (fst st') (snd st') \<and>
      cb_can_resize (cbb_base s') = cb_can_resize (cbb_base s)"
    using u buffer_add_Some [OF wf t(2)] by (auto simp: spec_open_Some s')
next
  fix ok :: "size_t \<Rightarrow> bool" and fresh s st st'
  assume rep: "cbb_rep s (fst st) (snd st)" and st': "spec_open (Fixed (unat n)) [] d st = Some st'"
    and res: "spec_size st' < 2 ^ 64" "\<And>n. ok n" "cb_can_resize (cbb_base s)"
  obtain u where u: "spec_flush d st = Some u" "st' = (fst u @ [(snd u, Fixed (unat n))], [])"
    using st' by (auto simp: spec_open_Some)
  have sz: "spec_size u + unat n < 2 ^ 64"
    using res(1) u(2) by (simp add: spec_size_def)
  then obtain t where t: "CBB_flush ok fresh d s = Some t" "cbb_rep t (fst u) (snd u)" "cb_can_resize (cbb_base t)"
    using flush.op_exact [where ok = ok, OF rep u(1) _ res(2,3)] add_lessD1 by blast
  then show "\<exists>s'. cbb_add_length_prefixed ok fresh n d s = Some s'"
    using buffer_add_total [of ok "cbb_base t" n fresh] res(2) sz spec_size_rep [OF t(2)]
    by (auto simp: cbb_add_length_prefixed_def Let_def)
qed (rule spec_open_size)

interpretation add_u8_length_prefixed: cbb_op "\<lambda>ok fresh. CBB_add_u8_length_prefixed ok fresh d" "spec_open (Fixed 1) [] d" for d
  using cbb_op_length_prefixed [of 1 d] by (simp add: CBB_add_u8_length_prefixed_def)

interpretation add_u16_length_prefixed: cbb_op "\<lambda>ok fresh. CBB_add_u16_length_prefixed ok fresh d" "spec_open (Fixed 2) [] d" for d
  using cbb_op_length_prefixed [of 2 d] by (simp add: CBB_add_u16_length_prefixed_def)

interpretation add_u24_length_prefixed: cbb_op "\<lambda>ok fresh. CBB_add_u24_length_prefixed ok fresh d" "spec_open (Fixed 3) [] d" for d
  using cbb_op_length_prefixed [of 3 d] by (simp add: CBB_add_u24_length_prefixed_def)

definition spec_asn1 :: "byte \<Rightarrow> nat \<Rightarrow> builder \<Rightarrow> builder option" where
  "spec_asn1 tag d st = (if low_tag tag then spec_open Asn1Len [tag] d st else None)"

text \<open>After an append the object is the last one of its chain, so that the next append flushes nothing.\<close>

lemma spec_append_idem: "spec_append bs d st = Some u \<Longrightarrow> spec_flush d u = Some u \<and> length (fst u) = d"
  by (auto simp: spec_append_Some spec_flush_def split: if_splits)

lemma spec_append_seq:
  "Option.bind (spec_append as d st) (spec_append bs d) = spec_append (as @ bs) d st"
proof (cases "spec_append as d st")
  case None
  then show ?thesis
    by (auto simp: spec_append_def)
next
  case (Some u)
  then show ?thesis
    using spec_append_idem [OF Some] by (auto simp: spec_append_def)
qed

interpretation add_asn1: cbb_op "\<lambda>ok fresh. CBB_add_asn1 ok fresh tag d" "spec_asn1 tag d" for tag d
proof
  fix ok fresh s s' st
  assume rep: "cbb_rep s (fst st) (snd st)" and run: "CBB_add_asn1 ok fresh tag d s = Some s'"
  obtain t1 t2 t3 where t: "CBB_flush ok fresh d s = Some t1" "CBB_add_u8 ok fresh tag d t1 = Some t2"
    "CBB_add_u8 ok fresh 0 d t2 = Some t3" and low: "low_tag tag"
    and s': "s' = t3\<lparr>cbb_chain := take d (cbb_chain t3) @ [(cbb_chain t3 ! d)\<lparr>cbb_offset := cb_len (cbb_base t2),
        pending_len_len := 1, pending_is_asn1 := True\<rparr>, new_child]\<rparr>"
    using run by (auto simp: CBB_add_asn1_def low_tag_def Let_def split: option.splits if_splits)
  obtain u1 where u1: "spec_flush d st = Some u1" "cbb_rep t1 (fst u1) (snd u1)"
    "cb_can_resize (cbb_base t1) = cb_can_resize (cbb_base s)"
    using flush.op_sound [OF rep t(1)] by blast
  obtain u2 where u2: "spec_append [tag] d u1 = Some u2" "cbb_rep t2 (fst u2) (snd u2)"
    "cb_can_resize (cbb_base t2) = cb_can_resize (cbb_base t1)"
    using add_u8.op_sound [OF u1(2) t(2)] by blast
  obtain u3 where u3: "spec_append [0] d u2 = Some u3" "cbb_rep t3 (fst u3) (snd u3)"
    "cb_can_resize (cbb_base t3) = cb_can_resize (cbb_base t2)"
    using add_u8.op_sound [OF u2(2) t(3)] by blast
  note i = spec_flush_idem [OF u1(1)] spec_append_idem [OF u2(1)]
  have u: "u2 = (fst u1, snd u1 @ [tag])" "u3 = (fst u1, snd u1 @ [tag, 0])"
    using u2(1) u3(1) i by (auto simp: spec_append_Some)
  have chain: "cbb_chain t3 = cbb_chain t2"
    using t(3) CBB_flush_last [of t2 d] u2(2) i
    by (auto simp: CBB_add_u8_def cbb_add_u_def cbb_rep_def dest!: chain_rep_length split: option.splits)
  have "contents (cbb_base t3) = contents (cbb_base t2) @ replicate (prefix_len Asn1Len) 0"
    using u2(2) t(3) CBB_flush_last [of t2 d] i buffer_add_u_Some [of "cbb_base t2" ok fresh 0 1]
    by (auto simp: CBB_add_u8_def cbb_add_u_def cbb_rep_def dest!: chain_rep_length split: option.splits)
  then have "cbb_rep s' (fst u2 @ [(snd u2, Asn1Len)]) []"
    using cbb_rep_push [OF u2(2), of d "cbb_base t3" Asn1Len "(cbb_chain t3 ! d)\<lparr>cbb_offset := cb_len (cbb_base t2),
        pending_len_len := 1, pending_is_asn1 := True\<rparr>"] i u3(2) chain
    by (simp add: s' cbb_rep_def)
  then show "\<exists>st'. spec_asn1 tag d st = Some st' \<and> cbb_rep s' (fst st') (snd st') \<and>
      cb_can_resize (cbb_base s') = cb_can_resize (cbb_base s)"
    using u u1 u2(3) u3(3) low by (auto simp: spec_asn1_def spec_open_Some s')
next
  fix ok :: "size_t \<Rightarrow> bool" and fresh s st st'
  assume rep: "cbb_rep s (fst st) (snd st)" and st': "spec_asn1 tag d st = Some st'"
    and res: "spec_size st' < 2 ^ 64" "\<And>n. ok n" "cb_can_resize (cbb_base s)"
  obtain u where u: "spec_flush d st = Some u" "st' = (fst u @ [(snd u @ [tag], Asn1Len)], [])" and low: "low_tag tag"
    using st' by (auto simp: spec_asn1_def spec_open_Some split: if_splits)
  have sz: "spec_size u + 2 < 2 ^ 64"
    using res(1) u(2) by (simp add: spec_size_def)
  then obtain t1 where t1: "CBB_flush ok fresh d s = Some t1" "cbb_rep t1 (fst u) (snd u)" "cb_can_resize (cbb_base t1)"
    using flush.op_exact [where ok = ok, OF rep u(1) _ res(2,3)] add_lessD1 by blast
  have i: "spec_flush d u = Some u"
    using spec_flush_idem [OF u(1)] by simp
  have "spec_append [tag] d u = Some (fst u, snd u @ [tag])"
    using i by (simp add: spec_append_Some)
  then obtain t2 where t2: "CBB_add_u8 ok fresh tag d t1 = Some t2" "cbb_rep t2 (fst u) (snd u @ [tag])" "cb_can_resize (cbb_base t2)"
    using add_u8.op_exact [where ok = ok, OF t1(2) _ _ res(2) t1(3)] sz by (force simp: spec_size_def)
  have "spec_append [0] d (fst u, snd u @ [tag]) = Some (fst u, snd u @ [tag, 0])"
    using spec_flush_idem [OF u(1)] by (auto simp: spec_append_Some spec_flush_def)
  then obtain t3 where "CBB_add_u8 ok fresh 0 d t2 = Some t3"
    using add_u8.op_exact [where ok = ok and st = "(fst u, snd u @ [tag])", OF _ _ _ res(2) t2(3)] t2(2) sz by (force simp: spec_size_def)
  then show "\<exists>s'. CBB_add_asn1 ok fresh tag d s = Some s'"
    using t1(1) t2(1) low by (auto simp: CBB_add_asn1_def low_tag_def)
qed (auto simp: spec_asn1_def split: if_splits dest: spec_open_size)

text \<open>A run of one-byte writes.\<close>

primrec add_u8s :: "(size_t \<Rightarrow> bool) \<Rightarrow> (nat \<Rightarrow> byte) \<Rightarrow> nat \<Rightarrow> byte list \<Rightarrow> cbb_state \<Rightarrow> cbb_state option" where
  "add_u8s ok fresh d [] s = Some s"
| "add_u8s ok fresh d (b # bs) s = Option.bind (CBB_add_u8 ok fresh b d s) (add_u8s ok fresh d bs)"

lemma cbb_op_add_u8s: "bs \<noteq> [] \<Longrightarrow> cbb_op (\<lambda>ok fresh. add_u8s ok fresh d bs) (spec_append bs d)"
proof (induction bs)
  case (Cons b bs)
  show ?case
  proof (cases "bs = []")
    case True
    have "(\<lambda>ok fresh. add_u8s ok fresh d [b]) = (\<lambda>ok fresh. CBB_add_u8 ok fresh b d)"
      by (intro ext) (simp add: bind_eq_None_conv bind_runit [unfolded eta_contract_eq] split: bind_splits)
    then show ?thesis
      unfolding True using add_u8.cbb_op_axioms [of b d] by (simp only:)
  next
    case False
    then show ?thesis
      using cbb_op_seq [OF add_u8.cbb_op_axioms [of b d] Cons.IH] by (simp add: spec_append_seq)
  qed
qed simp

text \<open>The bytes the loop of \<^verbatim>\<open>CBB_add_asn1_uint64\<close> writes.\<close>

definition uint64_run :: "byte list \<Rightarrow> byte list" where
  "uint64_run bs = (let z = strip_zeros bs in if z \<noteq> [] \<and> 128 \<le> unat (hd z) then 0 # z else z)"

lemma add_uint64_bytes_started:
  "add_uint64_bytes ok fresh d True bs s = map_option (Pair True) (add_u8s ok fresh d bs s)"
  by (induction bs arbitrary: s) (auto split: option.splits)

lemma add_uint64_bytes_eq:
  "add_uint64_bytes ok fresh d False bs s =
     map_option (Pair (strip_zeros bs \<noteq> [])) (add_u8s ok fresh d (uint64_run bs) s)"
proof (induction bs arbitrary: s)
  case Nil
  then show ?case
    by (simp add: uint64_run_def strip_zeros_def)
next
  case (Cons b bs)
  show ?case
  proof (cases "b = 0")
    case True
    then show ?thesis
      using Cons by (simp add: uint64_run_def strip_zeros_def)
  next
    case False
    then show ?thesis
      by (auto simp: uint64_run_def strip_zeros_def byte_and_80 add_uint64_bytes_started split: option.splits)
  qed
qed

lemma be_bytes_map: "be_bytes n v = map (\<lambda>i. of_nat (v div 2 ^ (8 * (n - Suc i)))) [0..<n]"
proof (induction n arbitrary: v)
  case (Suc n)
  have "v div 256 div 2 ^ (8 * (n - Suc i)) = v div 2 ^ (8 * (n - i))" if "i < n" for i
  proof -
    have "n - i = Suc (n - Suc i)"
      using that by simp
    then have "(2 :: nat) ^ (8 * (n - i)) = 256 * 2 ^ (8 * (n - Suc i))"
      by (simp add: power_add)
    then show ?thesis
      by (simp only: div_mult2_eq)
  qed
  then show ?case
    using Suc by simp
qed simp

lemma uint64_bytes:
  "map (\<lambda>i. ucast (drop_bit (8 * (7 - i)) (v :: u64) AND 0xff)) [0..<8] = be_bytes 8 (unat v)"
proof -
  have "(ucast (drop_bit n v AND 0xff) :: byte) = of_nat (unat v div 2 ^ n)" for n
  proof -
    have "(ucast (drop_bit n v AND 0xff) :: byte) = ucast (drop_bit n v)"
    proof -
      have "drop_bit n v AND 0xff = take_bit 8 (drop_bit n v)"
        by (simp add: take_bit_eq_mask mask_eq_exp_minus_1)
      then show ?thesis
        by (simp only:) (rule bit_word_eqI, auto simp: bit_simps)
    qed
    moreover have "unat (drop_bit n v) = unat v div 2 ^ n"
      by (subst unat_drop_bit_eq) (rule drop_bit_eq_div)
    ultimately show ?thesis
      by (simp add: word_unat_eq_iff unsigned_ucast_eq take_bit_eq_mod)
  qed
  then show ?thesis
    by (simp add: be_bytes_map)
qed


lemma CBB_add_asn1_uint64_eq:
  "CBB_add_asn1_uint64 ok fresh v d s =
     Option.bind (CBB_add_asn1 ok fresh 2 d s)
       (\<lambda>s. Option.bind (add_u8s ok fresh (d + 1) (uint_octets (unat v)) s) (CBB_flush ok fresh d))"
proof -
  have z: "strip_zeros (be_bytes 8 (unat v)) = [] \<Longrightarrow> uint_octets (unat v) = [0] \<and> uint64_run (be_bytes 8 (unat v)) = []"
    "strip_zeros (be_bytes 8 (unat v)) \<noteq> [] \<Longrightarrow> uint_octets (unat v) = uint64_run (be_bytes 8 (unat v))"
    by (simp_all add: uint_octets_def uint64_run_def Let_def)
  have "(ucast CBS_ASN1_INTEGER :: byte) = 2"
    by (simp add: CBS_ASN1_INTEGER_def)
  then show ?thesis
    unfolding CBB_add_asn1_uint64_def uint64_bytes add_uint64_bytes_eq
    using z by (cases "strip_zeros (be_bytes 8 (unat v)) = []") (auto split: option.splits bind_splits)
qed

lemma spec_uint64:
  assumes "length bs < 128"
  shows "Option.bind (spec_asn1 t d st) (\<lambda>st. Option.bind (spec_append bs (d + 1) st) (spec_flush d)) =
     (if low_tag t then spec_append (der t bs) d st else None)"
proof (cases "spec_flush d st")
  case None
  then show ?thesis
    by (auto simp: spec_asn1_def spec_open_def spec_append_def)
next
  case (Some u)
  then have "length (fst u) = d"
    using spec_flush_idem by blast
  then have "spec_append bs (d + 1) (fst u @ [(snd u @ [t], Asn1Len)], []) = Some (fst u @ [(snd u @ [t], Asn1Len)], bs)"
    "spec_flush d (fst u @ [(snd u @ [t], Asn1Len)], bs) = Some (fst u, snd u @ der t bs)"
    using assms by (simp_all add: spec_append_def spec_flush_def der_def)
  then show ?thesis
    using Some by (auto simp: spec_asn1_def spec_open_def spec_append_def split: prod.splits)
qed

interpretation add_asn1_uint64: cbb_op "\<lambda>ok fresh. CBB_add_asn1_uint64 ok fresh v d"
  "spec_append (der 2 (uint_octets (unat v))) d" for v d
proof -
  have ne: "uint_octets (unat v) \<noteq> []" "length (uint_octets (unat v)) < 128"
    using minimal_uint_octets [of "unat v"] unsigned_less [of v, where 'a = nat]
    by (auto simp: minimal_uint_def)
  have "cbb_op (\<lambda>ok fresh s. Option.bind (CBB_add_asn1 ok fresh 2 d s)
       (\<lambda>s. Option.bind (add_u8s ok fresh (d + 1) (uint_octets (unat v)) s) (CBB_flush ok fresh d)))
     (\<lambda>st. Option.bind (spec_asn1 2 d st)
        (\<lambda>st. Option.bind (spec_append (uint_octets (unat v)) (d + 1) st) (spec_flush d)))"
    by (intro cbb_op_seq add_asn1.cbb_op_axioms cbb_op_add_u8s ne flush.cbb_op_axioms)
  then show "cbb_op (\<lambda>ok fresh. CBB_add_asn1_uint64 ok fresh v d) (spec_append (der 2 (uint_octets (unat v))) d)"
    by (simp only: spec_uint64 [OF ne(2)] CBS_ASN1_INTEGER_tag(2) if_True flip: CBB_add_asn1_uint64_eq)
qed


section \<open>Programs of builder calls\<close>

text \<open>
  A client of the builder makes calls on objects of its choice, in any order; a call on an object
  closes the objects below it.
\<close>

datatype cbb_call = Call_u8 byte | Call_u16 u16 | Call_u24 u32 | Call_bytes "byte list"
  | Call_u8_prefixed | Call_u16_prefixed | Call_u24_prefixed | Call_asn1 byte | Call_uint64 u64 | Call_flush

primrec call_op :: "cbb_call \<Rightarrow> nat \<Rightarrow> (size_t \<Rightarrow> bool) \<Rightarrow> (nat \<Rightarrow> byte) \<Rightarrow> cbb_state \<Rightarrow> cbb_state option" where
  "call_op (Call_u8 v) d = (\<lambda>ok fresh. CBB_add_u8 ok fresh v d)"
| "call_op (Call_u16 v) d = (\<lambda>ok fresh. CBB_add_u16 ok fresh v d)"
| "call_op (Call_u24 v) d = (\<lambda>ok fresh. CBB_add_u24 ok fresh v d)"
| "call_op (Call_bytes bs) d = (\<lambda>ok fresh. CBB_add_bytes ok fresh bs d)"
| "call_op Call_u8_prefixed d = (\<lambda>ok fresh. CBB_add_u8_length_prefixed ok fresh d)"
| "call_op Call_u16_prefixed d = (\<lambda>ok fresh. CBB_add_u16_length_prefixed ok fresh d)"
| "call_op Call_u24_prefixed d = (\<lambda>ok fresh. CBB_add_u24_length_prefixed ok fresh d)"
| "call_op (Call_asn1 tag) d = (\<lambda>ok fresh. CBB_add_asn1 ok fresh tag d)"
| "call_op (Call_uint64 v) d = (\<lambda>ok fresh. CBB_add_asn1_uint64 ok fresh v d)"
| "call_op Call_flush d = (\<lambda>ok fresh. CBB_flush ok fresh d)"

primrec call_spec :: "cbb_call \<Rightarrow> nat \<Rightarrow> builder \<Rightarrow> builder option" where
  "call_spec (Call_u8 v) d = spec_append [v] d"
| "call_spec (Call_u16 v) d = spec_append (be_bytes 2 (unat v)) d"
| "call_spec (Call_u24 v) d = spec_append (be_bytes 3 (unat v)) d"
| "call_spec (Call_bytes bs) d = spec_append bs d"
| "call_spec Call_u8_prefixed d = spec_open (Fixed 1) [] d"
| "call_spec Call_u16_prefixed d = spec_open (Fixed 2) [] d"
| "call_spec Call_u24_prefixed d = spec_open (Fixed 3) [] d"
| "call_spec (Call_asn1 tag) d = spec_asn1 tag d"
| "call_spec (Call_uint64 v) d = spec_append (der 2 (uint_octets (unat v))) d"
| "call_spec Call_flush d = spec_flush d"

primrec call_run :: "(cbb_call \<times> nat) list \<Rightarrow> (size_t \<Rightarrow> bool) \<Rightarrow> (nat \<Rightarrow> byte) \<Rightarrow> cbb_state \<Rightarrow> cbb_state option" where
  "call_run [] ok fresh s = Some s"
| "call_run (c # cs) ok fresh s = Option.bind (call_op (fst c) (snd c) ok fresh s) (call_run cs ok fresh)"

primrec spec_run :: "(cbb_call \<times> nat) list \<Rightarrow> builder \<Rightarrow> builder option" where
  "spec_run [] st = Some st"
| "spec_run (c # cs) st = Option.bind (call_spec (fst c) (snd c) st) (spec_run cs)"

text \<open>An array that a caller passes is an object of the address space.\<close>

fun call_arg :: "cbb_call \<Rightarrow> bool" where
  "call_arg (Call_bytes bs) \<longleftrightarrow> length bs < 2 ^ 64"
| "call_arg _ \<longleftrightarrow> True"

lemma cbb_op_call: "call_arg c \<Longrightarrow> cbb_op (call_op c d) (call_spec c d)"
  by (cases c) (simp_all add: add_u8.cbb_op_axioms add_u16.cbb_op_axioms add_u24.cbb_op_axioms
    cbb_op_add_bytes add_u8_length_prefixed.cbb_op_axioms [simplified] add_u16_length_prefixed.cbb_op_axioms
    add_u24_length_prefixed.cbb_op_axioms add_asn1.cbb_op_axioms add_asn1_uint64.cbb_op_axioms flush.cbb_op_axioms)

lemma cbb_op_id: "cbb_op (\<lambda>ok fresh. Some) Some"
  by unfold_locales auto

lemma cbb_op_run: "\<forall>c\<in>set cs. call_arg (fst c) \<Longrightarrow> cbb_op (call_run cs) (spec_run cs)"
proof (induction cs)
  case Nil
  then show ?case
    using cbb_op_id by simp
next
  case (Cons c cs)
  then show ?case
    using cbb_op_seq [OF cbb_op_call [of "fst c" "snd c"]] by simp
qed

lemma CBB_init_rep: "CBB_init ok fresh n = Some s \<Longrightarrow> cbb_rep s [] [] \<and> cb_can_resize (cbb_base s)"
  by (auto simp: CBB_init_def cbb_init_def cbb_rep_def buf_wf_def contents_def split: if_splits)

lemma CBB_finish_sound:
  assumes rep: "cbb_rep s fs xs" and fin: "CBB_finish ok fresh 0 s = Some (buf, n)"
  shows "close_all fs xs = Some (take (unat n) buf)" "unat n \<le> length buf"
proof -
  obtain s' where s': "CBB_flush ok fresh 0 s = Some s'" "buf = cb_buf (cbb_base s')" "n = cb_len (cbb_base s')"
    using fin by (auto simp: CBB_finish_def split: if_splits option.splits)
  obtain zs where zs: "close_all fs xs = Some zs" "cbb_rep s' [] zs" "length (cbb_chain s') = Suc 0"
    using CBB_flush_sound [OF rep s'(1)] by auto
  moreover from this have "contents (cbb_base s') = zs"
    by (auto simp: cbb_rep_def length_Suc_conv)
  ultimately show "close_all fs xs = Some (take (unat n) buf)"
    by (simp add: s' contents_def)
  show "unat n \<le> length buf"
    using zs(2) by (simp add: s' cbb_rep_def buf_wf_def word_le_nat_alt)
qed

lemma CBB_finish_total:
  assumes "cbb_rep s fs xs" "close_all fs xs = Some zs" "length zs < 2 ^ 64" "\<And>n. ok n" "cb_can_resize (cbb_base s)"
  shows "\<exists>buf n. CBB_finish ok fresh 0 s = Some (buf, n)"
proof -
  have "is_top_level (cbb_chain s ! 0)"
    using assms(1) by (cases "cbb_chain s") (auto simp: cbb_rep_def)
  moreover have "\<exists>s'. CBB_flush ok fresh 0 s = Some s'"
    using assms by (intro CBB_flush_total [OF assms(1)]) (auto simp: spec_flush_def spec_size_def)
  ultimately show ?thesis
    by (auto simp: CBB_finish_def)
qed


text \<open>A run that succeeds leaves the state in the relation to the abstract run.\<close>

lemma call_run_rep:
  assumes "CBB_init ok fresh cap = Some s0" "\<forall>c\<in>set cs. call_arg (fst c)" "call_run cs ok fresh s0 = Some s"
  shows "\<exists>st. spec_run cs ([], []) = Some st \<and> cbb_rep s (fst st) (snd st)"
  using cbb_op.op_sound [OF cbb_op_run [OF assms(2)], of s0 "([], [])"] CBB_init_rep [OF assms(1)] assms(3) by force

text \<open>
  C1. Whatever program of builder calls a client makes on a builder from \<^verbatim>\<open>CBB_init\<close>, whatever the
  allocator does and leaves in fresh memory, and in whatever order the nested objects are used:
  when every call and \<^verbatim>\<open>CBB_finish\<close> return 1, the abstract program succeeds too, and the bytes that
  \<^verbatim>\<open>CBB_finish\<close> hands out lie inside the buffer and are exactly the abstract ones, every length
  prefix (fixed width or DER) closed with the length of what is below it.
\<close>

theorem cbb_build_sound:
  assumes "CBB_init ok fresh cap = Some s0" "\<forall>c\<in>set cs. call_arg (fst c)"
    "call_run cs ok fresh s0 = Some s" "CBB_finish ok fresh 0 s = Some (buf, n)"
  shows "unat n \<le> length buf \<and>
    (\<exists>st. spec_run cs ([], []) = Some st \<and> close_all (fst st) (snd st) = Some (take (unat n) buf))"
  using call_run_rep [OF assms(1-3)] CBB_finish_sound [OF _ assms(4)] by blast

definition demo_calls :: "(cbb_call \<times> nat) list" where
  "demo_calls = [(Call_u16_prefixed, 0), (Call_u8 5, 1), (Call_asn1 0x30, 1), (Call_uint64 300, 2), (Call_u24 7, 0)]"

lemma demo_calls_arg: "\<forall>c\<in>set demo_calls. call_arg (fst c)"
  by (simp add: demo_calls_def)

lemma demo_calls_spec: "spec_run demo_calls ([], []) = Some ([], [0, 7, 5, 0x30, 4, 2, 2, 1, 0x2c, 0, 0, 7])"
  by (simp add: demo_calls_def spec_open_def spec_append_def spec_asn1_def spec_flush_def low_tag_def prefixed_def
    der_def der_length_def uint_octets_def strip_zeros_def be_bytes_numeral)

theorem cbb_build_sound_witness:
  "\<exists>s0 s buf n. CBB_init (\<lambda>_. True) (\<lambda>_. 0xaa) 4 = Some s0 \<and> call_run demo_calls (\<lambda>_. True) (\<lambda>_. 0xaa) s0 = Some s \<and>
     CBB_finish (\<lambda>_. True) (\<lambda>_. 0xaa) 0 s = Some (buf, n) \<and>
     take (unat n) buf = [0, 7, 5, 0x30, 4, 2, 2, 1, 0x2c, 0, 0, 7]"
proof -
  have "Option.bind (CBB_init (\<lambda>_. True) (\<lambda>_. 0xaa) 4) (\<lambda>s0. Option.bind (call_run demo_calls (\<lambda>_. True) (\<lambda>_. 0xaa) s0)
     (CBB_finish (\<lambda>_. True) (\<lambda>_. 0xaa) 0)) \<noteq> None"
    by code_simp
  then obtain s0 s buf n where r: "CBB_init (\<lambda>_. True) (\<lambda>_. 0xaa) 4 = Some s0"
    "call_run demo_calls (\<lambda>_. True) (\<lambda>_. 0xaa) s0 = Some s" "CBB_finish (\<lambda>_. True) (\<lambda>_. 0xaa) 0 s = Some (buf, n)"
    by (auto simp: Option.bind_eq_Some_conv)
  then have "take (unat n) buf = [0, 7, 5, 0x30, 4, 2, 2, 1, 0x2c, 0, 0, 7]"
    using cbb_build_sound [OF r(1) demo_calls_arg r(2,3)] demo_calls_spec by simp
  then show ?thesis
    using r by blast
qed

text \<open>
  C12. If memory is available and the result fits in the address space, a program of builder calls
  whose abstract counterpart succeeds (each tag is a single byte, each prefix can hold its length)
  returns 1 throughout, and \<^verbatim>\<open>CBB_finish\<close> hands out the abstract bytes.
\<close>

theorem cbb_build_complete:
  assumes "\<forall>c\<in>set cs. call_arg (fst c)" "spec_run cs ([], []) = Some st" "close_all (fst st) (snd st) = Some zs"
    "length zs < 2 ^ 64"
  shows "\<exists>s0 s buf n. CBB_init (\<lambda>_. True) fresh cap = Some s0 \<and> call_run cs (\<lambda>_. True) fresh s0 = Some s \<and>
     CBB_finish (\<lambda>_. True) fresh 0 s = Some (buf, n) \<and> take (unat n) buf = zs"
proof -
  obtain s0 where s0: "CBB_init (\<lambda>_. True) fresh cap = Some s0"
    by (simp add: CBB_init_def cbb_init_def)
  then have rep: "cbb_rep s0 [] []" "cb_can_resize (cbb_base s0)"
    using CBB_init_rep by auto
  have "spec_size st < 2 ^ 64"
    using close_all_size [OF assms(3)] assms(4) by simp
  then obtain s where s: "call_run cs (\<lambda>_. True) fresh s0 = Some s" "cbb_rep s (fst st) (snd st)" "cb_can_resize (cbb_base s)"
    using cbb_op.op_exact [OF cbb_op_run [OF assms(1)] _ assms(2), of s0 "\<lambda>_. True" fresh] rep by auto
  then obtain buf n where "CBB_finish (\<lambda>_. True) fresh 0 s = Some (buf, n)"
    using CBB_finish_total [OF s(2) assms(3,4), of "\<lambda>_. True" fresh] by auto
  then show ?thesis
    using s0 s(1) CBB_finish_sound [OF s(2)] assms(3) by fastforce
qed

theorem cbb_build_complete_witness:
  "\<exists>s0 s buf n. CBB_init (\<lambda>_. True) (\<lambda>_. 0xaa) 1 = Some s0 \<and> call_run demo_calls (\<lambda>_. True) (\<lambda>_. 0xaa) s0 = Some s \<and>
     CBB_finish (\<lambda>_. True) (\<lambda>_. 0xaa) 0 s = Some (buf, n) \<and>
     take (unat n) buf = [0, 7, 5, 0x30, 4, 2, 2, 1, 0x2c, 0, 0, 7]"
  by (rule cbb_build_complete [OF demo_calls_arg demo_calls_spec]) simp_all

end
