(* ===== verification/Ber.thy ===== *)
theory Ber
  imports Cbb
begin

unbundle bit_operations_syntax

text \<open>
  The conversion of BER with indefinite lengths to DER, \<^verbatim>\<open>crypto/bytestring/ber.c\<close>. It is a
  client of the reader and of the builder.
\<close>

section \<open>Definitions\<close>

definition kMaxDepth :: nat where
  "kMaxDepth = 2048"

lemma asn1_element_len:
  assumes "asn1_element tag hl n c = (Some (out, t, h), c')"
  shows "cbs_len out = n \<and> hl = h \<and> unat (cbs_len c) = unat (cbs_len out) + unat (cbs_len c')"
  using assms
  by (auto simp: asn1_element_def CBS_get_bytes_def cbs_get_def CBS_init_def unat_sub word_le_nat_alt
      linorder_not_less split: option.splits if_splits)

lemma any_asn1_element_len:
  assumes "CBS_get_any_asn1_element c = (Some (out, tag, hl), c')"
  shows "unat (cbs_len c) = unat (cbs_len out) + unat (cbs_len c')" "2 \<le> unat (cbs_len out)" "2 \<le> unat hl"
proof -
  obtain t l h where at: "asn1_after_tag t l h c = (Some (out, tag, hl), c')"
    using assms by (auto simp: CBS_get_any_asn1_element_def split: prod.splits option.splits)
  obtain tg hd n where el: "asn1_element tg hd n c = (Some (out, tag, hl), c')" and n: "2 \<le> unat n" "2 \<le> unat hd"
  proof -
    consider (short) "asn1_element (ucast t) 2 (ucast l + 2) c = (Some (out, tag, hl), c')"
      | (indef) "asn1_element (ucast t) 2 2 c = (Some (out, tag, hl), c')"
      | (long) len32 :: u32 and k :: size_t where "k \<le> 4"
          "asn1_element (ucast t) (2 + k) (ucast len32 + (2 + k)) c = (Some (out, tag, hl), c')"
      using at by (auto simp: asn1_after_tag_def Let_def linorder_not_less split: if_splits prod.splits option.splits)
    then show ?thesis
    proof cases
      case short
      have "unat (ucast l + 2 :: size_t) = unat l + 2"
        using unat_byte_lt [of l] by (subst unat_add_size_t) (simp_all add: unat_ucast_byte_size_t)
      then show ?thesis
        using that [OF short] by simp
    next
      case indef
      then show ?thesis
        using that by simp
    next
      case long
      have "unat k \<le> 4"
        using long(1) by (simp add: word_le_nat_alt)
      then have 2: "unat (2 + k) = 2 + unat k"
        by (subst unat_add_size_t) simp_all
      have "unat (ucast len32 + (2 + k) :: size_t) = unat len32 + (2 + unat k)"
        using 2 \<open>unat k \<le> 4\<close> unsigned_less [of len32, where 'a = nat]
        by (subst unat_add_size_t) (simp_all add: unat_ucast_u32_size_t)
      then show ?thesis
        using that [OF long(2)] 2 by simp
    qed
  qed
  show "unat (cbs_len c) = unat (cbs_len out) + unat (cbs_len c')" "2 \<le> unat (cbs_len out)" "2 \<le> unat hl"
    using asn1_element_len [OF el] n by simp_all
qed

lemma CBS_skip_len: "CBS_skip n c = (Some u, c') \<Longrightarrow> unat (cbs_len c) = unat n + unat (cbs_len c')"
  by (auto simp: CBS_skip_def cbs_get_def unat_sub word_le_nat_alt linorder_not_less split: if_splits)

text \<open>
  The walk. The state of the loop is the copy \<^verbatim>\<open>in\<close> of the argument; the value is the final
  \<^verbatim>\<open>*indefinite_found\<close>, \<open>None\<close> if 0 is returned. What a recursive call stores in
  \<^verbatim>\<open>*indefinite_found\<close> is overwritten by the loop.
\<close>

definition is_indefinite :: "cbs \<Rightarrow> size_t \<Rightarrow> bool" where
  "is_indefinite body header_len \<longleftrightarrow>
     CBS_len body = header_len \<and> 0 < header_len \<and> CBS_data body ! unat (header_len - 1) = 0x80"

function cbs_find_indefinite :: "cbs \<Rightarrow> nat \<Rightarrow> bool option" where
  "cbs_find_indefinite c depth =
     (if kMaxDepth < depth then None
      else if CBS_len c = 0 then Some False
      else
        case CBS_get_any_asn1_element c of
          (None, _) \<Rightarrow> None
        | (Some (body, tag, header_len), c') \<Rightarrow>
            if is_indefinite body header_len then Some True
            else if tag AND CBS_ASN1_CONSTRUCTED \<noteq> 0 then
              (case CBS_skip header_len body of
                 (None, _) \<Rightarrow> None
               | (Some _, body') \<Rightarrow>
                   (case cbs_find_indefinite body' (depth + 1) of
                      None \<Rightarrow> None
                    | Some _ \<Rightarrow> cbs_find_indefinite c' depth))
            else cbs_find_indefinite c' depth)"
  by pat_completeness auto

termination cbs_find_indefinite
proof (relation "measure (\<lambda>(c, depth). unat (cbs_len c) + (kMaxDepth + 1 - depth))", goal_cases)
  case 1
  then show ?case
    by simp
next
  case (2 c depth)
  then show ?case
    using any_asn1_element_len [OF sym, of _ _ _ _ c] CBS_skip_len [OF sym] by fastforce
next
  case (3 c depth)
  then show ?case
    using any_asn1_element_len [OF sym, of _ _ _ _ c] by fastforce
next
  case (4 c depth)
  then show ?case
    using any_asn1_element_len [OF sym, of _ _ _ _ c] by fastforce
qed

definition is_primitive_type :: "u32 \<Rightarrow> bool" where
  "is_primitive_type tag \<longleftrightarrow>
     tag AND 0xc0 = 0 \<and> tag AND 0x1f \<noteq> CBS_ASN1_SEQUENCE AND 0x1f \<and> tag AND 0x1f \<noteq> CBS_ASN1_SET AND 0x1f"

definition is_eoc :: "size_t \<Rightarrow> cbs \<Rightarrow> bool" where
  "is_eoc header_len body \<longleftrightarrow> header_len = 2 \<and> CBS_len body = 2 \<and> take 2 (CBS_data body) = [0, 0]"

text \<open>
  Whether the headers of the fragments inside an indefinite-length element are dropped; \<open>None\<close>
  where the look at the first fragment fails.
\<close>

definition squash_child_headers :: "u32 \<Rightarrow> cbs \<Rightarrow> bool option" where
  "squash_child_headers tag c =
     (if tag AND 0xc0 = 0x80 \<and> tag AND CBS_ASN1_CONSTRUCTED \<noteq> 0 then
        (case CBS_get_any_asn1_element (CBS_init (CBS_data c) (CBS_len c)) of
           (None, _) \<Rightarrow> None
         | (Some (inner, inner_tag, inner_header_len), _) \<Rightarrow>
             Some (is_primitive_type tag \<or> inner_header_len < CBS_len inner \<and> is_primitive_type inner_tag))
      else Some (is_primitive_type tag))"

text \<open>
  The position of the object that the contents of an element go to: a new child, or the object
  itself where the header is dropped.
\<close>

definition open_element ::
  "(size_t \<Rightarrow> bool) \<Rightarrow> (nat \<Rightarrow> byte) \<Rightarrow> bool \<Rightarrow> u32 \<Rightarrow> nat \<Rightarrow> cbb_state \<Rightarrow> (nat \<times> cbb_state) option" where
  "open_element ok fresh squash_header tag d s =
     (if squash_header then Some (d, s) else map_option (Pair (d + 1)) (CBB_add_asn1 ok fresh (ucast tag) d s))"

definition close_element ::
  "(size_t \<Rightarrow> bool) \<Rightarrow> (nat \<Rightarrow> byte) \<Rightarrow> nat \<Rightarrow> nat \<Rightarrow> cbb_state \<Rightarrow> cbb_state option" where
  "close_element ok fresh d d' s = (if d' \<noteq> d then CBB_flush ok fresh d s else Some s)"

text \<open>
  The loop of the conversion, with fuel: every iteration takes an element off the input or works
  on a shorter one, so that more fuel than there are bytes is never used up
  (\<open>cbs_convert_indefinite_fuel\<close> below). The result is the rest of the input and the state of
  the builder; \<open>out\<close> is the object at position \<open>d\<close>.
\<close>

fun cbs_convert_indefinite ::
  "nat \<Rightarrow> (size_t \<Rightarrow> bool) \<Rightarrow> (nat \<Rightarrow> byte) \<Rightarrow> cbs \<Rightarrow> nat \<Rightarrow> cbb_state \<Rightarrow> bool \<Rightarrow> bool \<Rightarrow> nat \<Rightarrow>
     (cbs \<times> cbb_state) option" where
  "cbs_convert_indefinite 0 ok fresh c d s squash_header looking_for_eoc depth = None"
| "cbs_convert_indefinite (Suc fuel) ok fresh c d s squash_header looking_for_eoc depth =
     (if kMaxDepth < depth then None
      else if CBS_len c = 0 then (if looking_for_eoc then None else Some (c, s))
      else
        case CBS_get_any_asn1_element c of
          (None, _) \<Rightarrow> None
        | (Some (body, tag, header_len), c) \<Rightarrow>
            if CBS_len body = header_len \<and> is_eoc header_len body then
              (if looking_for_eoc then Some (c, s) else None)
            else if is_indefinite body header_len then
              (case squash_child_headers tag c of
                 None \<Rightarrow> None
               | Some squash_child \<Rightarrow>
                   (case open_element ok fresh squash_header
                      (if squash_child then tag AND NOT CBS_ASN1_CONSTRUCTED else tag) d s of
                      None \<Rightarrow> None
                    | Some (d', s) \<Rightarrow>
                        (case cbs_convert_indefinite fuel ok fresh c d' s squash_child True (depth + 1) of
                           None \<Rightarrow> None
                         | Some (c, s) \<Rightarrow>
                             (case close_element ok fresh d d' s of
                                None \<Rightarrow> None
                              | Some s \<Rightarrow>
                                  cbs_convert_indefinite fuel ok fresh c d s squash_header looking_for_eoc depth))))
            else
              (case open_element ok fresh squash_header tag d s of
                 None \<Rightarrow> None
               | Some (d', s) \<Rightarrow>
                   (case CBS_skip header_len body of
                      (None, _) \<Rightarrow> None
                    | (Some _, body) \<Rightarrow>
                        (case
                           (if tag AND CBS_ASN1_CONSTRUCTED \<noteq> 0 then
                              map_option snd (cbs_convert_indefinite fuel ok fresh body d' s False False (depth + 1))
                            else CBB_add_bytes ok fresh (take (unat (CBS_len body)) (CBS_data body)) d' s) of
                           None \<Rightarrow> None
                         | Some s \<Rightarrow>
                             (case close_element ok fresh d d' s of
                                None \<Rightarrow> None
                              | Some s \<Rightarrow>
                                  cbs_convert_indefinite fuel ok fresh c d s squash_header looking_for_eoc depth)))))"

text \<open>
  The result is the converted string, \<open>Some None\<close> where \<^verbatim>\<open>*out\<close> is set to NULL because no
  conversion is needed.
\<close>

definition CBS_asn1_indefinite_to_definite ::
  "(size_t \<Rightarrow> bool) \<Rightarrow> (nat \<Rightarrow> byte) \<Rightarrow> cbs \<Rightarrow> (byte list \<times> size_t) option option" where
  "CBS_asn1_indefinite_to_definite ok fresh c =
     (case cbs_find_indefinite c 0 of
        None \<Rightarrow> None
      | Some False \<Rightarrow> Some None
      | Some True \<Rightarrow>
          (case CBB_init ok fresh (CBS_len c) of
             None \<Rightarrow> None
           | Some s \<Rightarrow>
               (case cbs_convert_indefinite (Suc (unat (CBS_len c))) ok fresh c 0 s False False 0 of
                  None \<Rightarrow> None
                | Some (_, s) \<Rightarrow> map_option Some (CBB_finish ok fresh 0 s))))"

section \<open>Enough fuel\<close>

lemma convert_len:
  "cbs_convert_indefinite fuel ok fresh c d s sq eoc depth = Some (c', s') \<Longrightarrow> unat (cbs_len c') \<le> unat (cbs_len c)"
proof (induction fuel arbitrary: c d s sq eoc depth c' s')
  case (Suc fuel)
  show ?case
  proof (cases "CBS_len c = 0 \<or> kMaxDepth < depth")
    case True
    then show ?thesis
      using Suc.prems by (auto split: if_splits)
  next
    case False
    then obtain body tag hl c1 where el: "CBS_get_any_asn1_element c = (Some (body, tag, hl), c1)"
      using Suc.prems by (auto split: prod.splits option.splits)
    note len = any_asn1_element_len [OF el]
    consider "c' = c1" | c2 d2 s2 where "unat (cbs_len c2) \<le> unat (cbs_len c1)"
      "cbs_convert_indefinite fuel ok fresh c2 d2 s2 sq eoc depth = Some (c', s')"
      using Suc.prems False el
      by (auto split: if_splits option.splits prod.splits) (blast dest: Suc.IH)+
    then show ?thesis
      using len Suc.IH by cases fastforce+
  qed
qed simp


lemma cbs_convert_indefinite_fuel:
  assumes "unat (cbs_len c) < m" "unat (cbs_len c) < n"
  shows "cbs_convert_indefinite m ok fresh c d s sq eoc depth = cbs_convert_indefinite n ok fresh c d s sq eoc depth"
  using assms
proof (induction m arbitrary: n c d s sq eoc depth)
  case (Suc m)
  then obtain n' where n: "n = Suc n'"
    by (cases n) auto
  show ?case
  proof (cases "fst (CBS_get_any_asn1_element c)")
    case None
    then show ?thesis
      unfolding n by (auto split: prod.splits)
  next
    case (Some e)
    then obtain body tag hl c1 where el: "CBS_get_any_asn1_element c = (Some (body, tag, hl), c1)"
      by (metis prod.collapse prod_cases3)
    note len = any_asn1_element_len [OF el]
    have rec: "cbs_convert_indefinite m ok fresh x d s sq eoc depth = cbs_convert_indefinite n' ok fresh x d s sq eoc depth"
      if "unat (cbs_len x) < unat (cbs_len c)" for x d s sq eoc depth
      using that Suc.prems n by (intro Suc.IH) auto
    have r1: "cbs_convert_indefinite m ok fresh c1 = cbs_convert_indefinite n' ok fresh c1"
      using len by (intro ext rec) simp
    have r2: "cbs_convert_indefinite m ok fresh c2 = cbs_convert_indefinite n' ok fresh c2"
      if "cbs_convert_indefinite n' ok fresh c1 d s sq eoc depth = Some (c2, s2)" for d s sq eoc depth c2 s2
      using len convert_len [OF that] by (intro ext rec) simp
    have r3: "cbs_convert_indefinite m ok fresh body' = cbs_convert_indefinite n' ok fresh body'"
      if "CBS_skip hl body = (Some u, body')" for u body'
      using len CBS_skip_len [OF that] Suc.prems by (intro ext rec) simp
    show ?thesis
      unfolding n cbs_convert_indefinite.simps el prod.case option.case r1
      apply (intro if_cong option.case_cong prod.case_cong refl)
      subgoal by (metis r2)
      subgoal by (metis r3)
      done
  qed
qed simp

section \<open>What the walk finds\<close>

definition elements :: "(byte \<times> byte list) list \<Rightarrow> byte list" where
  "elements es = concat (map (\<lambda>(t, body). der t body) es)"

definition elements_ok :: "(byte \<times> byte list) list \<Rightarrow> bool" where
  "elements_ok es \<longleftrightarrow> list_all (\<lambda>(t, body). low_tag t \<and> length body < 2 ^ 32) es"

lemma is_indefinite_iff:
  assumes "cbs_wf out" "2 \<le> unat hl"
    "definite_element (cbs_bytes out) t (unat hl) \<or> indefinite_header (cbs_bytes out) t (unat hl)"
  shows "is_indefinite out hl \<longleftrightarrow> indefinite_header (cbs_bytes out) t (unat hl)"
proof -
  have len: "length (cbs_bytes out) = unat (cbs_len out)"
    using assms(1) by simp
  have hl: "unat (hl - 1) = unat hl - 1" "0 < hl"
    using assms(2) by (simp_all add: unat_sub word_le_nat_alt word_less_nat_alt)
  show ?thesis
  proof (cases "indefinite_header (cbs_bytes out) t (unat hl)")
    case True
    then have "cbs_bytes out = [t, 0x80]" "unat hl = 2"
      by (auto simp: indefinite_header_def)
    moreover from this have "cbs_len out = hl"
      using len by (simp add: word_unat_eq_iff)
    moreover have "cbs_data out ! 1 = cbs_bytes out ! 1"
      using calculation by (subst nth_cbs_data) simp_all
    ultimately show ?thesis
      using True hl by (simp add: is_indefinite_def CBS_len_def CBS_data_def)
  next
    case False
    then obtain body where body: "cbs_bytes out = der t body" "unat hl = length (der t body) - length body"
      using assms(3) by (auto simp: definite_element_def)
    have "\<not> is_indefinite out hl"
    proof
      assume "is_indefinite out hl"
      then have "cbs_len out = hl" "cbs_data out ! (unat hl - 1) = 0x80"
        using hl by (simp_all add: is_indefinite_def CBS_len_def CBS_data_def)
      moreover from this have "body = []"
        using len body by (simp add: der_def)
      ultimately show False
        using body assms(2) nth_cbs_data [of "unat hl - 1" out] by (simp add: der_def der_length_def)
    qed
    then show ?thesis
      using False by simp
  qed
qed

declare cbs_find_indefinite.simps [simp del]

lemma cbs_find_indefinite_elements:
  assumes "cbs_wf c" "cbs_find_indefinite c depth = Some b"
  shows "\<exists>es. elements_ok es \<and>
    (if b then \<exists>t rest. indefinite_header [t, 0x80] t 2 \<and> cbs_bytes c = elements es @ [t, 0x80] @ rest
     else cbs_bytes c = elements es)"
  using assms
proof (induction "unat (cbs_len c)" arbitrary: c b rule: less_induct)
  case less
  note step = less.prems(2) [unfolded cbs_find_indefinite.simps [of c depth]]
  have depth: "\<not> kMaxDepth < depth"
    using step by (auto split: if_splits)
  show ?case
  proof (cases "CBS_len c = 0")
    case True
    then have "cbs_bytes c = elements [] \<and> \<not> b"
      using step depth by (simp add: elements_def cbs_bytes_def CBS_len_def)
    then show ?thesis
      by (auto simp: elements_ok_def intro!: exI [of _ "[]"])
  next
    case False
    then obtain out tag hl c1 where el: "CBS_get_any_asn1_element c = (Some (out, tag, hl), c1)"
      using step depth by (auto split: prod.splits option.splits)
    obtain t where t: "tag = ucast t" "low_tag t" "cbs_wf out" "cbs_wf c1" "cbs_bytes c = cbs_bytes out @ cbs_bytes c1"
      "definite_element (cbs_bytes out) t (unat hl) \<or> indefinite_header (cbs_bytes out) t (unat hl)"
      using any_asn1_element_sound [OF less.prems(1) el] .
    note ind = is_indefinite_iff [OF t(3) any_asn1_element_len(3) [OF el] t(6)]
    show ?thesis
    proof (cases "is_indefinite out hl")
      case True
      then have "b" "cbs_bytes out = [t, 0x80]" "indefinite_header [t, 0x80] t 2"
        using step el False depth ind by (auto simp: indefinite_header_def)
      then show ?thesis
        using t(5) by (intro exI [of _ "[]"]) (auto simp: elements_def elements_ok_def)
    next
      case nind: False
      then have rec: "cbs_find_indefinite c1 depth = Some b"
        using step el False depth by (auto split: if_splits option.splits prod.splits)
      obtain body where body: "cbs_bytes out = der t body" "length body < 2 ^ 32"
        using t(6) nind ind by (auto simp: definite_element_def)
      have "\<exists>es. elements_ok es \<and>
        (if b then \<exists>t rest. indefinite_header [t, 0x80] t 2 \<and> cbs_bytes c1 = elements es @ [t, 0x80] @ rest
         else cbs_bytes c1 = elements es)"
        using any_asn1_element_len [OF el] rec t(4) by (intro less.hyps) simp_all
      then obtain es where "elements_ok es" "if b then \<exists>t rest. indefinite_header [t, 0x80] t 2 \<and> cbs_bytes c1 = elements es @ [t, 0x80] @ rest
         else cbs_bytes c1 = elements es"
        by blast
      then show ?thesis
        using t(2,5) body by (intro exI [of _ "(t, body) # es"]) (auto simp: elements_def elements_ok_def split: if_splits)
    qed
  qed
qed


text \<open>
  C19. If \<^verbatim>\<open>cbs_find_indefinite\<close> succeeds and reports that an indefinite-length element was found,
  then the input is a sequence of definite-length DER elements followed by an indefinite-length header
  at the top level; if it reports that none was found, then the whole input is a sequence of
  definite-length DER elements.
\<close>

theorem cbs_find_indefinite_top_level:
  assumes "cbs_wf c" "cbs_find_indefinite c depth = Some b"
  shows "\<exists>es. elements_ok es \<and>
    (if b then \<exists>t rest. indefinite_header [t, 0x80] t 2 \<and> cbs_bytes c = elements es @ [t, 0x80] @ rest
     else cbs_bytes c = elements es)"
  using assms by (rule cbs_find_indefinite_elements)

lemmas find_indefinite_eval = cbs_find_indefinite.simps kMaxDepth_def CBS_len_def CBS_data_def CBS_get_any_asn1_element_def CBS_get_u8_def
  cbs_get_def cbs_of_def CBS_init_def asn1_after_tag_def asn1_element_def CBS_get_bytes_def is_indefinite_def
  CBS_ASN1_CONSTRUCTED_def CBS_skip_def

lemma find_indefinite_demo: "cbs_find_indefinite (cbs_of [2, 1, 5, 0x30, 0x80, 0, 0]) 0 = Some True"
  by (simp add: find_indefinite_eval)

theorem cbs_find_indefinite_top_level_witness:
  "\<exists>es t rest. elements_ok es \<and> cbs_bytes (cbs_of [2, 1, 5, 0x30, 0x80, 0, 0]) = elements es @ [t, 0x80] @ rest"
  using cbs_find_indefinite_top_level [OF cbs_of(1) find_indefinite_demo] by auto


end
