(* ===== verification/Md32.thy ===== *)
theory Md32
  imports Prelude
begin

unbundle bit_operations_syntax

text \<open>
  The collector and padding code that the 32-bit hash functions share, \<^verbatim>\<open>crypto/md32_common.h\<close>.
  The header is a template: \<^verbatim>\<open>HASH_BLOCK_DATA_ORDER\<close>, \<^verbatim>\<open>HASH_LONG\<close> and the byte order are macros of
  the including file, arguments of the definitions here. \<^verbatim>\<open>num\<close> and lengths of data are natural
  numbers: \<^verbatim>\<open>num\<close> stays below the block size. The bit counter is kept in its two 32-bit halves.
\<close>

section \<open>Definitions\<close>

definition ROTATE :: "u32 \<Rightarrow> nat \<Rightarrow> u32" where
  "ROTATE a n = push_bit n a OR drop_bit (32 - n) a"

text \<open>\<^verbatim>\<open>HOST_c2l\<close> and \<^verbatim>\<open>HOST_l2c\<close> of the two byte orders.\<close>

definition HOST_c2l_be :: "byte list \<Rightarrow> nat \<Rightarrow> u32" where
  "HOST_c2l_be c i =
     push_bit 24 (ucast (c ! i)) OR push_bit 16 (ucast (c ! (i + 1))) OR push_bit 8 (ucast (c ! (i + 2))) OR ucast (c ! (i + 3))"

definition HOST_l2c_be :: "u32 \<Rightarrow> byte list" where
  "HOST_l2c_be l =
     [ucast (drop_bit 24 l AND 0xff), ucast (drop_bit 16 l AND 0xff), ucast (drop_bit 8 l AND 0xff), ucast (l AND 0xff)]"

definition HOST_c2l_le :: "byte list \<Rightarrow> nat \<Rightarrow> u32" where
  "HOST_c2l_le c i =
     ucast (c ! i) OR push_bit 8 (ucast (c ! (i + 1))) OR push_bit 16 (ucast (c ! (i + 2))) OR push_bit 24 (ucast (c ! (i + 3)))"

definition HOST_l2c_le :: "u32 \<Rightarrow> byte list" where
  "HOST_l2c_le l =
     [ucast (l AND 0xff), ucast (drop_bit 8 l AND 0xff), ucast (drop_bit 16 l AND 0xff), ucast (drop_bit 24 l AND 0xff)]"

text \<open>The loop of a block function over \<open>n\<close> blocks of \<open>B\<close> bytes; \<open>blk\<close> does one block.\<close>

fun block_data_order :: "nat \<Rightarrow> ('h \<Rightarrow> byte list \<Rightarrow> 'h) \<Rightarrow> 'h \<Rightarrow> byte list \<Rightarrow> nat \<Rightarrow> 'h" where
  "block_data_order B blk h data 0 = h"
| "block_data_order B blk h data (Suc n) = block_data_order B blk (blk h (take B data)) (drop B data) n"

record 'h hash_ctx =
  hc_h :: 'h
  hc_Nl :: u32
  hc_Nh :: u32
  hc_data :: "byte list"
  hc_num :: nat

text \<open>The bit counter for \<^verbatim>\<open>HASH_LONG\<close> of 32 and of 64 bits.\<close>

definition count_u32 :: "u32 \<Rightarrow> u32 \<Rightarrow> size_t \<Rightarrow> u32 \<times> u32" where
  "count_u32 Nl Nh n =
     (let l = (Nl + push_bit 3 (ucast n)) AND 0xffffffff;
          Nh = (if l < Nl then Nh + 1 else Nh)
      in (l, Nh + ucast (drop_bit 29 n)))"

definition count_u64 :: "u32 \<Rightarrow> u32 \<Rightarrow> size_t \<Rightarrow> u32 \<times> u32" where
  "count_u64 Nl Nh n =
     (let l = (ucast Nl + push_bit 3 n) AND 0xffffffff :: u64;
          Nh = (if l < ucast Nl then Nh + 1 else Nh)
      in (ucast l, Nh + ucast (drop_bit 29 n)))"

text \<open>
  \<^verbatim>\<open>HASH_UPDATE\<close> tops up a partly filled buffer first; \<open>hash_whole_blocks\<close> is what follows: the
  whole blocks, from where they are, and then the rest into the buffer.
\<close>

definition hash_whole_blocks :: "('h \<Rightarrow> byte list \<Rightarrow> 'h) \<Rightarrow> ('h, 'z) hash_ctx_scheme \<Rightarrow> byte list \<Rightarrow> ('h, 'z) hash_ctx_scheme" where
  "hash_whole_blocks blk ctx data =
     (let n = length data div 64;
          (ctx, data) =
            (if 0 < n then (ctx\<lparr>hc_h := block_data_order 64 blk (hc_h ctx) data n\<rparr>, drop (n * 64) data)
             else (ctx, data))
      in
      if length data \<noteq> 0 then ctx\<lparr>hc_num := length data, hc_data := put_at 0 data (hc_data ctx)\<rparr>
      else ctx)"

definition HASH_UPDATE ::
  "(u32 \<Rightarrow> u32 \<Rightarrow> size_t \<Rightarrow> u32 \<times> u32) \<Rightarrow> ('h \<Rightarrow> byte list \<Rightarrow> 'h) \<Rightarrow> ('h, 'z) hash_ctx_scheme \<Rightarrow> byte list \<Rightarrow> ('h, 'z) hash_ctx_scheme" where
  "HASH_UPDATE count blk ctx data =
     (if length data = 0 then ctx
      else
        let (Nl, Nh) = count (hc_Nl ctx) (hc_Nh ctx) (of_nat (length data));
            ctx = ctx\<lparr>hc_Nl := Nl, hc_Nh := Nh\<rparr>;
            n = hc_num ctx
        in
        if n \<noteq> 0 then
          if 64 \<le> length data \<or> 64 \<le> length data + n then
            let p = put_at n (take (64 - n) data) (hc_data ctx) in
            hash_whole_blocks blk
              (ctx\<lparr>hc_h := block_data_order 64 blk (hc_h ctx) p 1, hc_num := 0, hc_data := replicate 64 0\<rparr>)
              (drop (64 - n) data)
          else ctx\<lparr>hc_data := put_at n data (hc_data ctx), hc_num := hc_num ctx + length data\<rparr>
        else hash_whole_blocks blk ctx data)"

definition HASH_TRANSFORM :: "('h \<Rightarrow> byte list \<Rightarrow> 'h) \<Rightarrow> ('h, 'z) hash_ctx_scheme \<Rightarrow> byte list \<Rightarrow> ('h, 'z) hash_ctx_scheme" where
  "HASH_TRANSFORM blk ctx data = ctx\<lparr>hc_h := block_data_order 64 blk (hc_h ctx) data 1\<rparr>"

text \<open>
  \<^verbatim>\<open>HASH_FINAL\<close> up to \<^verbatim>\<open>HASH_MAKE_STRING\<close>, which belongs to the including file; \<open>be\<close> is
  \<^verbatim>\<open>DATA_ORDER_IS_BIG_ENDIAN\<close>.
\<close>

definition HASH_FINAL :: "bool \<Rightarrow> ('h \<Rightarrow> byte list \<Rightarrow> 'h) \<Rightarrow> ('h, 'z) hash_ctx_scheme \<Rightarrow> ('h, 'z) hash_ctx_scheme" where
  "HASH_FINAL be blk ctx =
     (let p = (hc_data ctx)[hc_num ctx := 0x80];
          n = hc_num ctx + 1;
          (p, n, h) =
            (if 64 - 8 < n then
               (let p = put_at n (replicate (64 - n) 0) p in (p, 0, block_data_order 64 blk (hc_h ctx) p 1))
             else (p, n, hc_h ctx));
          p = put_at n (replicate (64 - 8 - n) 0) p;
          p = put_at (64 - 8)
                (if be then HOST_l2c_be (hc_Nh ctx) @ HOST_l2c_be (hc_Nl ctx)
                 else HOST_l2c_le (hc_Nl ctx) @ HOST_l2c_le (hc_Nh ctx)) p;
          h = block_data_order 64 blk h p 1
      in ctx\<lparr>hc_h := h, hc_num := 0, hc_data := replicate 64 0\<rparr>)"

section \<open>Streaming\<close>

text \<open>The blocks of a message, whatever the pieces it arrives in.\<close>

lemma block_data_order_append:
  "n * B \<le> length xs \<Longrightarrow> block_data_order B blk h (xs @ ys) n = block_data_order B blk h xs n"
  by (induction n arbitrary: h xs) auto

lemma block_data_order_add:
  "block_data_order B blk h data (m + n) = block_data_order B blk (block_data_order B blk h data m) (drop (m * B) data) n"
  by (induction m arbitrary: h data) (simp_all add: add.commute)

lemma block_data_order_snoc:
  "block_data_order B blk h data (Suc n) = blk (block_data_order B blk h data n) (take B (drop (n * B) data))"
  using block_data_order_add [of B blk h data n 1] by simp

text \<open>
  The state of a collector with block size \<open>B\<close> after \<open>msg\<close>: the complete blocks have been
  processed, the rest waits in the buffer.
\<close>

definition stream_rep :: "nat \<Rightarrow> ('h \<Rightarrow> byte list \<Rightarrow> 'h) \<Rightarrow> 'h \<Rightarrow> byte list \<Rightarrow> 'h \<Rightarrow> byte list \<Rightarrow> nat \<Rightarrow> bool" where
  "stream_rep B blk h0 msg h data num \<longleftrightarrow>
     length data = B \<and> num = length msg mod B \<and> h = block_data_order B blk h0 msg (length msg div B) \<and>
     take num data = drop (length msg div B * B) msg"

lemma stream_rep_short:
  assumes "stream_rep B blk h0 msg h data num" "num + length d < B"
  shows "stream_rep B blk h0 (msg @ d) h (put_at num d data) (num + length d)"
proof -
  let ?q = "length msg div B"
  have r: "num = length msg mod B" "length data = B" "h = block_data_order B blk h0 msg ?q" "take num data = drop (?q * B) msg"
    using assms(1) unfolding stream_rep_def by blast+
  have len: "length (msg @ d) = ?q * B + (num + length d)"
    using r(1) by simp
  have q: "length (msg @ d) div B = ?q" and n: "length (msg @ d) mod B = num + length d"
    unfolding len using assms(2) by simp_all
  show ?thesis
    unfolding stream_rep_def q n
    using assms(2) r take_put_at [of num d data] by (simp add: length_put_at block_data_order_append)
qed

lemma stream_rep_blocks:
  assumes "stream_rep B blk h0 msg h data 0" "0 < B" "n * B \<le> length d"
  shows "stream_rep B blk h0 (msg @ take (n * B) d) (block_data_order B blk h d n) data 0"
proof -
  let ?q = "length msg div B"
  have r: "length msg mod B = 0" "length data = B" "h = block_data_order B blk h0 msg ?q"
    using assms(1) by (auto simp: stream_rep_def)
  then have len: "length msg = ?q * B"
    by (metis add.right_neutral div_mult_mod_eq)
  then have len': "length (msg @ take (n * B) d) = (?q + n) * B"
    using assms(3) by (simp add: algebra_simps)
  have "block_data_order B blk h0 (msg @ take (n * B) d) (?q + n) = block_data_order B blk h (take (n * B) d) n"
    using len r(3) by (simp add: block_data_order_add block_data_order_append)
  also have "\<dots> = block_data_order B blk h d n"
    using assms(3) block_data_order_append [of n B "take (n * B) d" blk h "drop (n * B) d"] by simp
  finally show ?thesis
    unfolding stream_rep_def len' using assms(2) r(2) len' by simp
qed

lemma stream_rep_fill:
  assumes "stream_rep B blk h0 msg h data num" "0 < B" "B \<le> num + length d" "length data' = B"
  shows "stream_rep B blk h0 (msg @ take (B - num) d) (blk h (put_at num (take (B - num) d) data)) data' 0"
proof -
  let ?q = "length msg div B"
  have r: "num = length msg mod B" "length data = B" "h = block_data_order B blk h0 msg ?q" "take num data = drop (?q * B) msg"
    using assms(1) unfolding stream_rep_def by blast+
  have lt: "num < B"
    using r(1) assms(2) by simp
  have lenm: "length msg = ?q * B + num"
    using r(1) by simp
  then have len: "length (msg @ take (B - num) d) = Suc ?q * B"
    using assms(3) lt by (simp add: algebra_simps)
  have "B + ?q * B - length msg = B - num"
    using lenm lt by linarith
  then have "take B (drop (?q * B) (msg @ take (B - num) d)) = put_at num (take (B - num) d) data"
    using r(2,4) lenm assms(3) lt by (simp add: put_at_def)
  then have "block_data_order B blk h0 (msg @ take (B - num) d) (Suc ?q) = blk h (put_at num (take (B - num) d) data)"
    using lenm r(3) by (simp add: block_data_order_snoc block_data_order_append del: block_data_order.simps)
  then show ?thesis
    unfolding stream_rep_def len using assms(2,4) len by (simp del: block_data_order.simps)
qed


text \<open>
  The blocks of a message, and the padded message: a 1 bit, zeros and the length, \<open>lb\<close>, up to a multiple of the block size.
\<close>

definition md_blocks :: "nat \<Rightarrow> byte list \<Rightarrow> byte list list" where
  "md_blocks B m = map (\<lambda>i. take B (drop (i * B) m)) [0..<length m div B]"

lemma foldl_md_blocks: "foldl blk h (md_blocks B m) = block_data_order B blk h m (length m div B)"
proof -
  have "foldl blk h (map (\<lambda>i. take B (drop (i * B) m)) [0..<n]) = block_data_order B blk h m n" for n
    by (induction n) (simp_all add: block_data_order_snoc del: block_data_order.simps(2))
  then show ?thesis
    by (simp add: md_blocks_def)
qed

definition md_pad :: "nat \<Rightarrow> byte list \<Rightarrow> byte list \<Rightarrow> byte list" where
  "md_pad B lb msg = msg @ [0x80] @ replicate ((2 * B - 1 - length lb - length msg mod B) mod B) 0 @ lb"

lemma md_pad_zeros:
  assumes "num = length msg mod B" "length lb + 1 \<le> B"
  shows "(2 * B - 1 - length lb - length msg mod B) mod B =
    (if B - length lb < num + 1 then 2 * B - 1 - length lb - num else B - 1 - length lb - num)"
proof -
  have lt: "num < B"
    using assms by simp
  have "(2 * B - 1 - length lb - num) mod B = B - 1 - length lb - num" if "\<not> B - length lb < num + 1"
  proof -
    have "2 * B - 1 - length lb - num = B + (B - 1 - length lb - num)"
      using assms(2) that by linarith
    then show ?thesis
      using lt by (simp only: mod_add_self1) simp
  qed
  moreover have "2 * B - 1 - length lb - num < B" if "B - length lb < num + 1"
    using that lt assms(2) by linarith
  ultimately show ?thesis
    using assms(1) by auto
qed

lemma length_md_pad: 
  assumes "length lb + 1 \<le> B"
  shows "B dvd length (md_pad B lb msg)"
proof -
  let ?n = "length msg mod B"
  have "length (md_pad B lb msg) = length msg div B * B +
      (?n + 1 + (2 * B - 1 - length lb - ?n) mod B + length lb)"
    by (simp add: md_pad_def)
  moreover have "n + 1 + (if B - length lb < n + 1 then 2 * B - 1 - length lb - n else B - 1 - length lb - n) + length lb =
      (if B - length lb < n + 1 then 2 * B else B)" if "n < B" for n
    using that assms by auto
  then have "?n + 1 + (2 * B - 1 - length lb - ?n) mod B + length lb = (if B - length lb < ?n + 1 then 2 * B else B)"
    unfolding md_pad_zeros [OF refl assms] using assms by simp
  ultimately have "length (md_pad B lb msg) = length msg div B * B + (if B - length lb < ?n + 1 then 2 * B else B)"
    by (simp only:)
  then show ?thesis
    by (simp only:) (auto intro: dvd_add)
qed

text \<open>
  The end of a message in a buffer: the 0x80 byte, an extra block if the length does not fit, the
  length.
\<close>

lemma stream_rep_final:
  assumes rep: "stream_rep B blk h0 msg h data num" and L: "length lb + 1 \<le> B"
    and fin: "(let p = data[num := 0x80]; n = num + 1;
        (p, n, h) = (if B - length lb < n then
             (let p = put_at n (replicate (B - n) 0) p in (p, 0, blk h p)) else (p, n, h));
        p = put_at n (replicate (B - length lb - n) 0) p;
        p = put_at (B - length lb) lb p
      in blk h p) = h'"
  shows "h' = block_data_order B blk h0 (md_pad B lb msg) (length (md_pad B lb msg) div B)"
proof -
  let ?q = "length msg div B" and ?tail = "drop (length msg div B * B) msg"
  have r: "num = length msg mod B" "length data = B" "h = block_data_order B blk h0 msg ?q" "take num data = ?tail"
    using rep unfolding stream_rep_def by blast+
  have lt: "num < B" and B: "0 < B"
    using r(1) L by simp_all
  have lenm: "length msg = ?q * B + num"
    using r(1) by simp
  have p0: "data[num := 0x80] = ?tail @ [0x80] @ drop (num + 1) data"
    using lt r by (simp add: upd_conv_take_nth_drop)
  have lt': "length ?tail = num"
    using lenm by simp
  have split: "h' = block_data_order B blk h0 (md_pad B lb msg) (length (md_pad B lb msg) div B)"
    if "md_pad B lb msg = take (?q * B) msg @ ps" "length ps = n * B" "h' = block_data_order B blk h ps n" for ps n
  proof -
    have lt: "length (take (?q * B) msg) = ?q * B"
      using lenm by simp
    then have "length (md_pad B lb msg) div B = ?q + n"
      unfolding that(1) using that(2) B by (simp add: algebra_simps flip: distrib_right)
    moreover have "block_data_order B blk h0 (take (?q * B) msg) ?q = h"
      using block_data_order_append [of ?q B "take (?q * B) msg" blk h0 ?tail] lt r(3) by simp
    then have "block_data_order B blk h0 (take (?q * B) msg @ ps) (?q + n) = block_data_order B blk h ps n"
      using lt by (subst block_data_order_add) (simp add: block_data_order_append)
    ultimately show ?thesis
      using that by simp
  qed
  have len0: "length ?tail = num"
    using lenm by simp
  show ?thesis
  proof (cases "B - length lb < num + 1")
    case True
    define p1 where "p1 = ?tail @ [0x80] @ replicate (B - (num + 1)) 0"
    define p2 where "p2 = replicate (B - length lb) 0 @ lb"
    have len: "length p1 = B" "length p2 = B"
      using lt len0 L by (simp_all add: p1_def p2_def)
    have 1: "put_at (num + 1) (replicate (B - (num + 1)) 0) (data[num := 0x80]) = p1"
      using lt len0 r(2) by (simp add: p0 put_at_def p1_def)
    have 2: "put_at (B - length lb) lb (put_at 0 (replicate (B - length lb - 0) 0) p1) = p2"
      using len L by (simp add: put_at_def p2_def)
    have z: "2 * B - 1 - length lb - num = (B - (num + 1)) + (B - length lb)"
      using lt L by linarith
    show ?thesis
    proof (rule split [of "p1 @ p2" 2])
      show "md_pad B lb msg = take (?q * B) msg @ p1 @ p2"
        unfolding md_pad_def md_pad_zeros [OF r(1) L] if_P [OF True] z p1_def p2_def replicate_add
        by (simp flip: append_assoc)
      show "h' = block_data_order B blk h (p1 @ p2) 2"
        using fin [unfolded Let_def 1] True 2 len by (simp add: numeral_2_eq_2)
    qed (simp add: len)
  next
    case False
    define p where "p = ?tail @ [0x80] @ replicate (B - length lb - (num + 1)) 0 @ lb"
    have len: "length p = B"
      using lt len0 False L by (simp add: p_def)
    have 1: "put_at (B - length lb) lb (put_at (num + 1) (replicate (B - length lb - (num + 1)) 0) (data[num := 0x80])) = p"
    proof -
      have "B - (length lb + num) = Suc (B - Suc (length lb + num))"
        using False by linarith
      then show ?thesis
        using lt len0 r(2) False by (simp add: p0 put_at_def p_def)
    qed
    have z: "B - 1 - length lb - num = B - length lb - (num + 1)"
      by simp
    show ?thesis
    proof (rule split [of p 1])
      show "md_pad B lb msg = take (?q * B) msg @ p"
        unfolding md_pad_def md_pad_zeros [OF r(1) L] if_not_P [OF False] z p_def
        by (simp flip: append_assoc)
      show "h' = block_data_order B blk h p 1"
        using fin False 1 len by (simp add: Let_def)
    qed (simp add: len)
  qed
qed

section \<open>The bit counter\<close>

definition bit_count :: "u32 \<times> u32 \<Rightarrow> nat" where
  "bit_count N = unat (fst N) + 2 ^ 32 * unat (snd N)"

lemma count_arith:
  fixes a b k M D :: nat
  assumes "a < M" and M: "M = 8 * D" "0 < D" and l: "l = (a + 8 * k mod M) mod M"
  shows "l + M * ((b + (if l < a then 1 else 0) + k div D) mod M) = (a + M * b + 8 * k) mod (M * M)"
proof -
  let ?r = "8 * k mod M" and ?q = "k div D"
  define c :: nat where "c = (a + ?r) div M"
  have pos: "0 < M"
    using M by simp
  have k: "8 * k = ?r + M * ?q"
  proof -
    have "8 * k div M = ?q"
      unfolding M(1) by (rule div_mult_mult1) simp
    then show ?thesis
      using mod_mult_div_eq [of "8 * k" M] by metis
  qed
  have r: "?r < M"
    using pos by simp
  then have "a + ?r < 2 * M"
    using assms(1) by linarith
  then have c1: "c = (if a + ?r < M then 0 else 1)"
    unfolding c_def by (auto intro!: div_nat_eqI)
  have sum: "a + ?r = l + M * c"
    unfolding l c_def by simp
  have c: "c = (if l < a then 1 else 0)"
    using sum c1 r by (cases "a + ?r < M") simp_all
  have "a + M * b + 8 * k = (a + ?r) + (M * b + M * ?q)"
    by (subst k) (simp only: ac_simps)
  then have "a + M * b + 8 * k = l + M * (b + c + ?q)"
    unfolding sum by (simp only: distrib_left ac_simps)
  then have "(a + M * b + 8 * k) mod (M * M) =
      M * ((l + M * (b + c + ?q)) div M mod M) + (l + M * (b + c + ?q)) mod M"
    by (simp only: mod_mult2_eq)
  also have "M * ((l + M * s) div M mod M) + (l + M * s) mod M = l + M * (s mod M)" for s :: nat
    using l pos by simp
  finally show ?thesis
    using c by simp
qed

lemma unat_add_shift: "unat (Nl + push_bit 3 (ucast (n :: size_t)) :: u32) = (unat Nl + 8 * unat n) mod 2 ^ 32"
  by (simp add: unat_word_ariths unat_push_bit unsigned_ucast_eq take_bit_eq_mod mult.commute mod_simps)

lemma count_u32: "bit_count (count_u32 Nl Nh n) = (bit_count (Nl, Nh) + 8 * unat n) mod 2 ^ 64"
proof -
  let ?l = "Nl + push_bit 3 (ucast n) :: u32"
  have l: "unat ?l = (unat Nl + 8 * unat n mod 2 ^ 32) mod 2 ^ 32"
    by (simp only: unat_add_shift mod_add_right_eq)
  have d: "unat (ucast (drop_bit 29 n) :: u32) = unat n div 2 ^ 29 mod 2 ^ 32"
    by (simp add: unsigned_ucast_eq take_bit_eq_mod unat_drop_bit)
  have "unat ((if ?l < Nl then Nh + 1 else Nh) + ucast (drop_bit 29 n)) =
     (unat Nh + (if unat ?l < unat Nl then 1 else 0) + unat n div 2 ^ 29) mod 2 ^ 32"
    using d by (simp add: unat_word_ariths word_less_nat_alt mod_simps)
  then show ?thesis
    using count_arith [OF _ _ _ l, of "2 ^ 29" "unat Nh"] unsigned_less [of Nl, where 'a = nat]
    by (simp add: bit_count_def count_u32_def Let_def)
qed

lemma count_u64_eq: "count_u64 Nl Nh n = count_u32 Nl Nh n"
proof -
  let ?l = "Nl + push_bit 3 (ucast n) :: u32" and ?m = "(ucast Nl + push_bit 3 n) AND 0xffffffff :: u64"
  have "?m = take_bit 32 (ucast Nl + push_bit 3 n)"
    by (simp add: take_bit_eq_mask mask_eq_exp_minus_1)
  then have "unat ?m = take_bit 32 (unat (ucast Nl + push_bit 3 n :: u64))"
    by (simp only: unsigned_take_bit_eq)
  also have "\<dots> = unat (ucast Nl + push_bit 3 n :: u64) mod 2 ^ 32"
    by (rule take_bit_eq_mod)
  also have "\<dots> = (unat Nl + unat n * 8) mod 2 ^ 64 mod 2 ^ 32"
    by (simp add: unat_word_ariths unat_push_bit unat_ucast_u32_size_t mod_simps)
  also have "\<dots> = unat ?l"
    by (simp add: mod_mod_cancel unat_add_shift mult.commute)
  finally have m: "unat ?m = unat ?l" .
  have "ucast ?m = ?l"
    by (simp only: word_unat_eq_iff unsigned_ucast_eq m take_bit_eq_mod)
       (simp only: unat_add_shift, simp)
  moreover have "?m < ucast Nl \<longleftrightarrow> ?l < Nl"
    by (simp only: word_less_nat_alt unat_ucast_u32_size_t m)
  ultimately show ?thesis
    by (simp only: count_u64_def count_u32_def Let_def and_full_u32)
qed

section \<open>Byte order\<close>

lemma ucast_byte_of_nat: "(ucast (drop_bit k (l :: u32) AND 0xff) :: byte) = of_nat (unat l div 2 ^ k)"
proof -
  have "drop_bit k l AND 0xff = take_bit 8 (drop_bit k l)"
    by (simp add: take_bit_eq_mask mask_eq_exp_minus_1)
  then have "unat (drop_bit k l AND 0xff) = take_bit 8 (unat l div 2 ^ k)"
    by (simp only: unsigned_take_bit_eq unat_drop_bit)
  then show ?thesis
    by (simp add: word_unat_eq_iff unsigned_ucast_eq take_bit_eq_mod)
qed

lemma HOST_l2c_be_eq: "HOST_l2c_be l = be_bytes 4 (unat l)"
  using ucast_byte_of_nat [of 0 l]
  by (simp add: HOST_l2c_be_def ucast_byte_of_nat be_bytes_numeral div_mult2_eq [symmetric])

lemma HOST_l2c_le_eq: "HOST_l2c_le l = rev (be_bytes 4 (unat l))"
  using ucast_byte_of_nat [of 0 l]
  by (simp add: HOST_l2c_le_def ucast_byte_of_nat be_bytes_numeral div_mult2_eq [symmetric])

lemma be_bytes_add: "be_bytes (m + n) v = be_bytes m (v div 256 ^ n) @ be_bytes n v"
  by (induction n arbitrary: v) (simp_all add: div_mult2_eq)

lemma be_bytes_cong: "v mod 256 ^ n = w mod 256 ^ n \<Longrightarrow> be_bytes n v = be_bytes n w"
  using be_nat_be_bytes [of n v] be_nat_be_bytes [of n w] be_bytes_be_nat [of "be_bytes n v"] be_bytes_be_nat [of "be_bytes n w"]
  by simp

lemma bit_count_bytes:
  "be_bytes 8 (bit_count (Nl, Nh)) = be_bytes 4 (unat Nh) @ be_bytes 4 (unat Nl)"
proof -
  have "be_bytes 8 (bit_count (Nl, Nh)) = be_bytes 4 (bit_count (Nl, Nh) div 256 ^ 4) @ be_bytes 4 (bit_count (Nl, Nh))"
    using be_bytes_add [of 4 4 "bit_count (Nl, Nh)"] by simp
  moreover have "be_bytes 4 (bit_count (Nl, Nh)) = be_bytes 4 (unat Nl)"
    by (rule be_bytes_cong) (simp add: bit_count_def)
  moreover have "bit_count (Nl, Nh) div 256 ^ 4 = unat Nh"
    using unsigned_less [of Nl, where 'a = nat] by (simp add: bit_count_def)
  ultimately show ?thesis
    by simp
qed

section \<open>Any split of a message gives the same hash\<close>

definition md32_rep :: "('h \<Rightarrow> byte list \<Rightarrow> 'h) \<Rightarrow> 'h \<Rightarrow> byte list \<Rightarrow> ('h, 'z) hash_ctx_scheme \<Rightarrow> bool" where
  "md32_rep blk h0 msg ctx \<longleftrightarrow>
     stream_rep 64 blk h0 msg (hc_h ctx) (hc_data ctx) (hc_num ctx) \<and>
     bit_count (hc_Nl ctx, hc_Nh ctx) = 8 * length msg mod 2 ^ 64"

definition md32_len :: "bool \<Rightarrow> nat \<Rightarrow> byte list" where
  "md32_len be n = (if be then be_bytes 8 (8 * n) else rev (be_bytes 8 (8 * n)))"

definition md32_hash :: "bool \<Rightarrow> ('h \<Rightarrow> byte list \<Rightarrow> 'h) \<Rightarrow> 'h \<Rightarrow> byte list \<Rightarrow> 'h" where
  "md32_hash be blk h0 msg =
     foldl blk h0 (md_blocks 64 (md_pad 64 (md32_len be (length msg)) msg))"

lemma md32_hash_eq:
  "md32_hash be blk h0 msg = (let m = md_pad 64 (md32_len be (length msg)) msg in block_data_order 64 blk h0 m (length m div 64))"
  by (simp add: md32_hash_def foldl_md_blocks Let_def)

lemma hash_whole_blocks_stream:
  assumes "stream_rep 64 blk h0 msg (hc_h ctx) (hc_data ctx) (hc_num ctx)" "hc_num ctx = 0"
    "ctx' = hash_whole_blocks blk ctx d"
  shows "stream_rep 64 blk h0 (msg @ d) (hc_h ctx') (hc_data ctx') (hc_num ctx')"
proof -
  have "stream_rep 64 blk h0 (msg @ take (length d div 64 * 64) d) (block_data_order 64 blk (hc_h ctx) d (length d div 64)) (hc_data ctx) 0"
    using assms by (intro stream_rep_blocks) simp_all
  from stream_rep_short [OF this, of "drop (length d div 64 * 64) d"]
  have "stream_rep 64 blk h0 (msg @ d) (block_data_order 64 blk (hc_h ctx) d (length d div 64))
     (put_at 0 (drop (length d div 64 * 64) d) (hc_data ctx)) (length d mod 64)"
    by (simp add: minus_div_mult_eq_mod)
  moreover have "length d \<le> length d div 64 * 64 \<longleftrightarrow> length d mod 64 = 0"
    using div_mult_mod_eq [of "length d" 64] by linarith
  ultimately show ?thesis
    using assms(2) by (cases "length d mod 64 = 0")
      (auto simp: assms(3) hash_whole_blocks_def Let_def put_at_def minus_div_mult_eq_mod split: if_splits)
qed

lemma HASH_UPDATE_stream:
  assumes rep: "stream_rep 64 blk h0 msg (hc_h ctx) (hc_data ctx) (hc_num ctx)"
    and ctx': "ctx' = HASH_UPDATE count blk ctx data"
  shows "stream_rep 64 blk h0 (msg @ data) (hc_h ctx') (hc_data ctx') (hc_num ctx')"
proof (cases "length data = 0")
  case True
  then show ?thesis
    using assms by (simp add: HASH_UPDATE_def)
next
  case nonempty: False
  let ?n = "hc_num ctx"
  have len: "length (hc_data ctx) = 64" "?n < 64"
    using rep by (simp_all add: stream_rep_def)
  obtain Nl Nh where N: "count (hc_Nl ctx) (hc_Nh ctx) (of_nat (length data)) = (Nl, Nh)"
    by fastforce
  consider (short) "?n \<noteq> 0" "?n + length data < 64" | (fill) "?n \<noteq> 0" "64 \<le> ?n + length data" | (empty) "?n = 0"
    by linarith
  then show ?thesis
  proof cases
    case short
    then show ?thesis
      using nonempty N stream_rep_short [OF rep short(2)] by (simp add: ctx' HASH_UPDATE_def Let_def)
  next
    case fill
    let ?p = "put_at ?n (take (64 - ?n) data) (hc_data ctx)"
    let ?c = "ctx\<lparr>hc_Nl := Nl, hc_Nh := Nh, hc_h := blk (hc_h ctx) ?p, hc_num := 0, hc_data := replicate 64 0\<rparr>"
    have "take 64 ?p = ?p"
      using fill len by (intro take_all) (simp add: put_at_def)
    then have "ctx' = hash_whole_blocks blk ?c (drop (64 - ?n) data)"
      using nonempty N fill by (simp add: ctx' HASH_UPDATE_def Let_def add.commute)
    moreover have "stream_rep 64 blk h0 (msg @ take (64 - ?n) data) (hc_h ?c) (hc_data ?c) (hc_num ?c)"
      using stream_rep_fill [OF rep _ fill(2), of "replicate 64 0"] by simp
    ultimately show ?thesis
      using hash_whole_blocks_stream [of blk h0 "msg @ take (64 - ?n) data" ?c ctx' "drop (64 - ?n) data"] by simp
  next
    case empty
    then show ?thesis
      using nonempty N rep hash_whole_blocks_stream [of blk h0 msg "ctx\<lparr>hc_Nl := Nl, hc_Nh := Nh\<rparr>" ctx' data]
      by (simp add: ctx' HASH_UPDATE_def Let_def)
  qed
qed

lemma HASH_UPDATE_count:
  assumes "length data \<noteq> 0"
  shows "(hc_Nl (HASH_UPDATE count blk ctx data), hc_Nh (HASH_UPDATE count blk ctx data)) =
    count (hc_Nl ctx) (hc_Nh ctx) (of_nat (length data))"
  using assms by (auto simp: HASH_UPDATE_def hash_whole_blocks_def Let_def split: prod.splits if_splits)

lemma HASH_UPDATE_rep:
  assumes rep: "md32_rep blk h0 msg ctx" and len: "length data < 2 ^ 64" and count: "count = count_u32 \<or> count = count_u64"
  shows "md32_rep blk h0 (msg @ data) (HASH_UPDATE count blk ctx data)"
proof -
  have "bit_count (hc_Nl (HASH_UPDATE count blk ctx data), hc_Nh (HASH_UPDATE count blk ctx data)) =
     8 * length (msg @ data) mod 2 ^ 64"
  proof (cases "length data = 0")
    case True
    then show ?thesis
      using rep by (simp add: HASH_UPDATE_def md32_rep_def)
  next
    case False
    have "unat (of_nat (length data) :: size_t) = length data"
      using len by (simp add: unat_of_nat take_bit_nat_eq_self)
    moreover have "count = count_u32"
      using count count_u64_eq by blast
    ultimately have "bit_count (count (hc_Nl ctx) (hc_Nh ctx) (of_nat (length data))) = (8 * length msg mod 2 ^ 64 + 8 * length data) mod 2 ^ 64"
      using rep by (simp add: count_u32 md32_rep_def)
    then show ?thesis
      unfolding HASH_UPDATE_count [OF False] by (simp add: mod_simps)
  qed
  then show ?thesis
    using HASH_UPDATE_stream [OF _ refl, where blk = blk and ctx = ctx and count = count and data = data and msg = msg and ?h0.0 = h0] rep by (simp add: md32_rep_def)
qed

lemma HASH_FINAL_hash:
  assumes "md32_rep blk h0 msg ctx"
  shows "hc_h (HASH_FINAL be blk ctx) = md32_hash be blk h0 msg"
proof -
  let ?lb = "if be then HOST_l2c_be (hc_Nh ctx) @ HOST_l2c_be (hc_Nl ctx) else HOST_l2c_le (hc_Nl ctx) @ HOST_l2c_le (hc_Nh ctx)"
  have rep: "stream_rep 64 blk h0 msg (hc_h ctx) (hc_data ctx) (hc_num ctx)"
    using assms by (simp add: md32_rep_def)
  have len: "length (hc_data ctx) = 64" "hc_num ctx < 64"
    using rep by (simp_all add: stream_rep_def)
  have "be_bytes 8 (8 * length msg) = be_bytes 8 (bit_count (hc_Nl ctx, hc_Nh ctx))"
    using assms by (intro be_bytes_cong) (simp add: md32_rep_def)
  then have lb: "?lb = md32_len be (length msg)"
    by (simp add: md32_len_def bit_count_bytes HOST_l2c_be_eq HOST_l2c_le_eq)
  have lb8: "length ?lb = 8"
    unfolding lb by (simp add: md32_len_def)
  have take: "take 64 p = p" if "length p = 64" for p :: "byte list"
    using that by simp
  show ?thesis
    unfolding md32_hash_eq Let_def
    using len lb8 
    by (intro stream_rep_final [OF rep, of ?lb, unfolded lb]) (auto simp: HASH_FINAL_def Let_def lb take length_put_at split: if_splits)
qed

text \<open>
  A message in any pieces, through \<^verbatim>\<open>HASH_UPDATE\<close> and \<^verbatim>\<open>HASH_FINAL\<close>: the blocks of the message padded
  with 0x80, zeros and its bit length (modulo \<open>2 ^ 64\<close>) in the byte order of the hash.
\<close>

lemma foldl_HASH_UPDATE_rep:
  assumes "md32_rep blk h0 msg ctx" "\<forall>d\<in>set ds. length d < 2 ^ 64" "count = count_u32 \<or> count = count_u64"
  shows "md32_rep blk h0 (msg @ concat ds) (foldl (HASH_UPDATE count blk) ctx ds)"
  using assms(1,2)
proof (induction ds arbitrary: msg ctx)
  case (Cons d ds)
  then show ?case
    using Cons.IH [OF HASH_UPDATE_rep [OF Cons.prems(1) _ assms(3), of d]] by simp
qed simp

lemma hash_streaming:
  assumes "hc_h ctx = h0" "hc_Nl ctx = 0" "hc_Nh ctx = 0" "length (hc_data ctx) = 64" "hc_num ctx = 0"
    "\<forall>d\<in>set ds. length d < 2 ^ 64" "count = count_u32 \<or> count = count_u64"
  shows "hc_h (HASH_FINAL be blk (foldl (HASH_UPDATE count blk) ctx ds)) = md32_hash be blk h0 (concat ds)"
proof -
  have "md32_rep blk h0 [] ctx"
    using assms(1-5) by (simp add: md32_rep_def stream_rep_def bit_count_def)
  from HASH_FINAL_hash [OF foldl_HASH_UPDATE_rep [OF this assms(6,7)]] show ?thesis
    by simp
qed

lemma block_data_order_cong:
  assumes "\<And>h d. length d = B \<Longrightarrow> blk h d = blk' h d" "n * B \<le> length data"
  shows "block_data_order B blk h data n = block_data_order B blk' h data n"
  using assms(2)
proof (induction n arbitrary: h data)
  case (Suc n)
  then show ?case
    using assms(1) [of "take B data"] by simp
qed simp

lemma md32_hash_cong:
  assumes "\<And>h d. length d = 64 \<Longrightarrow> blk h d = blk' h d"
  shows "md32_hash be blk h0 msg = md32_hash be blk' h0 msg"
  unfolding md32_hash_eq Let_def using assms by (intro block_data_order_cong) simp_all

lemma md32_hash_nonempty:
  "\<exists>h data. md32_hash be blk h0 msg = blk h data"
proof -
  let ?m = "md_pad 64 (md32_len be (length msg)) msg"
  have "64 dvd length ?m" "0 < length ?m"
    by (rule length_md_pad) (simp_all add: md32_len_def md_pad_def)
  then obtain n where "length ?m div 64 = Suc n"
    by (metis dvd_div_eq_0_iff gr0_implies_Suc less_numeral_extra(3) neq0_conv)
  then show ?thesis
    unfolding md32_hash_eq Let_def by (auto simp: block_data_order_snoc simp del: block_data_order.simps)
qed

section \<open>The interface of a hash\<close>

text \<open>
  What a client of a streaming hash relies on: digesting pieces is digesting their concatenation.
\<close>

locale streaming_hash =
  fixes init :: 's
    and update :: "'s \<Rightarrow> byte list \<Rightarrow> 's"
    and final :: "'s \<Rightarrow> byte list"
    and digest :: "byte list \<Rightarrow> byte list"
    and md_size :: nat
  assumes digest_pieces: "\<forall>d\<in>set ds. length d < 2 ^ 64 \<Longrightarrow> final (foldl update init ds) = digest (concat ds)"
    and digest_length: "length (digest msg) = md_size"
begin

lemma digest_1: "length a < 2 ^ 64 \<Longrightarrow> final (update init a) = digest a"
  using digest_pieces [of "[a]"] by simp

lemma digest_2: "length a < 2 ^ 64 \<Longrightarrow> length b < 2 ^ 64 \<Longrightarrow> final (update (update init a) b) = digest (a @ b)"
  using digest_pieces [of "[a, b]"] by simp

end

section \<open>Message schedules in a ring of sixteen words\<close>

text \<open>
  The SHA functions extend the sixteen words of a block by a recurrence \<open>g\<close> over the last sixteen
  words; \<open>g\<close> gets them as a function of the distance from the oldest one. \<open>expand\<close> is the
  extended list; the code overwrites the oldest word of an array of sixteen.
\<close>

primrec expand :: "((nat \<Rightarrow> 'w) \<Rightarrow> 'w) \<Rightarrow> 'w list \<Rightarrow> nat \<Rightarrow> 'w list" where
  "expand g ws 0 = ws"
| "expand g ws (Suc n) = (let W = expand g ws n in W @ [g (\<lambda>k. W ! (n + k))])"

definition window :: "((nat \<Rightarrow> 'w) \<Rightarrow> 'w) \<Rightarrow> bool" where
  "window g \<longleftrightarrow> (\<forall>p q. (\<forall>k<16. p k = q k) \<longrightarrow> g p = g q)"

lemma length_expand [simp]: "length (expand g ws n) = length ws + n"
  by (induction n) (simp_all add: Let_def)

lemma expand_nth: "m \<le> n \<Longrightarrow> t < length ws + m \<Longrightarrow> expand g ws n ! t = expand g ws m ! t"
  by (induction n) (auto simp: Let_def nth_append le_Suc_eq)

lemma expand_step:
  assumes g: "window g" and t: "length ws \<le> t" "t < length ws + n" and ws: "length ws = 16"
  shows "expand g ws n ! t = g (\<lambda>k. expand g ws n ! (t - 16 + k))"
proof -
  obtain m where m: "t = 16 + m" "m < n"
    using t ws by (metis add_diff_inverse_nat linorder_not_less nat_add_left_cancel_less)
  have "expand g ws n ! t = expand g ws (Suc m) ! t"
    using m ws by (intro expand_nth) simp_all
  also have "\<dots> = g (\<lambda>k. expand g ws m ! (m + k))"
    using m ws by (simp add: nth_append Let_def)
  also have "\<dots> = g (\<lambda>k. expand g ws n ! (m + k))"
    using m ws by (intro g [unfolded window_def, rule_format] expand_nth [symmetric]) simp_all
  finally show ?thesis
    using m by simp
qed

definition ring_word :: "((nat \<Rightarrow> 'w) \<Rightarrow> 'w) \<Rightarrow> 'w list \<Rightarrow> nat \<Rightarrow> 'w" where
  "ring_word g X i = g (\<lambda>k. X ! ((i + k) mod 16))"

lemma mod_16_neq: "k < 15 \<Longrightarrow> (n + Suc k) mod 16 \<noteq> n mod (16 :: nat)"
proof
  assume k: "k < 15" and "(n + Suc k) mod 16 = n mod 16"
  then have "Suc k mod 16 = 0"
    by (metis add_cancel_left_right mod_add_left_eq mod_eq_0_iff_dvd nat_mod_eq_iff dvd_triv_left add_diff_cancel_left' mod_eq_dvd_iff_nat le_add1)
  then show False
    using k by simp
qed

lemma ring_step:
  assumes g: "window g" and X: "length X = 16" "length W = 16 + n" "\<forall>k<16. X ! ((n + k) mod 16) = W ! (n + k)"
  shows "ring_word g X (16 + n) = g (\<lambda>k. W ! (n + k))"
    and "\<forall>k<16. X[n mod 16 := v] ! ((Suc n + k) mod 16) = (W @ [v]) ! (Suc n + k)"
proof -
  have "g (\<lambda>k. X ! ((16 + n + k) mod 16)) = g (\<lambda>k. W ! (n + k))"
    using X(3) by (intro g [unfolded window_def, rule_format]) (simp add: add.assoc)
  then show "ring_word g X (16 + n) = g (\<lambda>k. W ! (n + k))"
    by (simp add: ring_word_def)
  show "\<forall>k<16. X[n mod 16 := v] ! ((Suc n + k) mod 16) = (W @ [v]) ! (Suc n + k)"
  proof (intro allI impI)
    fix k :: nat
    assume "k < 16"
    then consider "k = 15" | "k < 15"
      by linarith
    then show "X[n mod 16 := v] ! ((Suc n + k) mod 16) = (W @ [v]) ! (Suc n + k)"
    proof cases
      case 1
      then have "(Suc n + k) mod 16 = n mod 16" "Suc n + k = length W"
        using X(2) by simp_all
      then show ?thesis
        using X(1) by (simp only: nth_append_length) simp
    next
      case 2
      then have "(n + Suc k) mod 16 \<noteq> n mod 16"
        by (rule mod_16_neq)
      moreover have "X ! ((n + Suc k) mod 16) = W ! (n + Suc k)"
        using 2 by (intro X(3) [rule_format]) simp
      ultimately show ?thesis
        using X 2 by (simp add: nth_append)
    qed
  qed
qed

lemma ring_rounds:
  assumes g: "window g" and ws: "length ws = 16"
  shows "\<exists>X. foldl (\<lambda>(X, r) i. let T = ring_word g X i in (X[i mod 16 := T], rnd i T r)) (ws, r) [16..<16 + n] =
      (X, foldl (\<lambda>r i. rnd i (expand g ws n ! i) r) r [16..<16 + n]) \<and>
    length X = 16 \<and> (\<forall>k<16. X ! ((n + k) mod 16) = expand g ws n ! (n + k))"
proof (induction n)
  case 0
  then show ?case
    using ws by simp
next
  case (Suc n)
  then obtain X where X: "foldl (\<lambda>(X, r) i. let T = ring_word g X i in (X[i mod 16 := T], rnd i T r)) (ws, r) [16..<16 + n] =
      (X, foldl (\<lambda>r i. rnd i (expand g ws n ! i) r) r [16..<16 + n])"
    "length X = 16" "\<forall>k<16. X ! ((n + k) mod 16) = expand g ws n ! (n + k)"
    by blast
  let ?v = "g (\<lambda>k. expand g ws n ! (n + k))"
  have e: "expand g ws (Suc n) = expand g ws n @ [?v]"
    by (simp add: Let_def)
  note step = ring_step [OF g X(2) _ X(3), unfolded length_expand ws, OF refl]
  have upt: "[16..<16 + Suc n] = [16..<16 + n] @ [16 + n]"
    by (subst add_Suc_right, subst upt_Suc_append) simp_all
  have "foldl (\<lambda>r i. rnd i (expand g ws n ! i) r) r [16..<16 + n] = foldl (\<lambda>r i. rnd i (expand g ws (Suc n) ! i) r) r [16..<16 + n]"
    using ws by (intro foldl_cong) (auto simp: Let_def nth_append)
  moreover have "expand g ws (Suc n) ! (16 + n) = ?v"
    using ws by (simp add: Let_def nth_append)
  ultimately have "foldl (\<lambda>(X, r) i. let T = ring_word g X i in (X[i mod 16 := T], rnd i T r)) (ws, r) [16..<16 + Suc n] =
      (X[n mod 16 := ?v], foldl (\<lambda>r i. rnd i (expand g ws (Suc n) ! i) r) r [16..<16 + Suc n])"
    unfolding upt foldl_append X(1) by (simp add: step(1) Let_def del: expand.simps)
  then show ?case
    using X(2) step(2) [of ?v] unfolding e by auto
qed

lemma load_rounds:
  assumes "n \<le> length X"
  shows "foldl (\<lambda>(X, r) i. let l = w i in (X[i := l], rnd i l r)) (X, r) [0..<n] =
    (map w [0..<n] @ drop n X, foldl (\<lambda>r i. rnd i (w i) r) r [0..<n])"
  using assms
proof (induction n)
  case (Suc n)
  then show ?case
    by (simp add: Let_def list_update_append Cons_nth_drop_Suc [symmetric])
qed simp

lemma ring_hash:
  assumes g: "window g"
  shows "snd (foldl (\<lambda>(X, r) i. let T = ring_word g X i in (X[i mod 16 := T], rnd i T r))
      (foldl (\<lambda>(X, r) i. let l = w i in (X[i := l], rnd i l r)) (replicate 16 z, r) [0..<16]) [16..<16 + n]) =
    foldl (\<lambda>r t. rnd t (expand g (map w [0..<16]) n ! t) r) r [0..<16 + n]"
proof -
  let ?ws = "map w [0..<16]" and ?W = "expand g (map w [0..<16]) n"
  let ?step = "\<lambda>r t. rnd t (?W ! t) r"
  have nth: "?W ! t = w t" if "t < 16" for t
    using that expand_nth [of 0 n t ?ws g] by simp
  have "foldl ?step r [0..<16] = foldl (\<lambda>r t. rnd t (w t) r) r [0..<16]"
    by (intro foldl_cong refl) (simp add: nth)
  moreover have "foldl (\<lambda>(X, r) i. let l = w i in (X[i := l], rnd i l r)) (replicate 16 z, r) [0..<16] =
      (?ws, foldl (\<lambda>r t. rnd t (w t) r) r [0..<16])"
    using load_rounds [of 16 "replicate 16 z" w rnd r] by simp
  moreover have "[0..<16 + n] = [0..<16] @ [16..<16 + n]"
    using upt_add_eq_append [of 0 16 n] by simp
  ultimately show ?thesis
    using ring_rounds [OF g, of ?ws rnd "foldl ?step r [0..<16]" n] by (auto simp del: upt_Suc)
qed

text \<open>The same for the two loops of a block function, with the words they compute.\<close>

lemma ring_block:
  assumes "window g" and "\<And>X i. word X i = ring_word g X i" and "n = 16 + k"
  shows "(let (X, r) = foldl (\<lambda>(X, r) i. let l = w i in (X[i := l], rnd i l r)) (replicate 16 z, r) [0..<16];
      (X, r) = foldl (\<lambda>(X, r) i. let T = word X i in (X[i mod 16 := T], rnd i T r)) (X, r) [16..<n] in F r) =
    F (foldl (\<lambda>r t. rnd t (expand g (map w [0..<16]) k ! t) r) r [0..<n])"
  unfolding assms(2,3) by (subst ring_hash [OF assms(1), symmetric]) (simp add: Let_def case_prod_beta del: upt.simps upt_conv_Nil)

section \<open>Words and rotations\<close>

lemma shifts_rotr:
  fixes x :: "'a :: len word"
  assumes "0 < n" "n < LENGTH('a)"
  shows "push_bit (LENGTH('a) - n) x OR drop_bit n x = word_rotr n x"
proof (rule bit_word_eqI)
  fix m
  assume m: "m < LENGTH('a)"
  show "bit (push_bit (LENGTH('a) - n) x OR drop_bit n x) m = bit (word_rotr n x) m"
  proof (cases "m + n < LENGTH('a)")
    case True
    then show ?thesis
      using m by (auto simp: bit_simps bit_word_rotr_iff add.commute)
  next
    case False
    then have "(m + n) mod LENGTH('a) = m - (LENGTH('a) - n)" "\<not> bit x (n + m)"
      using m assms(2) by (auto simp: mod_if dest: bit_imp_le_length)
    then show ?thesis
      using m False assms by (auto simp: bit_simps bit_word_rotr_iff add.commute)
  qed
qed

lemma ROTATE_rotr: "0 < n \<Longrightarrow> n < 32 \<Longrightarrow> ROTATE x (32 - n) = word_rotr n x"
  using shifts_rotr [of n x] by (simp add: ROTATE_def)

lemma ROTATE_rotl: "0 < n \<Longrightarrow> n < 32 \<Longrightarrow> ROTATE x n = word_rotl n x"
  using ROTATE_rotr [of "32 - n" x] by (simp add: word_rotl_eq_word_rotr)

lemma take_4_drop:
  "i + 4 \<le> length data \<Longrightarrow> take 4 (drop i data) = [data ! i, data ! (i + 1), data ! (i + 2), data ! (i + 3)]"
  by (simp add: list_eq_iff_nth_eq nth_Cons numeral_eq_Suc split: nat.splits)

lemma foldl_shift_in_u32: "foldl shift_in (0 :: u32) [a, b, c, d] = of_nat (be_nat [a, b, c, d])"
  by (rule foldl_shift_in_of_nat) simp_all

lemma HOST_c2l_be_eq:
  assumes "i + 4 \<le> length data"
  shows "HOST_c2l_be data i = of_nat (be_nat (take 4 (drop i data)))"
  unfolding take_4_drop [OF assms] foldl_shift_in_u32 [symmetric]
  by (rule bit_word_eqI) (auto simp: HOST_c2l_be_def shift_in_def bit_simps)

lemma HOST_c2l_le_eq:
  assumes "i + 4 \<le> length data"
  shows "HOST_c2l_le data i = of_nat (be_nat (rev (take 4 (drop i data))))"
  unfolding take_4_drop [OF assms] rev.simps append.simps foldl_shift_in_u32 [symmetric]
  by (rule bit_word_eqI) (auto simp: HOST_c2l_le_def shift_in_def bit_simps)

end
