(* ===== verification/Digest_Constants.thy ===== *)
theory Digest_Constants
  imports Prelude Complex_Main
begin

unbundle bit_operations_syntax

text \<open>
  The constants and logical functions of the digests as their standards define them: FIPS 180-4 takes the bits of
  square and cube roots of the first primes, RFC 1321 the sines of the first integers. Nothing here
  refers to the tables of the sources; the digest theories show that those agree.
\<close>

section \<open>Logical functions of FIPS 180-4\<close>

definition fips_Ch :: "'a::len word \<Rightarrow> 'a word \<Rightarrow> 'a word \<Rightarrow> 'a word" where
  "fips_Ch x y z = (x AND y) XOR (NOT x AND z)"

definition fips_Maj :: "'a::len word \<Rightarrow> 'a word \<Rightarrow> 'a word \<Rightarrow> 'a word" where
  "fips_Maj x y z = (x AND y) XOR (x AND z) XOR (y AND z)"

section \<open>Roots of primes\<close>

definition is_prime :: "int \<Rightarrow> bool" where
  "is_prime p \<longleftrightarrow> 2 \<le> p \<and> (\<forall>d\<in>{2..<p}. p mod d \<noteq> 0)"

text \<open>The first eighty primes; the last of them is 409.\<close>

definition fips_primes :: "int list" where
  "fips_primes = filter is_prime [2..409]"

definition fips_prime :: "nat \<Rightarrow> int" where
  "fips_prime t = fips_primes ! t"

text \<open>For numbers below 529 the primes below 23 decide.\<close>

fun no_divisor :: "int list \<Rightarrow> int \<Rightarrow> bool" where
  "no_divisor [] p = True"
| "no_divisor (d # ds) p = (if p mod d = 0 \<and> d \<noteq> p then False else no_divisor ds p)"

lemma no_divisor_iff: "no_divisor ds p \<longleftrightarrow> (\<forall>d\<in>set ds. p mod d = 0 \<longrightarrow> d = p)"
  by (induction ds) auto

lemma no_divisorI: "(\<And>d. 2 \<le> d \<Longrightarrow> p mod d = 0 \<Longrightarrow> d = p) \<Longrightarrow> list_all (\<lambda>d. 2 \<le> d) ds \<Longrightarrow> no_divisor ds p"
  by (auto simp: no_divisor_iff list_all_iff)

lemma small_divisor:
  fixes e :: int
  assumes "2 \<le> e" "e \<le> 22"
  shows "\<exists>d\<in>set [2, 3, 5, 7, 11, 13, 17, 19]. e mod d = 0"
proof -
  have "e = 2 \<or> e = 3 \<or> e = 4 \<or> e = 5 \<or> e = 6 \<or> e = 7 \<or> e = 8 \<or> e = 9 \<or> e = 10 \<or> e = 11 \<or> e = 12 \<or> e = 13 \<or> e = 14 \<or>
      e = 15 \<or> e = 16 \<or> e = 17 \<or> e = 18 \<or> e = 19 \<or> e = 20 \<or> e = 21 \<or> e = 22"
    using assms by arith
  then show ?thesis
    by auto
qed

lemma is_prime_small:
  assumes "p < 529"
  shows "is_prime p \<longleftrightarrow> 2 \<le> p \<and> no_divisor [2, 3, 5, 7, 11, 13, 17, 19] p"
proof (intro iffI conjI)
  assume p: "is_prime p"
  then show "2 \<le> p"
    by (simp add: is_prime_def)
  have "d = p" if "2 \<le> d" "p mod d = 0" for d
  proof -
    have "d \<le> p"
      using that \<open>2 \<le> p\<close> by (intro zdvd_imp_le) (auto simp: mod_eq_0_iff_dvd)
    then show ?thesis
      using p that by (cases "d = p") (auto simp: is_prime_def)
  qed
  then show "no_divisor [2, 3, 5, 7, 11, 13, 17, 19] p"
    by (rule no_divisorI) simp_all
next
  assume p: "2 \<le> p \<and> no_divisor [2, 3, 5, 7, 11, 13, 17, 19] p"
  have no: False if ef: "2 \<le> e" "e \<le> f" "p = e * f" for e f
  proof -
    have "2 * e \<le> f * e"
      using that by (intro mult_right_mono) auto
    then have "e < p"
      using that by (simp add: mult.commute)
    have "e \<le> 22"
    proof (rule ccontr)
      assume "\<not> e \<le> 22"
      then have "23 * 23 \<le> e * f"
        using that by (intro mult_mono) auto
      then show False
        using that(3) assms by simp
    qed
    from small_divisor [OF ef(1) this] obtain d where d: "d \<in> set [2, 3, 5, 7, 11, 13, 17, 19]" "e mod d = 0"
      by (rule bexE)
    then have "p mod d = 0" "d \<le> e"
      using that(1,3) zdvd_imp_le [of d e] by (auto simp: mod_eq_0_iff_dvd)
    moreover have "d = p"
      by (rule mp [OF bspec [OF p [THEN conjunct2, unfolded no_divisor_iff] d(1)] \<open>p mod d = 0\<close>])
    ultimately show False
      using \<open>e < p\<close> by simp
  qed
  have "p mod d \<noteq> 0" if d: "2 \<le> d" "d < p" for d
  proof
    assume "p mod d = 0"
    then obtain f where f: "p = d * f"
      by (auto simp: mod_eq_0_iff_dvd)
    have "2 \<le> f"
    proof (rule ccontr)
      assume "\<not> 2 \<le> f"
      then have "d * f \<le> d * 1"
        using d(1) by (intro mult_left_mono) auto
      then show False
        using f d(2) by simp
    qed
    then show False
      using no [of d f] no [of f d] f d(1) by (cases "d \<le> f") (auto simp: mult.commute)
  qed
  then show "is_prime p"
    using p by (auto simp: is_prime_def)
qed

lemma fips_primes_list [code]:
  "fips_primes = [
    2, 3, 5, 7, 11, 13, 17, 19, 23, 29, 31, 37, 41, 43, 47, 53, 59, 61, 67, 71,
    73, 79, 83, 89, 97, 101, 103, 107, 109, 113, 127, 131, 137, 139, 149, 151, 157, 163, 167, 173,
    179, 181, 191, 193, 197, 199, 211, 223, 227, 229, 233, 239, 241, 251, 257, 263, 269, 271, 277, 281,
    283, 293, 307, 311, 313, 317, 331, 337, 347, 349, 353, 359, 367, 373, 379, 383, 389, 397, 401, 409]"
proof -
  have "fips_primes = filter (\<lambda>p. 2 \<le> p \<and> no_divisor [2, 3, 5, 7, 11, 13, 17, 19] p) [2..409]"
    unfolding fips_primes_def by (rule filter_cong [OF refl], rule is_prime_small) (simp only: set_upto atLeastAtMost_iff, arith)
  then show ?thesis
    by (rule trans) code_simp
qed

text \<open>The bits of the \<open>k\<close>-th root of \<open>p\<close> down to the \<open>w\<close>-th behind the point; a word keeps the last of them.\<close>

definition root_bits :: "nat \<Rightarrow> nat \<Rightarrow> int \<Rightarrow> 'a::len word" where
  "root_bits k w p = of_int \<lfloor>2 ^ w * root k (of_int p)\<rfloor>"

lemma root_bits_eq:
  assumes "0 < k" "0 \<le> r" "r ^ k \<le> p * 2 ^ (w * k)" "p * 2 ^ (w * k) < (r + 1) ^ k"
  shows "root_bits k w p = of_int r"
proof -
  have p: "0 \<le> p"
    using assms(2-4) by (smt (verit) mult_neg_pos zero_le_power zero_less_power)
  have e: "(2 ^ w * root k (of_int p)) ^ k = of_int (p * 2 ^ (w * k))"
    using assms(1) p by (simp add: power_mult_distrib power_mult [symmetric] mult.commute)
  have "of_int r \<le> 2 ^ w * root k (of_int p)"
    by (rule power_le_imp_le_base [of _ "k - 1"])
      (use assms p in \<open>simp_all only: e Suc_diff_1 of_int_power [symmetric] of_int_le_iff real_root_ge_zero of_int_0_le_iff zero_le_mult_iff\<close>, auto)
  moreover have "2 ^ w * root k (of_int p) < of_int (r + 1)"
    by (rule power_less_imp_less_base [of _ k]) (use assms e in \<open>simp_all only: e of_int_power [symmetric] of_int_less_iff of_int_0_le_iff\<close>)
  ultimately have "\<lfloor>2 ^ w * root k (of_int p)\<rfloor> = r"
    by (intro floor_unique) simp_all
  then show ?thesis
    by (simp add: root_bits_def)
qed

text \<open>Whether a table has the bits of the roots of the primes from \<open>m\<close> on, decided over the integers.\<close>

definition int_root :: "nat \<Rightarrow> int \<Rightarrow> int" where
  "int_root k p = int (length (filter (\<lambda>j. j ^ k \<le> p) [1..9]))"

definition root_table :: "nat \<Rightarrow> nat \<Rightarrow> int list \<Rightarrow> int list \<Rightarrow> bool" where
  "root_table k w ps xs =
     list_all2 (\<lambda>p x. 0 \<le> x \<and> (let r = int_root k p * 2 ^ w + x; q = p * 2 ^ (w * k) in r ^ k \<le> q \<and> q < (r + 1) ^ k)) ps xs"

lemma root_table:
  assumes "root_table k w ps xs" "0 < k" "LENGTH('a::len) \<le> w"
  shows "map (root_bits k w) ps = (map of_int xs :: 'a word list)"
  using assms(1) unfolding root_table_def
proof (induction rule: list_all2_induct)
  case (Cons p ps x xs)
  have "of_int (int_root k p * 2 ^ w + x) = of_int (int_root k p) * (2 :: 'a word) ^ w + of_int x"
    by simp
  also have "(2 :: 'a word) ^ w = 0"
    using assms(3) by (metis exp_eq_zero_iff)
  finally have "of_int (int_root k p * 2 ^ w + x) = (of_int x :: 'a word)"
    by simp
  moreover have "root_bits k w p = (of_int (int_root k p * 2 ^ w + x) :: 'a word)"
    using Cons.hyps(1) assms(2) by (intro root_bits_eq) (simp_all add: int_root_def Let_def)
  ultimately show ?case
    using Cons.IH by simp
qed simp

section \<open>Sines\<close>

text \<open>The constant of step \<open>i\<close> of MD5, counted from 0.\<close>

definition rfc_T :: "nat \<Rightarrow> u32" where
  "rfc_T i = of_int \<lfloor>4294967296 * \<bar>sin (real (i + 1))\<bar>\<rfloor>"

text \<open>
  Sine and cosine of the integers in fixed point, with 128 bits behind the point, from those of 1 by the addition
  theorems. The error at most doubles with each step, and stays far below the bits that matter.
\<close>

definition sin1 :: int where
  "sin1 = 286337738405724074564845076175058320434"

definition cos1 :: int where
  "cos1 = 183855347493651442427684920285310598441"

definition sin_cos_step :: "int \<times> int \<Rightarrow> int \<times> int" where
  "sin_cos_step sc = (case sc of (s, c) \<Rightarrow> ((s * cos1 + c * sin1) div 2 ^ 128, (c * cos1 - s * sin1) div 2 ^ 128))"

fun sin_cos :: "nat \<Rightarrow> int \<times> int" where
  "sin_cos 0 = (0, 2 ^ 128)"
| "sin_cos (Suc i) = sin_cos_step (sin_cos i)"

lemma scale_error:
  fixes x :: real
  assumes "\<bar>x - q\<bar> \<le> d" "0 \<le> p" "\<bar>y - p * q\<bar> + p * d \<le> 1"
  shows "\<bar>y - p * x\<bar> \<le> 1"
proof -
  have "\<bar>p * (x - q)\<bar> \<le> p * d"
    using assms(1,2) by (simp add: abs_mult mult_left_mono)
  then show ?thesis
    using assms(3) by (simp add: algebra_simps)
qed

lemma sin1_bound: "\<bar>of_int sin1 - 2 ^ 128 * sin (1 :: real)\<bar> \<le> 1"
proof -
  have "\<bar>sin 1 - (\<Sum>m<40. sin_coeff m)\<bar> \<le> 1 / fact 40"
    using Maclaurin_sin_bound [of 1 40] by (simp add: field_simps)
  then show ?thesis
    by (rule scale_error) (simp_all add: sin_coeff_def fact_numeral lessThan_nat_numeral sin1_def)
qed

lemma cos1_bound: "\<bar>of_int cos1 - 2 ^ 128 * cos (1 :: real)\<bar> \<le> 1"
proof -
  obtain t :: real where t: "cos 1 = (\<Sum>m<40. cos_coeff m * 1 ^ m) + (cos (t + 1 / 2 * real 40 * pi) / fact 40) * 1 ^ 40"
    using Maclaurin_cos_expansion [of 1 40] by blast
  have "\<bar>cos (t + 1 / 2 * real 40 * pi)\<bar> \<le> 1"
    by (rule abs_cos_le_one)
  then have "\<bar>cos 1 - (\<Sum>m<40. cos_coeff m)\<bar> \<le> 1 / fact 40"
    unfolding t by (simp add: divide_right_mono)
  then show ?thesis
    by (rule scale_error) (simp_all add: cos_coeff_def fact_numeral lessThan_nat_numeral cos1_def)
qed

lemma product_error:
  fixes x :: real
  assumes "\<bar>X - p * x\<bar> \<le> e" "\<bar>Y - p * y\<bar> \<le> 1" "\<bar>x\<bar> \<le> 1" "\<bar>Y\<bar> \<le> p"
  shows "\<bar>X * Y - p * (p * (x * y))\<bar> \<le> p * (e + 1)"
proof -
  have "X * Y - p * (p * (x * y)) = (X - p * x) * Y + p * (x * (Y - p * y))"
    by (simp add: algebra_simps)
  moreover have "\<bar>(X - p * x) * Y\<bar> \<le> e * p"
    using assms by (simp only: abs_mult) (intro mult_mono, auto)
  moreover have "\<bar>x * (Y - p * y)\<bar> \<le> 1 * 1"
    using assms by (simp only: abs_mult) (intro mult_mono, auto)
  then have "\<bar>p * (x * (Y - p * y))\<bar> \<le> p"
    using assms(4) by (simp add: abs_mult mult_left_le)
  ultimately show ?thesis
    by (simp add: algebra_simps)
qed

lemma div_error:
  assumes "\<bar>of_int X - p * x\<bar> \<le> p * (e :: real)" "p = of_int P" "0 < P"
  shows "\<bar>of_int (X div P) - x\<bar> \<le> e + 1"
proof -
  have "of_int X = of_int P * (of_int (X div P) :: real) + of_int (X mod P)"
    by (metis mult_div_mod_eq of_int_add of_int_mult)
  moreover have "0 \<le> (of_int (X mod P) :: real)" "(of_int (X mod P) :: real) < p"
    using assms(2,3) by simp_all
  ultimately have "\<bar>p * (of_int (X div P) - x)\<bar> \<le> p * (e + 1)"
    using assms(1,2) by (simp add: algebra_simps)
  then have "p * \<bar>of_int (X div P) - x\<bar> \<le> p * (e + 1)"
    using assms(2,3) by (simp add: abs_mult)
  then show ?thesis
    using assms(2,3) by simp
qed

lemma sin_cos_bound:
  "\<bar>of_int (fst (sin_cos i)) - 2 ^ 128 * sin (real i)\<bar> \<le> 3 * 2 ^ i - 3 \<and>
   \<bar>of_int (snd (sin_cos i)) - 2 ^ 128 * cos (real i)\<bar> \<le> 3 * 2 ^ i - 3"
proof (induction i)
  case (Suc i)
  obtain s c where sc: "sin_cos i = (s, c)"
    by fastforce
  define p :: real where "p = 2 ^ 128"
  define e :: real where "e = 3 * 2 ^ i - 3"
  have IH: "\<bar>of_int s - p * sin (real i)\<bar> \<le> e" "\<bar>of_int c - p * cos (real i)\<bar> \<le> e"
    using Suc by (simp_all add: sc p_def e_def)
  have one: "\<bar>of_int sin1 - p * sin 1\<bar> \<le> 1" "\<bar>of_int cos1 - p * cos 1\<bar> \<le> 1"
    using sin1_bound cos1_bound by (simp_all only: p_def)
  have le: "\<bar>of_int sin1\<bar> \<le> p" "\<bar>of_int cos1\<bar> \<le> p"
    by (simp_all add: sin1_def cos1_def p_def)
  note pr = product_error [OF IH(1) one(2) abs_sin_le_one le(2)] product_error [OF IH(2) one(1) abs_cos_le_one le(1)]
    product_error [OF IH(2) one(2) abs_cos_le_one le(2)] product_error [OF IH(1) one(1) abs_sin_le_one le(1)]
  have "\<bar>of_int (s * cos1 + c * sin1) - p * (p * sin (real i + 1))\<bar> \<le> p * (2 * e + 2)"
    using pr(1,2) by (simp add: sin_add algebra_simps)
  moreover have "\<bar>of_int (c * cos1 - s * sin1) - p * (p * cos (real i + 1))\<bar> \<le> p * (2 * e + 2)"
    using pr(3,4) by (simp add: cos_add algebra_simps)
  moreover have "p = of_int (2 ^ 128)"
    by (simp add: p_def)
  ultimately have "\<bar>of_int ((s * cos1 + c * sin1) div 2 ^ 128) - p * sin (real i + 1)\<bar> \<le> 2 * e + 2 + 1 \<and>
      \<bar>of_int ((c * cos1 - s * sin1) div 2 ^ 128) - p * cos (real i + 1)\<bar> \<le> 2 * e + 2 + 1"
    by (intro conjI div_error) simp_all
  then show ?case
    by (simp add: sc sin_cos_step_def e_def p_def add.commute)
qed simp

text \<open>If the last 96 bits are not too close to a multiple of \<open>2 ^ 96\<close>, the bits before them are right.\<close>

definition sine_ok :: "nat \<Rightarrow> u32 \<Rightarrow> bool" where
  "sine_ok i t = (let s = \<bar>fst (sin_cos i)\<bar>; e = 3 * 2 ^ i in s div 2 ^ 96 = uint t \<and> e \<le> s mod 2 ^ 96 \<and> s mod 2 ^ 96 < 2 ^ 96 - e)"

lemma sine_ok:
  assumes "sine_ok (i + 1) t"
  shows "rfc_T i = t"
proof -
  define s where "s = \<bar>fst (sin_cos (i + 1))\<bar>"
  define e :: int where "e = 3 * 2 ^ (i + 1)"
  define x where "x = \<bar>sin (real (i + 1))\<bar>"
  have s: "s = 2 ^ 96 * uint t + s mod 2 ^ 96" "e \<le> s mod 2 ^ 96" "s mod 2 ^ 96 < 2 ^ 96 - e"
    using assms mult_div_mod_eq [of "2 ^ 96" s] by (simp_all add: sine_ok_def Let_def s_def e_def)
  have "\<bar>of_int (fst (sin_cos (i + 1))) - 2 ^ 128 * sin (real (i + 1))\<bar> \<le> of_int e"
    using sin_cos_bound [of "i + 1"] by (simp add: e_def)
  then have "\<bar>of_int s - 2 ^ 128 * x\<bar> \<le> of_int e"
    unfolding s_def x_def by (simp add: abs_if split: if_splits)
  moreover have "(of_int s :: real) = 2 ^ 96 * of_int (uint t) + of_int (s mod 2 ^ 96)"
    by (metis s(1) of_int_add of_int_mult of_int_numeral of_int_power)
  moreover have "(of_int e :: real) \<le> of_int (s mod 2 ^ 96)"
    using s(2) by (simp only: of_int_le_iff)
  moreover have "(of_int (s mod 2 ^ 96) :: real) < of_int (2 ^ 96 - e)"
    using s(3) by (simp only: of_int_less_iff)
  then have "(of_int (s mod 2 ^ 96) :: real) < 2 ^ 96 - of_int e"
    by simp
  ultimately have "\<lfloor>4294967296 * x\<rfloor> = uint t"
    by (intro floor_unique) simp_all
  then show ?thesis
    by (simp add: rfc_T_def x_def)
qed

text \<open>Whether a table has the constants, decided over the integers.\<close>

fun sine_check :: "int \<times> int \<Rightarrow> int \<Rightarrow> u32 list \<Rightarrow> bool" where
  "sine_check sc e [] = True"
| "sine_check sc e (t # ts) =
     (let sc = sin_cos_step sc; e = 2 * e; s = \<bar>fst sc\<bar>
      in s div 2 ^ 96 = uint t \<and> e \<le> s mod 2 ^ 96 \<and> s mod 2 ^ 96 < 2 ^ 96 - e \<and> sine_check sc e ts)"

lemma sine_check_ok: "sine_check (sin_cos i) (3 * 2 ^ i) ts \<Longrightarrow> j < length ts \<Longrightarrow> sine_ok (i + j + 1) (ts ! j)"
proof (induction ts arbitrary: i j)
  case (Cons t ts)
  have c: "sine_ok (Suc i) t" "sine_check (sin_cos (Suc i)) (3 * 2 ^ Suc i) ts"
    using Cons.prems(1) by (simp_all add: Let_def sine_ok_def)
  then show ?case
    using Cons.IH [OF c(2), of "j - 1"] Cons.prems(2) by (cases j) simp_all
qed simp

lemma sine_table: "sine_check (0, 2 ^ 128) 3 ts \<Longrightarrow> j < length ts \<Longrightarrow> rfc_T j = ts ! j"
  using sine_check_ok [of 0 ts j] sine_ok [of j "ts ! j"] by simp

end
