(* ===== verification/Sha256.thy ===== *)
theory Sha256
  imports Md32 Digest_Constants
begin

unbundle bit_operations_syntax

text \<open>
  SHA-224 and SHA-256, \<^verbatim>\<open>crypto/sha/sha256.c\<close>: the portable block function, in its unrolled form
  and in the form for \<^verbatim>\<open>OPENSSL_SMALL_FOOTPRINT\<close>, and the interface functions over
  \<^verbatim>\<open>md32_common.h\<close>. The array \<^verbatim>\<open>h\<close> is a list of eight words. The unrolled rounds pass the eight
  registers to the macro in rotated order; the model keeps the registers in the order of the
  arguments and rotates the tuple after each round. The lemmas show that both forms compute the
  function of FIPS 180-4.
\<close>

section \<open>Definitions\<close>

type_synonym regs = "u32 \<times> u32 \<times> u32 \<times> u32 \<times> u32 \<times> u32 \<times> u32 \<times> u32"

text \<open>The constants, a list for each line of the table in the source.\<close>

definition K256 :: "u32 list" where
  "K256 = concat [
    [0x428a2f98, 0x71374491, 0xb5c0fbcf, 0xe9b5dba5],
    [0x3956c25b, 0x59f111f1, 0x923f82a4, 0xab1c5ed5],
    [0xd807aa98, 0x12835b01, 0x243185be, 0x550c7dc3],
    [0x72be5d74, 0x80deb1fe, 0x9bdc06a7, 0xc19bf174],
    [0xe49b69c1, 0xefbe4786, 0x0fc19dc6, 0x240ca1cc],
    [0x2de92c6f, 0x4a7484aa, 0x5cb0a9dc, 0x76f988da],
    [0x983e5152, 0xa831c66d, 0xb00327c8, 0xbf597fc7],
    [0xc6e00bf3, 0xd5a79147, 0x06ca6351, 0x14292967],
    [0x27b70a85, 0x2e1b2138, 0x4d2c6dfc, 0x53380d13],
    [0x650a7354, 0x766a0abb, 0x81c2c92e, 0x92722c85],
    [0xa2bfe8a1, 0xa81a664b, 0xc24b8b70, 0xc76c51a3],
    [0xd192e819, 0xd6990624, 0xf40e3585, 0x106aa070],
    [0x19a4c116, 0x1e376c08, 0x2748774c, 0x34b0bcb5],
    [0x391c0cb3, 0x4ed8aa4a, 0x5b9cca4f, 0x682e6ff3],
    [0x748f82ee, 0x78a5636f, 0x84c87814, 0x8cc70208],
    [0x90befffa, 0xa4506ceb, 0xbef9a3f7, 0xc67178f2]]"

definition Sigma0 :: "u32 \<Rightarrow> u32" where
  "Sigma0 x = ROTATE x 30 XOR ROTATE x 19 XOR ROTATE x 10"

definition Sigma1 :: "u32 \<Rightarrow> u32" where
  "Sigma1 x = ROTATE x 26 XOR ROTATE x 21 XOR ROTATE x 7"

definition sigma0 :: "u32 \<Rightarrow> u32" where
  "sigma0 x = ROTATE x 25 XOR ROTATE x 14 XOR drop_bit 3 x"

definition sigma1 :: "u32 \<Rightarrow> u32" where
  "sigma1 x = ROTATE x 15 XOR ROTATE x 13 XOR drop_bit 10 x"

definition Ch :: "u32 \<Rightarrow> u32 \<Rightarrow> u32 \<Rightarrow> u32" where
  "Ch x y z = (x AND y) XOR (NOT x AND z)"

definition Maj :: "u32 \<Rightarrow> u32 \<Rightarrow> u32 \<Rightarrow> u32" where
  "Maj x y z = (x AND y) XOR (x AND z) XOR (y AND z)"

definition regs_of :: "u32 list \<Rightarrow> regs" where
  "regs_of h = (h ! 0, h ! 1, h ! 2, h ! 3, h ! 4, h ! 5, h ! 6, h ! 7)"

definition add_regs :: "u32 list \<Rightarrow> regs \<Rightarrow> u32 list" where
  "add_regs H r =
     (case r of (a, b, c, d, e, f, g, h) \<Rightarrow>
       [H ! 0 + a, H ! 1 + b, H ! 2 + c, H ! 3 + d, H ! 4 + e, H ! 5 + f, H ! 6 + g, H ! 7 + h])"

text \<open>The loop body of the small form: \<open>T1\<close> comes in as the message word.\<close>

definition small_round :: "nat \<Rightarrow> u32 \<Rightarrow> regs \<Rightarrow> regs" where
  "small_round i T1 r =
     (case r of (a, b, c, d, e, f, g, h) \<Rightarrow>
       let T1 = T1 + (h + Sigma1 e + Ch e f g + K256 ! i);
           T2 = Sigma0 a + Maj a b c
       in (T1 + T2, a, b, c, d + T1, e, f, g))"

definition sha256_block_small :: "u32 list \<Rightarrow> byte list \<Rightarrow> u32 list" where
  "sha256_block_small H data =
     (let (X, r) = foldl (\<lambda>(X, r) i. let l = HOST_c2l_be data (4 * i) in (X[i := l], small_round i l r))
            (replicate 16 0, regs_of H) [0..<16];
          (X, r) = foldl (\<lambda>(X, r) i.
             let s0 = sigma0 (X ! ((i + 1) mod 16));
                 s1 = sigma1 (X ! ((i + 14) mod 16));
                 T1 = X ! (i mod 16) + (s0 + s1 + X ! ((i + 9) mod 16))
             in (X[i mod 16 := T1], small_round i T1 r)) (X, r) [16..<64]
      in add_regs H r)"

definition ROUND_00_15 :: "nat \<Rightarrow> u32 \<Rightarrow> regs \<Rightarrow> regs" where
  "ROUND_00_15 i T1 r =
     (case r of (a, b, c, d, e, f, g, h) \<Rightarrow>
       let T1 = T1 + (h + Sigma1 e + Ch e f g + K256 ! i);
           h = Sigma0 a + Maj a b c;
           d = d + T1;
           h = h + T1
       in (a, b, c, d, e, f, g, h))"

definition ROUND_16_63 :: "nat \<Rightarrow> u32 list \<times> regs \<Rightarrow> u32 list \<times> regs" where
  "ROUND_16_63 i Xr =
     (case Xr of (X, r) \<Rightarrow>
       let s0 = sigma0 (X ! ((i + 1) mod 16));
           s1 = sigma1 (X ! ((i + 14) mod 16));
           T1 = X ! (i mod 16) + (s0 + s1 + X ! ((i + 9) mod 16))
       in (X[i mod 16 := T1], ROUND_00_15 i T1 r))"

text \<open>The arguments of the next call of the macro.\<close>

definition next_args :: "regs \<Rightarrow> regs" where
  "next_args r = (case r of (a, b, c, d, e, f, g, h) \<Rightarrow> (h, a, b, c, d, e, f, g))"

definition sha256_block :: "u32 list \<Rightarrow> byte list \<Rightarrow> u32 list" where
  "sha256_block H data =
     (let (X, r) = foldl (\<lambda>(X, r) i.
             let l = HOST_c2l_be data (4 * i) in (X[i := l], next_args (ROUND_00_15 i l r)))
            (replicate 16 0, regs_of H) [0..<16];
          (X, r) = foldl (\<lambda>Xr i. apsnd next_args (ROUND_16_63 i Xr)) (X, r) [16..<64]
      in add_regs H r)"

definition sha256_block_data_order :: "u32 list \<Rightarrow> byte list \<Rightarrow> nat \<Rightarrow> u32 list" where
  "sha256_block_data_order H data num = block_data_order 64 sha256_block H data num"

record sha256_ctx = "u32 list hash_ctx" +
  sc_md_len :: nat

definition SHA224_Init :: sha256_ctx where
  "SHA224_Init =
     \<lparr>hc_h = [0xc1059ed8, 0x367cd507, 0x3070dd17, 0xf70e5939, 0xffc00b31, 0x68581511, 0x64f98fa7, 0xbefa4fa4],
      hc_Nl = 0, hc_Nh = 0, hc_data = replicate 64 0, hc_num = 0, sc_md_len = 28\<rparr>"

definition SHA256_Init :: sha256_ctx where
  "SHA256_Init =
     \<lparr>hc_h = [0x6a09e667, 0xbb67ae85, 0x3c6ef372, 0xa54ff53a, 0x510e527f, 0x9b05688c, 0x1f83d9ab, 0x5be0cd19],
      hc_Nl = 0, hc_Nh = 0, hc_data = replicate 64 0, hc_num = 0, sc_md_len = 32\<rparr>"

definition SHA256_Update :: "sha256_ctx \<Rightarrow> byte list \<Rightarrow> sha256_ctx" where
  "SHA256_Update = HASH_UPDATE count_u64 sha256_block"

definition SHA256_Transform :: "sha256_ctx \<Rightarrow> byte list \<Rightarrow> sha256_ctx" where
  "SHA256_Transform = HASH_TRANSFORM sha256_block"

text \<open>\<^verbatim>\<open>HASH_MAKE_STRING\<close>; \<open>None\<close> is the \<^verbatim>\<open>return 0\<close> of its default case.\<close>

definition sha256_make_string :: "sha256_ctx \<Rightarrow> byte list option" where
  "sha256_make_string ctx =
     (if sc_md_len ctx = 28 then Some (concat (map HOST_l2c_be (take (28 div 4) (hc_h ctx))))
      else if sc_md_len ctx = 32 then Some (concat (map HOST_l2c_be (take (32 div 4) (hc_h ctx))))
      else if 32 < sc_md_len ctx then None
      else Some (concat (map HOST_l2c_be (take (sc_md_len ctx div 4) (hc_h ctx)))))"

definition SHA256_Final :: "sha256_ctx \<Rightarrow> byte list option \<times> sha256_ctx" where
  "SHA256_Final ctx = (let ctx = HASH_FINAL True sha256_block ctx in (sha256_make_string ctx, ctx))"

definition SHA224_Update :: "sha256_ctx \<Rightarrow> byte list \<Rightarrow> sha256_ctx" where
  "SHA224_Update ctx data = SHA256_Update ctx data"

definition SHA224_Final :: "sha256_ctx \<Rightarrow> byte list option \<times> sha256_ctx" where
  "SHA224_Final ctx = SHA256_Final ctx"

definition SHA224 :: "byte list \<Rightarrow> byte list option" where
  "SHA224 data = fst (SHA256_Final (SHA256_Update SHA224_Init data))"

definition SHA256 :: "byte list \<Rightarrow> byte list option" where
  "SHA256 data = fst (SHA256_Final (SHA256_Update SHA256_Init data))"

section \<open>The function of FIPS 180-4\<close>

text \<open>
  The standard writes rotations to the right, has a schedule of sixty-four words and renames the
  working variables after each step.
\<close>

definition fips_Sigma0 :: "u32 \<Rightarrow> u32" where
  "fips_Sigma0 x = word_rotr 2 x XOR word_rotr 13 x XOR word_rotr 22 x"

definition fips_Sigma1 :: "u32 \<Rightarrow> u32" where
  "fips_Sigma1 x = word_rotr 6 x XOR word_rotr 11 x XOR word_rotr 25 x"

definition fips_sigma0 :: "u32 \<Rightarrow> u32" where
  "fips_sigma0 x = word_rotr 7 x XOR word_rotr 18 x XOR drop_bit 3 x"

definition fips_sigma1 :: "u32 \<Rightarrow> u32" where
  "fips_sigma1 x = word_rotr 17 x XOR word_rotr 19 x XOR drop_bit 10 x"

definition fips_schedule :: "byte list \<Rightarrow> u32 list" where
  "fips_schedule data =
     expand (\<lambda>W. fips_sigma1 (W 14) + W 9 + fips_sigma0 (W 1) + W 0)
       (map (\<lambda>i. of_nat (be_nat (take 4 (drop (4 * i) data)))) [0..<16]) 48"

text \<open>
  The constants are bits of the cube roots of the first 64 primes; the initial hash values are bits of the square
  roots, for SHA-256 of the first eight primes and for SHA-224 the second 32 bits for the next eight.
\<close>

definition fips_K256 :: "nat \<Rightarrow> u32" where
  "fips_K256 t = root_bits 3 32 (fips_prime t)"

definition fips_H256 :: "u32 list" where
  "fips_H256 = map (root_bits 2 32) (map fips_prime [0..<8])"

definition fips_H224 :: "u32 list" where
  "fips_H224 = map (root_bits 2 64) (map fips_prime [8..<16])"

definition fips_round :: "nat \<Rightarrow> u32 \<Rightarrow> regs \<Rightarrow> regs" where
  "fips_round t W r =
     (case r of (a, b, c, d, e, f, g, h) \<Rightarrow>
       let T1 = h + fips_Sigma1 e + fips_Ch e f g + fips_K256 t + W;
           T2 = fips_Sigma0 a + fips_Maj a b c
       in (T1 + T2, a, b, c, d + T1, e, f, g))"

definition fips_sha256_block :: "u32 list \<Rightarrow> byte list \<Rightarrow> u32 list" where
  "fips_sha256_block H data =
     (case foldl (\<lambda>r t. fips_round t (fips_schedule data ! t) r) (H ! 0, H ! 1, H ! 2, H ! 3, H ! 4, H ! 5, H ! 6, H ! 7) [0..<64] of
        (a, b, c, d, e, f, g, h) \<Rightarrow> [H ! 0 + a, H ! 1 + b, H ! 2 + c, H ! 3 + d, H ! 4 + e, H ! 5 + f, H ! 6 + g, H ! 7 + h])"

section \<open>Equivalence\<close>

lemma K256_roots: "t < 64 \<Longrightarrow> fips_K256 t = K256 ! t"
proof -
  have "root_table 3 32 (map fips_prime [0..<64]) (map uint K256)"
    by code_simp
  then have "map (root_bits 3 32) (map fips_prime [0..<64]) = (map of_int (map uint K256) :: u32 list)"
    by (rule root_table) simp_all
  then have "map fips_K256 [0..<64] = K256"
    by (simp add: fips_K256_def [abs_def] comp_def)
  then show "t < 64 \<Longrightarrow> fips_K256 t = K256 ! t"
    using nth_map_upt [of t 64 0 fips_K256] by simp
qed

lemma H256_roots: "fips_H256 = hc_h SHA256_Init"
proof -
  have "root_table 2 32 (map fips_prime [0..<8]) (map uint (hc_h SHA256_Init))"
    by code_simp
  then have "fips_H256 = map of_int (map uint (hc_h SHA256_Init))"
    unfolding fips_H256_def by (rule root_table) simp_all
  then show ?thesis
    by (simp add: comp_def)
qed

lemma H224_roots: "fips_H224 = hc_h SHA224_Init"
proof -
  have "root_table 2 64 (map fips_prime [8..<16])
    [0xcbbb9d5dc1059ed8, 0x629a292a367cd507, 0x9159015a3070dd17, 0x152fecd8f70e5939,
     0x67332667ffc00b31, 0x8eb44a8768581511, 0xdb0c2e0d64f98fa7, 0x47b5481dbefa4fa4]"
    by code_simp
  then have "fips_H224 = map of_int
    [0xcbbb9d5dc1059ed8, 0x629a292a367cd507, 0x9159015a3070dd17, 0x152fecd8f70e5939,
     0x67332667ffc00b31, 0x8eb44a8768581511, 0xdb0c2e0d64f98fa7, 0x47b5481dbefa4fa4]"
    unfolding fips_H224_def by (rule root_table) simp_all
  then show ?thesis
    by (rule trans) code_simp
qed

text \<open>The function with the names of the source, between the two.\<close>

definition ref_round :: "nat \<Rightarrow> u32 \<Rightarrow> regs \<Rightarrow> regs" where
  "ref_round t W r =
     (case r of (a, b, c, d, e, f, g, h) \<Rightarrow>
       let T1 = h + fips_Sigma1 e + Ch e f g + K256 ! t + W;
           T2 = fips_Sigma0 a + Maj a b c
       in (T1 + T2, a, b, c, d + T1, e, f, g))"

definition ref_sha256_block :: "u32 list \<Rightarrow> byte list \<Rightarrow> u32 list" where
  "ref_sha256_block H data =
     add_regs H (foldl (\<lambda>r t. ref_round t (fips_schedule data ! t) r) (regs_of H) [0..<64])"

lemma ref_round_fips: "t < 64 \<Longrightarrow> ref_round t W r = fips_round t W r"
  by (simp add: ref_round_def fips_round_def K256_roots Ch_def Maj_def fips_Ch_def fips_Maj_def)

lemma ref_sha256_block_fips: "ref_sha256_block H data = fips_sha256_block H data"
proof -
  have "foldl (\<lambda>r t. ref_round t (fips_schedule data ! t) r) (regs_of H) [0..<64] =
      foldl (\<lambda>r t. fips_round t (fips_schedule data ! t) r) (regs_of H) [0..<64]"
    by (rule foldl_cong) (simp_all add: ref_round_fips)
  then show ?thesis
    unfolding ref_sha256_block_def fips_sha256_block_def add_regs_def regs_of_def by (simp only:)
qed

lemma fips_functions: "fips_Sigma0 = Sigma0" "fips_Sigma1 = Sigma1" "fips_sigma0 = sigma0" "fips_sigma1 = sigma1"
  using ROTATE_rotr [of 2] ROTATE_rotr [of 13] ROTATE_rotr [of 22] ROTATE_rotr [of 6] ROTATE_rotr [of 11] ROTATE_rotr [of 25]
    ROTATE_rotr [of 7] ROTATE_rotr [of 18] ROTATE_rotr [of 17] ROTATE_rotr [of 19]
  by (auto simp: fun_eq_iff fips_Sigma0_def fips_Sigma1_def fips_sigma0_def fips_sigma1_def
      Sigma0_def Sigma1_def sigma0_def sigma1_def)

lemma window_sha256: "window (\<lambda>W. fips_sigma1 (W 14) + W 9 + fips_sigma0 (W 1) + W (0 :: nat))"
  by (simp add: window_def)

lemma next_args_ROUND: "next_args (ROUND_00_15 i T r) = ref_round i T r"
  by (simp add: next_args_def ROUND_00_15_def ref_round_def fips_functions Let_def ac_simps split: prod.split)

lemma small_round_ref: "small_round i T r = ref_round i T r"
  by (simp add: small_round_def ref_round_def fips_functions Let_def ac_simps split: prod.split)


text \<open>
  Both forms of the block function run rounds over a ring: the first sixteen load it, the others
  extend it.
\<close>

lemma ring_form_ref:
  assumes len: "length data = 64" and rnd: "\<And>i T r. rnd i T r = ref_round i T r"
  shows "(let (X, r) = foldl (\<lambda>(X, r) i. let l = HOST_c2l_be data (4 * i) in (X[i := l], rnd i l r))
            (replicate 16 0, regs_of H) [0..<16];
          (X, r) = foldl (\<lambda>(X, r) i.
             let s0 = sigma0 (X ! ((i + 1) mod 16));
                 s1 = sigma1 (X ! ((i + 14) mod 16));
                 T1 = X ! (i mod 16) + (s0 + s1 + X ! ((i + 9) mod 16))
             in (X[i mod 16 := T1], rnd i T1 r)) (X, r) [16..<64]
      in add_regs H r) = ref_sha256_block H data"
proof -
  let ?g = "\<lambda>W. fips_sigma1 (W 14) + W 9 + fips_sigma0 (W 1) + W (0 :: nat)"
  have ws: "map (\<lambda>i. HOST_c2l_be data (4 * i)) [0..<16] = map (\<lambda>i. of_nat (be_nat (take 4 (drop (4 * i) data)))) [0..<16]"
    using len by (intro map_cong refl) (simp add: HOST_c2l_be_eq)
  have word: "X ! (i mod 16) + (sigma0 (X ! ((i + 1) mod 16)) + sigma1 (X ! ((i + 14) mod 16)) + X ! ((i + 9) mod 16)) =
      ring_word ?g X i" for X i
    by (simp add: ring_word_def fips_functions ac_simps)
  show ?thesis
    unfolding ref_sha256_block_def fips_schedule_def ws [symmetric] rnd [symmetric]
    unfolding Let_def [of "sigma0 x" for x] Let_def [of "sigma1 x" for x]
    by (rule ring_block [OF window_sha256 word]) simp
qed

lemma sha256_block_small_ref: "length data = 64 \<Longrightarrow> sha256_block_small H data = ref_sha256_block H data"
  unfolding sha256_block_small_def by (rule ring_form_ref [OF _ small_round_ref])

lemma sha256_block_ref: "length data = 64 \<Longrightarrow> sha256_block H data = ref_sha256_block H data"
proof -
  assume len: "length data = 64"
  have "(\<lambda>Xr i. apsnd next_args (ROUND_16_63 i Xr)) = (\<lambda>(X, r) i.
     let s0 = sigma0 (X ! ((i + 1) mod 16)); s1 = sigma1 (X ! ((i + 14) mod 16));
         T1 = X ! (i mod 16) + (s0 + s1 + X ! ((i + 9) mod 16))
     in (X[i mod 16 := T1], next_args (ROUND_00_15 i T1 r)))"
    by (simp add: ROUND_16_63_def Let_def fun_eq_iff)
  then show ?thesis
    unfolding sha256_block_def by (simp only: ring_form_ref [OF len next_args_ROUND])
qed

lemma sha256_block_fips: "length data = 64 \<Longrightarrow> sha256_block H data = fips_sha256_block H data"
  by (simp add: sha256_block_ref ref_sha256_block_fips)

lemma sha256_block_small_fips: "length data = 64 \<Longrightarrow> sha256_block_small H data = fips_sha256_block H data"
  by (simp add: sha256_block_small_ref ref_sha256_block_fips)

section \<open>The digest\<close>

definition fips_sha2_32 :: "u32 list \<Rightarrow> nat \<Rightarrow> byte list \<Rightarrow> byte list" where
  "fips_sha2_32 iv n msg =
     concat (map (\<lambda>w. be_bytes 4 (unat w)) (take n (md32_hash True fips_sha256_block iv msg)))"

definition fips_sha256 :: "byte list \<Rightarrow> byte list" where
  "fips_sha256 = fips_sha2_32 fips_H256 8"

definition fips_sha224 :: "byte list \<Rightarrow> byte list" where
  "fips_sha224 = fips_sha2_32 fips_H224 7"

lemma fips_sha256_eq: "fips_sha256 = fips_sha2_32 (hc_h SHA256_Init) 8"
  by (simp add: fips_sha256_def H256_roots)

lemma fips_sha224_eq: "fips_sha224 = fips_sha2_32 (hc_h SHA224_Init) 7"
  by (simp add: fips_sha224_def H224_roots)

lemma length_fips_sha256_block [simp]: "length (fips_sha256_block H data) = 8"
  by (simp add: fips_sha256_block_def split: prod.split)

lemma foldl_more:
  "sc_md_len (foldl SHA256_Update ctx ds) = sc_md_len ctx"
  by (induction ds arbitrary: ctx)
    (auto simp: SHA256_Update_def HASH_UPDATE_def hash_whole_blocks_def Let_def split: prod.splits)

lemma SHA256_Final_streaming:
  assumes "hc_h ctx = h0" "hc_Nl ctx = 0" "hc_Nh ctx = 0" "length (hc_data ctx) = 64" "hc_num ctx = 0"
    "\<forall>d\<in>set ds. length d < 2 ^ 64" "sc_md_len ctx = 28 \<or> sc_md_len ctx = 32"
  shows "fst (SHA256_Final (foldl SHA256_Update ctx ds)) = Some (fips_sha2_32 h0 (sc_md_len ctx div 4) (concat ds))"
proof -
  have "hc_h (HASH_FINAL True sha256_block (foldl SHA256_Update ctx ds)) = md32_hash True sha256_block h0 (concat ds)"
    unfolding SHA256_Update_def using assms by (intro hash_streaming) simp_all
  also have "\<dots> = md32_hash True fips_sha256_block h0 (concat ds)"
    by (rule md32_hash_cong) (rule sha256_block_fips)
  finally have h: "hc_h (HASH_FINAL True sha256_block (foldl SHA256_Update ctx ds)) = md32_hash True fips_sha256_block h0 (concat ds)" .
  have "sc_md_len (HASH_FINAL True sha256_block (foldl SHA256_Update ctx ds)) = sc_md_len ctx"
    by (simp add: HASH_FINAL_def Let_def foldl_more)
  then show ?thesis
    using assms(7) h
    by (auto simp: SHA256_Final_def sha256_make_string_def fips_sha2_32_def HOST_l2c_be_eq [abs_def])
qed

interpretation sha256: streaming_hash SHA256_Init SHA256_Update "\<lambda>ctx. the (fst (SHA256_Final ctx))" fips_sha256 32
proof
  fix ds :: "byte list list"
  assume "\<forall>d\<in>set ds. length d < 2 ^ 64"
  then show "the (fst (SHA256_Final (foldl SHA256_Update SHA256_Init ds))) = fips_sha256 (concat ds)"
    by (subst SHA256_Final_streaming) (simp_all add: SHA256_Init_def fips_sha256_eq)
next
  fix msg
  obtain h data where "md32_hash True fips_sha256_block (hc_h SHA256_Init) msg = fips_sha256_block h data"
    using md32_hash_nonempty [of True fips_sha256_block "hc_h SHA256_Init" msg] by auto
  then show "length (fips_sha256 msg) = 32"
    by (simp add: fips_sha256_eq fips_sha2_32_def length_concat comp_def sum_list_triv)
qed

interpretation sha224: streaming_hash SHA224_Init SHA224_Update "\<lambda>ctx. the (fst (SHA224_Final ctx))" fips_sha224 28
proof
  fix ds :: "byte list list"
  assume "\<forall>d\<in>set ds. length d < 2 ^ 64"
  moreover have "SHA224_Update = SHA256_Update"
    by (simp add: fun_eq_iff SHA224_Update_def)
  ultimately show "the (fst (SHA224_Final (foldl SHA224_Update SHA224_Init ds))) = fips_sha224 (concat ds)"
    unfolding SHA224_Final_def by (simp only:) (subst SHA256_Final_streaming, simp_all add: SHA224_Init_def fips_sha224_eq)
next
  fix msg
  obtain h data where "md32_hash True fips_sha256_block (hc_h SHA224_Init) msg = fips_sha256_block h data"
    using md32_hash_nonempty [of True fips_sha256_block "hc_h SHA224_Init" msg] by auto
  then show "length (fips_sha224 msg) = 28"
    by (simp add: fips_sha224_eq fips_sha2_32_def length_concat comp_def sum_list_triv)
qed

text \<open>
  C16. The block function of SHA-256, which is unrolled, passes its registers in rotated order and keeps
  the message schedule in a ring of sixteen words, and the loop form for small footprints both
  compute the compression function of FIPS 180-4 on every block of 64 bytes.
\<close>

theorem sha256_blocks_equivalent:
  assumes "length data = 64"
  shows "sha256_block H data = fips_sha256_block H data \<and> sha256_block_small H data = fips_sha256_block H data"
  using assms by (simp add: sha256_block_fips sha256_block_small_fips)

theorem sha256_blocks_equivalent_witness:
  "sha256_block (hc_h SHA256_Init) (replicate 64 7) = sha256_block_small (hc_h SHA256_Init) (replicate 64 7)"
  using sha256_blocks_equivalent [of "replicate 64 7"] by simp

text \<open>
  C10. However a message is cut into pieces for \<^verbatim>\<open>SHA256_Update\<close>, empty pieces and pieces of more than a
  block included, \<^verbatim>\<open>SHA256_Final\<close> returns the SHA-256 digest of FIPS 180-4 of the whole message; the
  same holds for SHA-224.
\<close>

theorem sha256_streaming:
  assumes "\<forall>d\<in>set ds. length d < 2 ^ 64"
  shows "fst (SHA256_Final (foldl SHA256_Update SHA256_Init ds)) = Some (fips_sha256 (concat ds)) \<and>
    fst (SHA224_Final (foldl SHA224_Update SHA224_Init ds)) = Some (fips_sha224 (concat ds))"
proof -
  have "SHA224_Update = SHA256_Update"
    by (simp add: fun_eq_iff SHA224_Update_def)
  then show ?thesis
    using SHA256_Final_streaming [OF refl, of SHA256_Init ds] SHA256_Final_streaming [OF refl, of SHA224_Init ds] assms
    by (simp add: SHA224_Final_def fips_sha256_eq fips_sha224_eq SHA256_Init_def SHA224_Init_def)
qed

theorem sha256_streaming_witness:
  "fst (SHA256_Final (SHA256_Update (SHA256_Update (SHA256_Update SHA256_Init [1, 2]) []) (replicate 100 3))) =
     SHA256 ([1, 2] @ replicate 100 3)"
  using sha256_streaming [of "[[1, 2], [], replicate 100 3]"] sha256_streaming [of "[[1, 2] @ replicate 100 3]"]
  by (simp add: SHA256_def)

end
