(* ===== verification/Sha1.thy ===== *)
theory Sha1
  imports Md32
begin

unbundle bit_operations_syntax

text \<open>
  SHA-1, \<^verbatim>\<open>crypto/sha/sha1.c\<close>. The eighty unrolled rounds work on the six names A to E and T, which
  move one place from round to round; the model keeps them in the order of the macro's arguments
  and rotates the tuple. After eighty rounds the order is E, T, A, B, C, D, as in the final
  additions of the source. The words \<^verbatim>\<open>XX0\<close> to \<^verbatim>\<open>XX15\<close> are a list.
\<close>

section \<open>Definitions\<close>

type_synonym sha1_regs = "u32 \<times> u32 \<times> u32 \<times> u32 \<times> u32 \<times> u32"

type_synonym sha1_h = "u32 \<times> u32 \<times> u32 \<times> u32 \<times> u32"

definition F_00_19 :: "u32 \<Rightarrow> u32 \<Rightarrow> u32 \<Rightarrow> u32" where
  "F_00_19 b c d = ((c XOR d) AND b) XOR d"

definition F_20_39 :: "u32 \<Rightarrow> u32 \<Rightarrow> u32 \<Rightarrow> u32" where
  "F_20_39 b c d = b XOR c XOR d"

definition F_40_59 :: "u32 \<Rightarrow> u32 \<Rightarrow> u32 \<Rightarrow> u32" where
  "F_40_59 b c d = (b AND c) OR ((b OR c) AND d)"

definition F_60_79 :: "u32 \<Rightarrow> u32 \<Rightarrow> u32 \<Rightarrow> u32" where
  "F_60_79 b c d = F_20_39 b c d"

definition BODY_00_15 :: "u32 \<Rightarrow> sha1_regs \<Rightarrow> sha1_regs" where
  "BODY_00_15 xi r =
     (case r of (a, b, c, d, e, f) \<Rightarrow>
       let f = xi + e + 0x5a827999 + ROTATE a 5 + F_00_19 b c d; b = ROTATE b 30 in (a, b, c, d, e, f))"

definition Xupdate :: "u32 \<Rightarrow> u32 \<Rightarrow> u32 \<Rightarrow> u32 \<Rightarrow> u32" where
  "Xupdate ia ib ic ix = ROTATE (ia XOR ib XOR ic XOR ix) 1"

definition BODY_16_19 :: "u32 \<Rightarrow> sha1_regs \<Rightarrow> sha1_regs" where
  "BODY_16_19 x r =
     (case r of (a, b, c, d, e, f) \<Rightarrow>
       let f = x; f = f + (e + 0x5a827999 + ROTATE a 5 + F_00_19 b c d); b = ROTATE b 30 in (a, b, c, d, e, f))"

definition BODY_20_39 :: "u32 \<Rightarrow> sha1_regs \<Rightarrow> sha1_regs" where
  "BODY_20_39 x r =
     (case r of (a, b, c, d, e, f) \<Rightarrow>
       let f = x; f = f + (e + 0x6ed9eba1 + ROTATE a 5 + F_20_39 b c d); b = ROTATE b 30 in (a, b, c, d, e, f))"

definition BODY_40_59 :: "u32 \<Rightarrow> sha1_regs \<Rightarrow> sha1_regs" where
  "BODY_40_59 x r =
     (case r of (a, b, c, d, e, f) \<Rightarrow>
       let f = x; f = f + (e + 0x8f1bbcdc + ROTATE a 5 + F_40_59 b c d); b = ROTATE b 30 in (a, b, c, d, e, f))"

definition BODY_60_79 :: "u32 \<Rightarrow> sha1_regs \<Rightarrow> sha1_regs" where
  "BODY_60_79 x r =
     (case r of (a, b, c, d, e, f) \<Rightarrow>
       let f = x + e + 0xca62c1d6 + ROTATE a 5 + F_60_79 b c d; b = ROTATE b 30 in (a, b, c, d, e, f))"

definition sha1_next_args :: "sha1_regs \<Rightarrow> sha1_regs" where
  "sha1_next_args r = (case r of (a, b, c, d, e, f) \<Rightarrow> (f, a, b, c, d, e))"

text \<open>The macro of round \<open>i\<close> from 16 on, after \<^verbatim>\<open>Xupdate\<close>.\<close>

definition sha1_body :: "nat \<Rightarrow> u32 \<Rightarrow> sha1_regs \<Rightarrow> sha1_regs" where
  "sha1_body i x r =
     (if i < 16 then BODY_00_15 x r
      else if i < 20 then BODY_16_19 x r
      else if i < 40 then BODY_20_39 x r
      else if i < 60 then BODY_40_59 x r
      else BODY_60_79 x r)"

definition sha1_block :: "sha1_h \<Rightarrow> byte list \<Rightarrow> sha1_h" where
  "sha1_block h data =
     (case h of (h0, h1, h2, h3, h4) \<Rightarrow>
       let (X, r) = foldl (\<lambda>(X, r) i. let l = HOST_c2l_be data (4 * i) in (X[i := l], sha1_next_args (sha1_body i l r)))
              (replicate 16 0, (h0, h1, h2, h3, h4, 0)) [0..<16];
           (X, r) = foldl (\<lambda>(X, r) i.
              let x = Xupdate (X ! (i mod 16)) (X ! ((i + 2) mod 16)) (X ! ((i + 8) mod 16)) (X ! ((i + 13) mod 16))
              in (X[i mod 16 := x], sha1_next_args (sha1_body i x r))) (X, r) [16..<80]
       in (case r of (e, t, a, b, c, _) \<Rightarrow> (h0 + e, h1 + t, h2 + a, h3 + b, h4 + c)))"

definition sha1_block_data_order :: "sha1_h \<Rightarrow> byte list \<Rightarrow> nat \<Rightarrow> sha1_h" where
  "sha1_block_data_order h data num = block_data_order 64 sha1_block h data num"

definition SHA1_Init :: "sha1_h hash_ctx" where
  "SHA1_Init =
     \<lparr>hc_h = (0x67452301, 0xefcdab89, 0x98badcfe, 0x10325476, 0xc3d2e1f0),
      hc_Nl = 0, hc_Nh = 0, hc_data = replicate 64 0, hc_num = 0\<rparr>"

definition SHA1_Update :: "sha1_h hash_ctx \<Rightarrow> byte list \<Rightarrow> sha1_h hash_ctx" where
  "SHA1_Update = HASH_UPDATE count_u32 sha1_block"

definition SHA1_Transform :: "sha1_h hash_ctx \<Rightarrow> byte list \<Rightarrow> sha1_h hash_ctx" where
  "SHA1_Transform = HASH_TRANSFORM sha1_block"

definition sha1_make_string :: "sha1_h \<Rightarrow> byte list" where
  "sha1_make_string h =
     (case h of (h0, h1, h2, h3, h4) \<Rightarrow>
       HOST_l2c_be h0 @ HOST_l2c_be h1 @ HOST_l2c_be h2 @ HOST_l2c_be h3 @ HOST_l2c_be h4)"

definition SHA1_Final :: "sha1_h hash_ctx \<Rightarrow> byte list \<times> sha1_h hash_ctx" where
  "SHA1_Final ctx = (let ctx = HASH_FINAL True sha1_block ctx in (sha1_make_string (hc_h ctx), ctx))"

definition SHA1 :: "byte list \<Rightarrow> byte list" where
  "SHA1 data = fst (SHA1_Final (SHA1_Update SHA1_Init data))"

section \<open>The function of FIPS 180-4\<close>

definition fips_f :: "nat \<Rightarrow> u32 \<Rightarrow> u32 \<Rightarrow> u32 \<Rightarrow> u32" where
  "fips_f t x y z =
     (if t < 20 then (x AND y) XOR (NOT x AND z)
      else if t < 40 then x XOR y XOR z
      else if t < 60 then (x AND y) XOR (x AND z) XOR (y AND z)
      else x XOR y XOR z)"

definition fips_K :: "nat \<Rightarrow> u32" where
  "fips_K t = (if t < 20 then 0x5a827999 else if t < 40 then 0x6ed9eba1 else if t < 60 then 0x8f1bbcdc else 0xca62c1d6)"

definition fips_sha1_schedule :: "byte list \<Rightarrow> u32 list" where
  "fips_sha1_schedule data =
     expand (\<lambda>W. word_rotl 1 (W 13 XOR W 8 XOR W 2 XOR W 0))
       (map (\<lambda>i. of_nat (be_nat (take 4 (drop (4 * i) data)))) [0..<16]) 64"

definition fips_sha1_round :: "nat \<Rightarrow> u32 \<Rightarrow> sha1_h \<Rightarrow> sha1_h" where
  "fips_sha1_round t W r =
     (case r of (a, b, c, d, e) \<Rightarrow>
       let T = word_rotl 5 a + fips_f t b c d + e + fips_K t + W in (T, a, word_rotl 30 b, c, d))"

definition fips_sha1_block :: "sha1_h \<Rightarrow> byte list \<Rightarrow> sha1_h" where
  "fips_sha1_block h data =
     (case h of (h0, h1, h2, h3, h4) \<Rightarrow>
      case foldl (\<lambda>r t. fips_sha1_round t (fips_sha1_schedule data ! t) r) h [0..<80] of
        (a, b, c, d, e) \<Rightarrow> (h0 + a, h1 + b, h2 + c, h3 + d, h4 + e))"

text \<open>The initial hash value of section 5.3.1.\<close>

definition fips_sha1_H0 :: sha1_h where
  "fips_sha1_H0 = (0x67452301, 0xefcdab89, 0x98badcfe, 0x10325476, 0xc3d2e1f0)"

definition fips_sha1 :: "byte list \<Rightarrow> byte list" where
  "fips_sha1 msg =
     (case md32_hash True fips_sha1_block fips_sha1_H0 msg of (h0, h1, h2, h3, h4) \<Rightarrow>
       concat (map (\<lambda>w. be_bytes 4 (unat w)) [h0, h1, h2, h3, h4]))"

section \<open>Equivalence\<close>

lemma fips_sha1_eq:
  "fips_sha1 msg =
     (case md32_hash True fips_sha1_block (hc_h SHA1_Init) msg of (h0, h1, h2, h3, h4) \<Rightarrow>
       concat (map (\<lambda>w. be_bytes 4 (unat w)) [h0, h1, h2, h3, h4]))"
  by (simp add: fips_sha1_def fips_sha1_H0_def SHA1_Init_def)

definition drop_last :: "sha1_regs \<Rightarrow> sha1_h" where
  "drop_last r = (case r of (a, b, c, d, e, f) \<Rightarrow> (a, b, c, d, e))"

text \<open>Wei Dai's forms of the round functions.\<close>

lemma F_functions:
  "F_00_19 b c d = (b AND c) XOR (NOT b AND d)"
  "F_40_59 b c d = (b AND c) XOR (b AND d) XOR (c AND d)"
  by (rule bit_word_eqI, auto simp: F_00_19_def F_40_59_def bit_simps)+

lemma sha1_round_fips: "drop_last (sha1_next_args (sha1_body i x r)) = fips_sha1_round i x (drop_last r)"
  by (simp add: drop_last_def sha1_next_args_def sha1_body_def BODY_00_15_def BODY_16_19_def BODY_20_39_def BODY_40_59_def
      BODY_60_79_def F_60_79_def F_20_39_def F_functions fips_sha1_round_def fips_f_def fips_K_def ROTATE_rotl Let_def ac_simps
      split: prod.split)

lemma sha1_block_rounds:
  "sha1_block (h0, h1, h2, h3, h4) data =
    (let r = foldl (\<lambda>r t. sha1_next_args (sha1_body t (expand (\<lambda>W. word_rotl 1 (W 13 XOR W 8 XOR W 2 XOR W 0))
           (map (\<lambda>i. HOST_c2l_be data (4 * i)) [0..<16]) 64 ! t) r)) (h0, h1, h2, h3, h4, 0) [0..<80]
     in case r of (e, t, a, b, c, _) \<Rightarrow> (h0 + e, h1 + t, h2 + a, h3 + b, h4 + c))"
proof -
  let ?g = "\<lambda>W. word_rotl 1 (W 13 XOR W 8 XOR W 2 XOR W (0 :: nat)) :: u32"
  have word: "Xupdate (X ! (i mod 16)) (X ! ((i + 2) mod 16)) (X ! ((i + 8) mod 16)) (X ! ((i + 13) mod 16)) = ring_word ?g X i" for X i
    by (simp add: Xupdate_def ring_word_def ROTATE_rotl ac_simps)
  have "window ?g"
    by (simp add: window_def)
  then show ?thesis
    unfolding sha1_block_def prod.case Let_def [of "foldl (\<lambda>r t. sha1_next_args (f r t)) a xs" for f a xs]
    by (rule ring_block [OF _ word]) simp
qed

lemma sha1_block_fips:
  assumes len: "length data = 64"
  shows "sha1_block h data = fips_sha1_block h data"
proof -
  obtain h0 h1 h2 h3 h4 where h: "h = (h0, h1, h2, h3, h4)"
    by (cases h)
  let ?r = "(h0, h1, h2, h3, h4, 0 :: u32)"
  let ?step = "\<lambda>r t. sha1_next_args (sha1_body t (fips_sha1_schedule data ! t) r)"
  have "map (\<lambda>i. HOST_c2l_be data (4 * i)) [0..<16] = map (\<lambda>i. of_nat (be_nat (take 4 (drop (4 * i) data)))) [0..<16]"
    using len by (intro map_cong refl) (simp add: HOST_c2l_be_eq)
  then have 1: "sha1_block h data = (case foldl ?step ?r [0..<80] of (e, t, a, b, c, _) \<Rightarrow> (h0 + e, h1 + t, h2 + a, h3 + b, h4 + c))"
    unfolding h sha1_block_rounds fips_sha1_schedule_def Let_def by (simp only:)
  have 2: "foldl (\<lambda>r t. fips_sha1_round t (fips_sha1_schedule data ! t) r) h [0..<80] = drop_last (foldl ?step ?r [0..<80])"
  proof -
    have "h = drop_last ?r"
      by (simp add: h drop_last_def)
    then show ?thesis
      using foldl_fusion [of drop_last ?step "\<lambda>r t. fips_sha1_round t (fips_sha1_schedule data ! t) r" ?r "[0..<80]"]
      by (simp only: sha1_round_fips)
  qed
  show ?thesis
    unfolding 1 fips_sha1_block_def 2 unfolding h prod.case drop_last_def
    by (cases "foldl ?step ?r [0..<80]") (simp only: prod.case)
qed

section \<open>The digest\<close>

lemma SHA1_Final_streaming:
  assumes "\<forall>d\<in>set ds. length d < 2 ^ 64"
  shows "fst (SHA1_Final (foldl SHA1_Update SHA1_Init ds)) = fips_sha1 (concat ds)"
proof -
  have "hc_h (HASH_FINAL True sha1_block (foldl SHA1_Update SHA1_Init ds)) = md32_hash True sha1_block (hc_h SHA1_Init) (concat ds)"
    unfolding SHA1_Update_def using assms by (intro hash_streaming) (simp_all add: SHA1_Init_def)
  also have "\<dots> = md32_hash True fips_sha1_block (hc_h SHA1_Init) (concat ds)"
    by (rule md32_hash_cong) (rule sha1_block_fips)
  finally show ?thesis
    by (simp add: SHA1_Final_def fips_sha1_eq sha1_make_string_def HOST_l2c_be_eq Let_def split: prod.split)
qed

interpretation sha1: streaming_hash SHA1_Init SHA1_Update "\<lambda>ctx. fst (SHA1_Final ctx)" fips_sha1 20
  by unfold_locales (simp_all add: SHA1_Final_streaming fips_sha1_def split: prod.split)

text \<open>
  C17. However a message is cut into pieces for \<^verbatim>\<open>SHA1_Update\<close>, \<^verbatim>\<open>SHA1_Final\<close> returns the SHA-1 digest of
  FIPS 180-4 of the whole message, which \<^verbatim>\<open>SHA1\<close> computes in one call.
\<close>

theorem sha1_streaming:
  assumes "\<forall>d\<in>set ds. length d < 2 ^ 64" "length msg < 2 ^ 64"
  shows "fst (SHA1_Final (foldl SHA1_Update SHA1_Init ds)) = fips_sha1 (concat ds) \<and> SHA1 msg = fips_sha1 msg"
  using assms by (simp add: SHA1_def sha1.digest_pieces sha1.digest_1)

theorem sha1_streaming_witness:
  "fst (SHA1_Final (SHA1_Update (SHA1_Update SHA1_Init [1, 2]) (replicate 100 3))) = SHA1 ([1, 2] @ replicate 100 3)"
  using sha1_streaming [of "[[1, 2], replicate 100 3]" "[1, 2] @ replicate 100 3"] by simp

end
