(* ===== verification/Md5.thy ===== *)
theory Md5
  imports Md32 Digest_Constants
begin

unbundle bit_operations_syntax

text \<open>
  MD5, \<^verbatim>\<open>crypto/md5/md5.c\<close>. The sixty-four unrolled steps are a table of the message word, the
  rotation and the constant of each macro call; the registers move one place from step to step, so
  the model keeps them in the order of the macro's arguments and rotates the tuple.
\<close>

section \<open>Definitions\<close>

type_synonym md5_h = "u32 \<times> u32 \<times> u32 \<times> u32"

definition md5_F :: "u32 \<Rightarrow> u32 \<Rightarrow> u32 \<Rightarrow> u32" where
  "md5_F b c d = ((c XOR d) AND b) XOR d"

definition md5_G :: "u32 \<Rightarrow> u32 \<Rightarrow> u32 \<Rightarrow> u32" where
  "md5_G b c d = ((b XOR c) AND d) XOR c"

definition md5_H :: "u32 \<Rightarrow> u32 \<Rightarrow> u32 \<Rightarrow> u32" where
  "md5_H b c d = b XOR c XOR d"

definition md5_I :: "u32 \<Rightarrow> u32 \<Rightarrow> u32 \<Rightarrow> u32" where
  "md5_I b c d = (NOT d OR b) XOR c"

text \<open>\<^verbatim>\<open>R0\<close> to \<^verbatim>\<open>R3\<close> differ in the function \<open>fn\<close> only.\<close>

definition md5_R :: "(u32 \<Rightarrow> u32 \<Rightarrow> u32 \<Rightarrow> u32) \<Rightarrow> u32 \<Rightarrow> nat \<Rightarrow> u32 \<Rightarrow> md5_h \<Rightarrow> md5_h" where
  "md5_R fn k s t r =
     (case r of (a, b, c, d) \<Rightarrow>
       let a = a + (k + t + fn b c d); a = ROTATE a s; a = a + b in (a, b, c, d))"

definition md5_next_args :: "md5_h \<Rightarrow> md5_h" where
  "md5_next_args r = (case r of (a, b, c, d) \<Rightarrow> (d, a, b, c))"

definition md5_round0 :: "(nat \<times> nat \<times> u32) list" where
  "md5_round0 = [
    (0, 7, 0xd76aa478), (1, 12, 0xe8c7b756), (2, 17, 0x242070db), (3, 22, 0xc1bdceee),
    (4, 7, 0xf57c0faf), (5, 12, 0x4787c62a), (6, 17, 0xa8304613), (7, 22, 0xfd469501),
    (8, 7, 0x698098d8), (9, 12, 0x8b44f7af), (10, 17, 0xffff5bb1), (11, 22, 0x895cd7be),
    (12, 7, 0x6b901122), (13, 12, 0xfd987193), (14, 17, 0xa679438e), (15, 22, 0x49b40821)]"

definition md5_round1 :: "(nat \<times> nat \<times> u32) list" where
  "md5_round1 = [
    (1, 5, 0xf61e2562), (6, 9, 0xc040b340), (11, 14, 0x265e5a51), (0, 20, 0xe9b6c7aa),
    (5, 5, 0xd62f105d), (10, 9, 0x02441453), (15, 14, 0xd8a1e681), (4, 20, 0xe7d3fbc8),
    (9, 5, 0x21e1cde6), (14, 9, 0xc33707d6), (3, 14, 0xf4d50d87), (8, 20, 0x455a14ed),
    (13, 5, 0xa9e3e905), (2, 9, 0xfcefa3f8), (7, 14, 0x676f02d9), (12, 20, 0x8d2a4c8a)]"

definition md5_round2 :: "(nat \<times> nat \<times> u32) list" where
  "md5_round2 = [
    (5, 4, 0xfffa3942), (8, 11, 0x8771f681), (11, 16, 0x6d9d6122), (14, 23, 0xfde5380c),
    (1, 4, 0xa4beea44), (4, 11, 0x4bdecfa9), (7, 16, 0xf6bb4b60), (10, 23, 0xbebfbc70),
    (13, 4, 0x289b7ec6), (0, 11, 0xeaa127fa), (3, 16, 0xd4ef3085), (6, 23, 0x04881d05),
    (9, 4, 0xd9d4d039), (12, 11, 0xe6db99e5), (15, 16, 0x1fa27cf8), (2, 23, 0xc4ac5665)]"

definition md5_round3 :: "(nat \<times> nat \<times> u32) list" where
  "md5_round3 = [
    (0, 6, 0xf4292244), (7, 10, 0x432aff97), (14, 15, 0xab9423a7), (5, 21, 0xfc93a039),
    (12, 6, 0x655b59c3), (3, 10, 0x8f0ccc92), (10, 15, 0xffeff47d), (1, 21, 0x85845dd1),
    (8, 6, 0x6fa87e4f), (15, 10, 0xfe2ce6e0), (6, 15, 0xa3014314), (13, 21, 0x4e0811a1),
    (4, 6, 0xf7537e82), (11, 10, 0xbd3af235), (2, 15, 0x2ad7d2bb), (9, 21, 0xeb86d391)]"

definition md5_steps :: "(u32 \<Rightarrow> u32 \<Rightarrow> u32 \<Rightarrow> u32) \<Rightarrow> u32 list \<Rightarrow> (nat \<times> nat \<times> u32) list \<Rightarrow> md5_h \<Rightarrow> md5_h" where
  "md5_steps fn X tab r = foldl (\<lambda>r (k, s, t). md5_next_args (md5_R fn (X ! k) s t r)) r tab"

definition md5_block :: "md5_h \<Rightarrow> byte list \<Rightarrow> md5_h" where
  "md5_block h data =
     (let X = map (\<lambda>i. HOST_c2l_le data (4 * i)) [0..<16];
          r = md5_steps md5_F X md5_round0 h;
          r = md5_steps md5_G X md5_round1 r;
          r = md5_steps md5_H X md5_round2 r;
          r = md5_steps md5_I X md5_round3 r
      in (case (h, r) of ((hA, hB, hC, hD), (A, B, C, D)) \<Rightarrow> (hA + A, hB + B, hC + C, hD + D)))"

definition md5_block_data_order :: "md5_h \<Rightarrow> byte list \<Rightarrow> nat \<Rightarrow> md5_h" where
  "md5_block_data_order h data num = block_data_order 64 md5_block h data num"

definition MD5_Init :: "md5_h hash_ctx" where
  "MD5_Init =
     \<lparr>hc_h = (0x67452301, 0xefcdab89, 0x98badcfe, 0x10325476), hc_Nl = 0, hc_Nh = 0, hc_data = replicate 64 0, hc_num = 0\<rparr>"

definition MD5_Update :: "md5_h hash_ctx \<Rightarrow> byte list \<Rightarrow> md5_h hash_ctx" where
  "MD5_Update = HASH_UPDATE count_u32 md5_block"

definition MD5_Transform :: "md5_h hash_ctx \<Rightarrow> byte list \<Rightarrow> md5_h hash_ctx" where
  "MD5_Transform = HASH_TRANSFORM md5_block"

definition md5_make_string :: "md5_h \<Rightarrow> byte list" where
  "md5_make_string h = (case h of (A, B, C, D) \<Rightarrow> HOST_l2c_le A @ HOST_l2c_le B @ HOST_l2c_le C @ HOST_l2c_le D)"

definition MD5_Final :: "md5_h hash_ctx \<Rightarrow> byte list \<times> md5_h hash_ctx" where
  "MD5_Final ctx = (let ctx = HASH_FINAL False md5_block ctx in (md5_make_string (hc_h ctx), ctx))"

definition MD5 :: "byte list \<Rightarrow> byte list" where
  "MD5 data = fst (MD5_Final (MD5_Update MD5_Init data))"

section \<open>The function of RFC 1321\<close>

text \<open>
  The reference gives step \<open>i\<close> the function, the index of the message word and the rotation by
  formulas in \<open>i\<close>; the additive constants are the sines of \<^theory_text>\<open>Digest_Constants\<close>. The initial registers are given as
  bytes, low-order byte first.
\<close>

definition rfc_fn :: "nat \<Rightarrow> u32 \<Rightarrow> u32 \<Rightarrow> u32 \<Rightarrow> u32" where
  "rfc_fn i x y z =
     (if i < 16 then (x AND y) OR (NOT x AND z)
      else if i < 32 then (x AND z) OR (y AND NOT z)
      else if i < 48 then x XOR y XOR z
      else y XOR (x OR NOT z))"

definition rfc_index :: "nat \<Rightarrow> nat" where
  "rfc_index i =
     (if i < 16 then i else if i < 32 then (5 * i + 1) mod 16 else if i < 48 then (3 * i + 5) mod 16 else 7 * i mod 16)"

definition rfc_shift :: "nat \<Rightarrow> nat" where
  "rfc_shift i = [7, 12, 17, 22, 5, 9, 14, 20, 4, 11, 16, 23, 6, 10, 15, 21] ! (4 * (i div 16) + i mod 4)"

definition rfc_step :: "u32 list \<Rightarrow> nat \<Rightarrow> md5_h \<Rightarrow> md5_h" where
  "rfc_step X i r =
     (case r of (a, b, c, d) \<Rightarrow>
       (d, b + word_rotl (rfc_shift i) (a + rfc_fn i b c d + X ! rfc_index i + rfc_T i), b, c))"

definition rfc_md5_block :: "md5_h \<Rightarrow> byte list \<Rightarrow> md5_h" where
  "rfc_md5_block h data =
     (let X = map (\<lambda>i. of_nat (be_nat (rev (take 4 (drop (4 * i) data))))) [0..<16]
      in (case (h, foldl (\<lambda>r i. rfc_step X i r) h [0..<64]) of
           ((hA, hB, hC, hD), (A, B, C, D)) \<Rightarrow> (hA + A, hB + B, hC + C, hD + D)))"

definition rfc_init :: md5_h where
  "rfc_init =
     (let w = (\<lambda>bs. of_nat (be_nat (rev bs)))
      in (w [0x01, 0x23, 0x45, 0x67], w [0x89, 0xab, 0xcd, 0xef], w [0xfe, 0xdc, 0xba, 0x98], w [0x76, 0x54, 0x32, 0x10]))"

definition rfc_md5 :: "byte list \<Rightarrow> byte list" where
  "rfc_md5 msg =
     (case md32_hash False rfc_md5_block rfc_init msg of (A, B, C, D) \<Rightarrow>
       concat (map (\<lambda>w. rev (be_bytes 4 (unat w))) [A, B, C, D]))"

section \<open>Equivalence\<close>

lemma md5_functions:
  "md5_F b c d = (b AND c) OR (NOT b AND d)"
  "md5_G b c d = (b AND d) OR (c AND NOT d)"
  "md5_I b c d = c XOR (b OR NOT d)"
  by (rule bit_word_eqI, auto simp: md5_F_def md5_G_def md5_I_def bit_simps)+

lemma rfc_md5_eq:
  "rfc_md5 msg =
     (case md32_hash False rfc_md5_block (hc_h MD5_Init) msg of (A, B, C, D) \<Rightarrow>
       concat (map (\<lambda>w. rev (be_bytes 4 (unat w))) [A, B, C, D]))"
proof -
  have "rfc_init = hc_h MD5_Init"
    by (simp add: rfc_init_def MD5_Init_def be_nat_Cons Let_def)
  then show ?thesis
    by (simp add: rfc_md5_def)
qed

text \<open>The constants of the source are the sines.\<close>

definition md5_T :: "u32 list" where
  "md5_T = map (\<lambda>(k, s, t). t) (md5_round0 @ md5_round1 @ md5_round2 @ md5_round3)"

lemma md5_T_sines: "i < 64 \<Longrightarrow> rfc_T i = md5_T ! i"
proof -
  have "sine_check (0, 2 ^ 128) 3 md5_T"
    by code_simp
  then show "i < 64 \<Longrightarrow> rfc_T i = md5_T ! i"
    by (rule sine_table) (simp add: md5_T_def md5_round0_def md5_round1_def md5_round2_def md5_round3_def)
qed

text \<open>Each round's table is the formulas' at sixteen consecutive steps.\<close>

definition md5_row :: "nat \<Rightarrow> nat \<times> nat \<times> u32" where
  "md5_row i = (rfc_index i, rfc_shift i, md5_T ! i)"

lemma md5_tables:
  "md5_round0 = map md5_row [0..<16]"
  "md5_round1 = map md5_row [16..<32]"
  "md5_round2 = map md5_row [32..<48]"
  "md5_round3 = map md5_row [48..<64]"
  by code_simp+

lemma rfc_shift_bounds: "i < 64 \<Longrightarrow> 0 < rfc_shift i \<and> rfc_shift i < 32"
proof -
  have "\<forall>i\<in>set [0..<64]. 0 < rfc_shift i \<and> rfc_shift i < 32"
    by code_simp
  then show "i < 64 \<Longrightarrow> 0 < rfc_shift i \<and> rfc_shift i < 32"
    by (simp only: set_upt) simp
qed

lemma md5_steps_rfc:
  assumes "\<And>i. m \<le> i \<Longrightarrow> i < n \<Longrightarrow> rfc_fn i = fn" "n \<le> 64"
  shows "md5_steps fn X (map md5_row [m..<n]) r = foldl (\<lambda>r i. rfc_step X i r) r [m..<n]"
  unfolding md5_steps_def foldl_map
proof (rule foldl_cong)
  fix r i
  assume "i \<in> set [m..<n]"
  then show "(case md5_row i of (k, s, t) \<Rightarrow> md5_next_args (md5_R fn (X ! k) s t r)) = rfc_step X i r"
    using assms(1) [of i] assms(2) rfc_shift_bounds [of i] md5_T_sines [of i]
    by (cases r) (simp add: md5_row_def md5_next_args_def md5_R_def rfc_step_def ROTATE_rotl Let_def ac_simps)
qed simp_all

lemma md5_block_rfc:
  assumes "length data = 64"
  shows "md5_block h data = rfc_md5_block h data"
proof -
  let ?X = "map (\<lambda>i. HOST_c2l_le data (4 * i)) [0..<16]"
  have X: "?X = map (\<lambda>i. of_nat (be_nat (rev (take 4 (drop (4 * i) data))))) [0..<16]"
    using assms by (intro map_cong refl) (simp add: HOST_c2l_le_eq)
  have "[0..<64] = [0..<16] @ [16..<32] @ [32..<48] @ [48..<64::nat]"
    by code_simp
  then have "foldl (\<lambda>r i. rfc_step ?X i r) h [0..<64] =
      md5_steps md5_I ?X md5_round3 (md5_steps md5_H ?X md5_round2 (md5_steps md5_G ?X md5_round1 (md5_steps md5_F ?X md5_round0 h)))"
    unfolding md5_tables
    by (subst (1 2 3 4) md5_steps_rfc)
      (simp_all only: foldl_append, simp_all add: fun_eq_iff rfc_fn_def md5_functions md5_H_def)
  then show ?thesis
    unfolding md5_block_def rfc_md5_block_def X Let_def by (simp only:)
qed

section \<open>The digest\<close>

lemma MD5_Final_streaming:
  assumes "\<forall>d\<in>set ds. length d < 2 ^ 64"
  shows "fst (MD5_Final (foldl MD5_Update MD5_Init ds)) = rfc_md5 (concat ds)"
proof -
  have "hc_h (HASH_FINAL False md5_block (foldl MD5_Update MD5_Init ds)) = md32_hash False md5_block (hc_h MD5_Init) (concat ds)"
    unfolding MD5_Update_def using assms by (intro hash_streaming) (simp_all add: MD5_Init_def)
  also have "\<dots> = md32_hash False rfc_md5_block (hc_h MD5_Init) (concat ds)"
    by (rule md32_hash_cong) (rule md5_block_rfc)
  finally show ?thesis
    by (simp add: MD5_Final_def rfc_md5_eq md5_make_string_def HOST_l2c_le_eq Let_def split: prod.split)
qed

interpretation md5: streaming_hash MD5_Init MD5_Update "\<lambda>ctx. fst (MD5_Final ctx)" rfc_md5 16
  by unfold_locales (simp_all add: MD5_Final_streaming rfc_md5_def split: prod.split)

text \<open>
  C18. However a message is cut into pieces for \<^verbatim>\<open>MD5_Update\<close>, \<^verbatim>\<open>MD5_Final\<close> returns the digest of RFC 1321
  of the whole message (steps given by the formulas of the standard, bit length little-endian), which
  \<^verbatim>\<open>MD5\<close> computes in one call.
\<close>

theorem md5_streaming:
  assumes "\<forall>d\<in>set ds. length d < 2 ^ 64" "length msg < 2 ^ 64"
  shows "fst (MD5_Final (foldl MD5_Update MD5_Init ds)) = rfc_md5 (concat ds) \<and> MD5 msg = rfc_md5 msg"
  using assms by (simp add: MD5_def md5.digest_pieces md5.digest_1)

theorem md5_streaming_witness:
  "fst (MD5_Final (MD5_Update (MD5_Update MD5_Init [1, 2]) (replicate 100 3))) = MD5 ([1, 2] @ replicate 100 3)"
  using md5_streaming [of "[[1, 2], replicate 100 3]" "[1, 2] @ replicate 100 3"] by simp

end
