(* ===== verification/Sha512.thy ===== *)
theory Sha512
  imports Md32 Digest_Constants
begin

unbundle bit_operations_syntax

text \<open>
  SHA-384 and SHA-512, \<^verbatim>\<open>crypto/sha/sha512.c\<close>: the collector and the padding, which this file has of
  its own, and both C forms of the block function, the unrolled one and the one for 32-bit x86 that
  keeps registers and schedule in one sliding array. \<^verbatim>\<open>SHA512_Init\<close> leaves the buffer as it is, so the
  initial states have it as an argument; so has \<^verbatim>\<open>SHA512_Update\<close> the address of the input, on which
  the copying of unaligned blocks depends.
\<close>

section \<open>Definitions\<close>

type_synonym regs512 = "u64 \<times> u64 \<times> u64 \<times> u64 \<times> u64 \<times> u64 \<times> u64 \<times> u64"

text \<open>The constants, a list for each line of the table in the source.\<close>

definition K512 :: "u64 list" where
  "K512 = concat [
    [0x428a2f98d728ae22, 0x7137449123ef65cd, 0xb5c0fbcfec4d3b2f, 0xe9b5dba58189dbbc],
    [0x3956c25bf348b538, 0x59f111f1b605d019, 0x923f82a4af194f9b, 0xab1c5ed5da6d8118],
    [0xd807aa98a3030242, 0x12835b0145706fbe, 0x243185be4ee4b28c, 0x550c7dc3d5ffb4e2],
    [0x72be5d74f27b896f, 0x80deb1fe3b1696b1, 0x9bdc06a725c71235, 0xc19bf174cf692694],
    [0xe49b69c19ef14ad2, 0xefbe4786384f25e3, 0x0fc19dc68b8cd5b5, 0x240ca1cc77ac9c65],
    [0x2de92c6f592b0275, 0x4a7484aa6ea6e483, 0x5cb0a9dcbd41fbd4, 0x76f988da831153b5],
    [0x983e5152ee66dfab, 0xa831c66d2db43210, 0xb00327c898fb213f, 0xbf597fc7beef0ee4],
    [0xc6e00bf33da88fc2, 0xd5a79147930aa725, 0x06ca6351e003826f, 0x142929670a0e6e70],
    [0x27b70a8546d22ffc, 0x2e1b21385c26c926, 0x4d2c6dfc5ac42aed, 0x53380d139d95b3df],
    [0x650a73548baf63de, 0x766a0abb3c77b2a8, 0x81c2c92e47edaee6, 0x92722c851482353b],
    [0xa2bfe8a14cf10364, 0xa81a664bbc423001, 0xc24b8b70d0f89791, 0xc76c51a30654be30],
    [0xd192e819d6ef5218, 0xd69906245565a910, 0xf40e35855771202a, 0x106aa07032bbd1b8],
    [0x19a4c116b8d2d0c8, 0x1e376c085141ab53, 0x2748774cdf8eeb99, 0x34b0bcb5e19b48a8],
    [0x391c0cb3c5c95a63, 0x4ed8aa4ae3418acb, 0x5b9cca4f7763e373, 0x682e6ff3d6b2b8a3],
    [0x748f82ee5defb2fc, 0x78a5636f43172f60, 0x84c87814a1f0ab72, 0x8cc702081a6439ec],
    [0x90befffa23631e28, 0xa4506cebde82bde9, 0xbef9a3f7b2c67915, 0xc67178f2e372532b],
    [0xca273eceea26619c, 0xd186b8c721c0c207, 0xeada7dd6cde0eb1e, 0xf57d4f7fee6ed178],
    [0x06f067aa72176fba, 0x0a637dc5a2c898a6, 0x113f9804bef90dae, 0x1b710b35131c471b],
    [0x28db77f523047d84, 0x32caab7b40c72493, 0x3c9ebe0a15c9bebc, 0x431d67c49c100d4c],
    [0x4cc5d4becb3e42b6, 0x597f299cfc657e2a, 0x5fcb6fab3ad6faec, 0x6c44198c4a475817]]"

definition ROTR :: "u64 \<Rightarrow> nat \<Rightarrow> u64" where
  "ROTR x s = drop_bit s x OR push_bit (64 - s) x"

definition PULL64 :: "byte list \<Rightarrow> nat \<Rightarrow> u64" where
  "PULL64 c i =
     push_bit 56 (ucast (c ! i)) OR push_bit 48 (ucast (c ! (i + 1))) OR push_bit 40 (ucast (c ! (i + 2))) OR
     push_bit 32 (ucast (c ! (i + 3))) OR push_bit 24 (ucast (c ! (i + 4))) OR push_bit 16 (ucast (c ! (i + 5))) OR
     push_bit 8 (ucast (c ! (i + 6))) OR ucast (c ! (i + 7))"

definition Sigma0_512 :: "u64 \<Rightarrow> u64" where
  "Sigma0_512 x = ROTR x 28 XOR ROTR x 34 XOR ROTR x 39"

definition Sigma1_512 :: "u64 \<Rightarrow> u64" where
  "Sigma1_512 x = ROTR x 14 XOR ROTR x 18 XOR ROTR x 41"

definition sigma0_512 :: "u64 \<Rightarrow> u64" where
  "sigma0_512 x = ROTR x 1 XOR ROTR x 8 XOR drop_bit 7 x"

definition sigma1_512 :: "u64 \<Rightarrow> u64" where
  "sigma1_512 x = ROTR x 19 XOR ROTR x 61 XOR drop_bit 6 x"

definition Ch_512 :: "u64 \<Rightarrow> u64 \<Rightarrow> u64 \<Rightarrow> u64" where
  "Ch_512 x y z = (x AND y) XOR (NOT x AND z)"

definition Maj_512 :: "u64 \<Rightarrow> u64 \<Rightarrow> u64 \<Rightarrow> u64" where
  "Maj_512 x y z = (x AND y) XOR (x AND z) XOR (y AND z)"

text \<open>
  The form for 32-bit x86: \<open>F\<close> is the index of \<^verbatim>\<open>F[0]\<close> in \<open>X\<close>, which the caller's stack fills with
  unknown words at first.
\<close>

definition x86_round :: "nat \<Rightarrow> nat \<Rightarrow> u64 \<Rightarrow> u64 list \<times> u64 \<times> u64 \<Rightarrow> u64 list \<times> u64 \<times> u64" where
  "x86_round i F T st =
     (case st of (X, A, E) \<Rightarrow>
       let X = X[F := A];
           X = X[F + 4 := E];
           X = X[F + 8 := T];
           T = T + (X ! (F + 7) + Sigma1_512 E + Ch_512 E (X ! (F + 5)) (X ! (F + 6)) + K512 ! i);
           E = X ! (F + 3) + T;
           A = T + Sigma0_512 A + Maj_512 A (X ! (F + 1)) (X ! (F + 2))
       in (X, A, E))"

definition x86_word :: "u64 list \<Rightarrow> nat \<Rightarrow> u64" where
  "x86_word X F =
     (let T = sigma0_512 (X ! (F + 8 + 16 - 1));
          T = T + sigma1_512 (X ! (F + 8 + 16 - 14))
      in T + (X ! (F + 8 + 16) + X ! (F + 8 + 16 - 9)))"

definition sha512_block_x86 :: "u64 list \<Rightarrow> u64 list \<Rightarrow> byte list \<Rightarrow> u64 list" where
  "sha512_block_x86 X H data =
     (let X = X[80 + 1 := H ! 1, 80 + 2 := H ! 2, 80 + 3 := H ! 3, 80 + 5 := H ! 5, 80 + 6 := H ! 6, 80 + 7 := H ! 7];
          st = foldl (\<lambda>st i. x86_round i (80 - i) (PULL64 data (8 * i)) st) (X, H ! 0, H ! 4) [0..<16];
          st = foldl (\<lambda>st i. x86_round i (80 - i) (x86_word (fst st) (80 - i)) st) st [16..<80]
      in (case st of (F, A, E) \<Rightarrow>
        [H ! 0 + A, H ! 1 + F ! 1, H ! 2 + F ! 2, H ! 3 + F ! 3, H ! 4 + E, H ! 5 + F ! 5, H ! 6 + F ! 6, H ! 7 + F ! 7]))"

text \<open>The unrolled form: the registers are a tuple in the order of the macro's arguments.\<close>

definition ROUND_00_15_512 :: "nat \<Rightarrow> u64 \<Rightarrow> regs512 \<Rightarrow> regs512" where
  "ROUND_00_15_512 i T1 r =
     (case r of (a, b, c, d, e, f, g, h) \<Rightarrow>
       let T1 = T1 + (h + Sigma1_512 e + Ch_512 e f g + K512 ! i);
           h = Sigma0_512 a + Maj_512 a b c;
           d = d + T1;
           h = h + T1
       in (a, b, c, d, e, f, g, h))"

definition ROUND_16_80 :: "nat \<Rightarrow> u64 list \<times> regs512 \<Rightarrow> u64 list \<times> regs512" where
  "ROUND_16_80 i Xr =
     (case Xr of (X, r) \<Rightarrow>
       let s0 = sigma0_512 (X ! ((i + 1) mod 16));
           s1 = sigma1_512 (X ! ((i + 14) mod 16));
           T1 = X ! (i mod 16) + (s0 + s1 + X ! ((i + 9) mod 16))
       in (X[i mod 16 := T1], ROUND_00_15_512 i T1 r))"

definition next_args_512 :: "regs512 \<Rightarrow> regs512" where
  "next_args_512 r = (case r of (a, b, c, d, e, f, g, h) \<Rightarrow> (h, a, b, c, d, e, f, g))"

definition regs512_of :: "u64 list \<Rightarrow> regs512" where
  "regs512_of h = (h ! 0, h ! 1, h ! 2, h ! 3, h ! 4, h ! 5, h ! 6, h ! 7)"

definition add_regs512 :: "u64 list \<Rightarrow> regs512 \<Rightarrow> u64 list" where
  "add_regs512 H r =
     (case r of (a, b, c, d, e, f, g, h) \<Rightarrow>
       [H ! 0 + a, H ! 1 + b, H ! 2 + c, H ! 3 + d, H ! 4 + e, H ! 5 + f, H ! 6 + g, H ! 7 + h])"

definition sha512_block :: "u64 list \<Rightarrow> byte list \<Rightarrow> u64 list" where
  "sha512_block H data =
     (let (X, r) = foldl (\<lambda>(X, r) i.
             let l = PULL64 data (8 * i) in (X[i := l], next_args_512 (ROUND_00_15_512 i l r)))
            (replicate 16 0, regs512_of H) [0..<16];
          (X, r) = foldl (\<lambda>Xr i. apsnd next_args_512 (ROUND_16_80 i Xr)) (X, r) [16..<80]
      in add_regs512 H r)"

definition sha512_block_data_order :: "u64 list \<Rightarrow> byte list \<Rightarrow> nat \<Rightarrow> u64 list" where
  "sha512_block_data_order H data num = block_data_order 128 sha512_block H data num"

record sha512_ctx =
  s5_h :: "u64 list"
  s5_Nl :: u64
  s5_Nh :: u64
  s5_p :: "byte list"
  s5_num :: nat
  s5_md_len :: nat

definition SHA384_Init :: "byte list \<Rightarrow> sha512_ctx" where
  "SHA384_Init p =
     \<lparr>s5_h = [0xcbbb9d5dc1059ed8, 0x629a292a367cd507, 0x9159015a3070dd17, 0x152fecd8f70e5939,
              0x67332667ffc00b31, 0x8eb44a8768581511, 0xdb0c2e0d64f98fa7, 0x47b5481dbefa4fa4],
      s5_Nl = 0, s5_Nh = 0, s5_p = p, s5_num = 0, s5_md_len = 48\<rparr>"

definition SHA512_Init :: "byte list \<Rightarrow> sha512_ctx" where
  "SHA512_Init p =
     \<lparr>s5_h = [0x6a09e667f3bcc908, 0xbb67ae8584caa73b, 0x3c6ef372fe94f82b, 0xa54ff53a5f1d36f1,
              0x510e527fade682d1, 0x9b05688c2b3e6c1f, 0x1f83d9abfb41bd6b, 0x5be0cd19137e2179],
      s5_Nl = 0, s5_Nh = 0, s5_p = p, s5_num = 0, s5_md_len = 64\<rparr>"

text \<open>\<open>a\<close> is the address of \<open>data\<close>: unaligned data is copied to the buffer first.\<close>

definition SHA512_Transform :: "sha512_ctx \<Rightarrow> nat \<Rightarrow> byte list \<Rightarrow> sha512_ctx" where
  "SHA512_Transform c a data =
     (let p = (if a mod 8 \<noteq> 0 then put_at 0 (take 128 data) (s5_p c) else s5_p c);
          data = (if a mod 8 \<noteq> 0 then p else data)
      in c\<lparr>s5_p := p, s5_h := sha512_block_data_order (s5_h c) data 1\<rparr>)"

function sha512_unaligned :: "sha512_ctx \<Rightarrow> byte list \<Rightarrow> sha512_ctx \<times> byte list" where
  "sha512_unaligned c data =
     (if 128 \<le> length data then
        let p = put_at 0 (take 128 data) (s5_p c)
        in sha512_unaligned (c\<lparr>s5_p := p, s5_h := sha512_block_data_order (s5_h c) p 1\<rparr>) (drop 128 data)
      else (c, data))"
  by pat_completeness auto
termination
  by (relation "measure (\<lambda>(c, data). length data)") auto

declare sha512_unaligned.simps [simp del]

text \<open>\<^verbatim>\<open>SHA512_Update\<close> once the buffer is empty: whole blocks, then the rest into the buffer.\<close>

definition sha512_whole_blocks :: "sha512_ctx \<Rightarrow> nat \<Rightarrow> byte list \<Rightarrow> sha512_ctx" where
  "sha512_whole_blocks c a data =
     (let (c, data) =
        (if 128 \<le> length data then
           if a mod 8 \<noteq> 0 then sha512_unaligned c data
           else (c\<lparr>s5_h := sha512_block_data_order (s5_h c) data (length data div 128)\<rparr>,
                 drop (length data - length data mod 128) data)
         else (c, data))
      in if length data \<noteq> 0 then c\<lparr>s5_p := put_at 0 data (s5_p c), s5_num := length data\<rparr> else c)"

definition count_512 :: "u64 \<Rightarrow> u64 \<Rightarrow> size_t \<Rightarrow> u64 \<times> u64" where
  "count_512 Nl Nh len =
     (let l = (Nl + push_bit 3 len) AND 0xffffffffffffffff;
          Nh = (if l < Nl then Nh + 1 else Nh)
      in (l, Nh + drop_bit 61 len))"

definition SHA512_Update :: "sha512_ctx \<Rightarrow> nat \<Rightarrow> byte list \<Rightarrow> sha512_ctx" where
  "SHA512_Update c a data =
     (if length data = 0 then c
      else
        let (Nl, Nh) = count_512 (s5_Nl c) (s5_Nh c) (of_nat (length data));
            c = c\<lparr>s5_Nl := Nl, s5_Nh := Nh\<rparr>
        in
        if s5_num c \<noteq> 0 then
          let n = 128 - s5_num c in
          if length data < n then
            c\<lparr>s5_p := put_at (s5_num c) data (s5_p c), s5_num := s5_num c + length data\<rparr>
          else
            let p = put_at (s5_num c) (take n data) (s5_p c) in
            sha512_whole_blocks (c\<lparr>s5_p := p, s5_num := 0, s5_h := sha512_block_data_order (s5_h c) p 1\<rparr>)
              (a + n) (drop n data)
        else sha512_whole_blocks c a data)"

definition SHA384_Update :: "sha512_ctx \<Rightarrow> nat \<Rightarrow> byte list \<Rightarrow> sha512_ctx" where
  "SHA384_Update c a data = SHA512_Update c a data"

definition u64_to_bytes :: "u64 \<Rightarrow> byte list" where
  "u64_to_bytes t =
     [ucast (drop_bit 56 t), ucast (drop_bit 48 t), ucast (drop_bit 40 t), ucast (drop_bit 32 t),
      ucast (drop_bit 24 t), ucast (drop_bit 16 t), ucast (drop_bit 8 t), ucast t]"

text \<open>\<^verbatim>\<open>SHA512_Final\<close>; \<open>null\<close> tells that \<^verbatim>\<open>md\<close> is a null pointer, \<open>None\<close> is the result 0.\<close>

definition SHA512_Final :: "bool \<Rightarrow> sha512_ctx \<Rightarrow> byte list option \<times> sha512_ctx" where
  "SHA512_Final null c =
     (let p = (s5_p c)[s5_num c := 0x80];
          n = s5_num c + 1;
          (p, n, h) =
            (if 128 - 16 < n then
               (let p = put_at n (replicate (128 - n) 0) p in (p, 0, sha512_block_data_order (s5_h c) p 1))
             else (p, n, s5_h c));
          p = put_at n (replicate (128 - 16 - n) 0) p;
          p = put_at (128 - 16) (u64_to_bytes (s5_Nh c) @ u64_to_bytes (s5_Nl c)) p;
          h = sha512_block_data_order h p 1;
          c = c\<lparr>s5_p := p, s5_h := h\<rparr>
      in
      (if null then None
       else if s5_md_len c = 48 then Some (concat (map u64_to_bytes (take (48 div 8) h)))
       else if s5_md_len c = 64 then Some (concat (map u64_to_bytes (take (64 div 8) h)))
       else None, c))"

definition SHA384_Final :: "bool \<Rightarrow> sha512_ctx \<Rightarrow> byte list option \<times> sha512_ctx" where
  "SHA384_Final null c = SHA512_Final null c"

definition SHA384 :: "byte list \<Rightarrow> nat \<Rightarrow> byte list \<Rightarrow> byte list option" where
  "SHA384 p a data = fst (SHA512_Final False (SHA512_Update (SHA384_Init p) a data))"

definition SHA512 :: "byte list \<Rightarrow> nat \<Rightarrow> byte list \<Rightarrow> byte list option" where
  "SHA512 p a data = fst (SHA512_Final False (SHA512_Update (SHA512_Init p) a data))"

section \<open>The function of FIPS 180-4\<close>

definition fips512_Sigma0 :: "u64 \<Rightarrow> u64" where
  "fips512_Sigma0 x = word_rotr 28 x XOR word_rotr 34 x XOR word_rotr 39 x"

definition fips512_Sigma1 :: "u64 \<Rightarrow> u64" where
  "fips512_Sigma1 x = word_rotr 14 x XOR word_rotr 18 x XOR word_rotr 41 x"

definition fips512_sigma0 :: "u64 \<Rightarrow> u64" where
  "fips512_sigma0 x = word_rotr 1 x XOR word_rotr 8 x XOR drop_bit 7 x"

definition fips512_sigma1 :: "u64 \<Rightarrow> u64" where
  "fips512_sigma1 x = word_rotr 19 x XOR word_rotr 61 x XOR drop_bit 6 x"

definition fips512_next_word :: "(nat \<Rightarrow> u64) \<Rightarrow> u64" where
  "fips512_next_word W = fips512_sigma1 (W 14) + W 9 + fips512_sigma0 (W 1) + W 0"

definition fips512_schedule :: "byte list \<Rightarrow> u64 list" where
  "fips512_schedule data = expand fips512_next_word (map (\<lambda>i. of_nat (be_nat (take 8 (drop (8 * i) data)))) [0..<16]) 64"

text \<open>Bits of the cube roots of the first 80 primes, and of the square roots of the first and of the second eight.\<close>

definition fips_K512 :: "nat \<Rightarrow> u64" where
  "fips_K512 t = root_bits 3 64 (fips_prime t)"

definition fips_H512 :: "u64 list" where
  "fips_H512 = map (root_bits 2 64) (map fips_prime [0..<8])"

definition fips_H384 :: "u64 list" where
  "fips_H384 = map (root_bits 2 64) (map fips_prime [8..<16])"

definition fips512_round :: "nat \<Rightarrow> u64 \<Rightarrow> regs512 \<Rightarrow> regs512" where
  "fips512_round t W r =
     (case r of (a, b, c, d, e, f, g, h) \<Rightarrow>
       let T1 = h + fips512_Sigma1 e + fips_Ch e f g + fips_K512 t + W;
           T2 = fips512_Sigma0 a + fips_Maj a b c
       in (T1 + T2, a, b, c, d + T1, e, f, g))"

definition fips_sha512_block :: "u64 list \<Rightarrow> byte list \<Rightarrow> u64 list" where
  "fips_sha512_block H data =
     (case foldl (\<lambda>r t. fips512_round t (fips512_schedule data ! t) r) (H ! 0, H ! 1, H ! 2, H ! 3, H ! 4, H ! 5, H ! 6, H ! 7) [0..<80] of
        (a, b, c, d, e, f, g, h) \<Rightarrow> [H ! 0 + a, H ! 1 + b, H ! 2 + c, H ! 3 + d, H ! 4 + e, H ! 5 + f, H ! 6 + g, H ! 7 + h])"

lemma K512_roots: "t < 80 \<Longrightarrow> fips_K512 t = K512 ! t"
proof -
  have "root_table 3 64 (map fips_prime [0..<80]) (map uint K512)"
    by code_simp
  then have "map (root_bits 3 64) (map fips_prime [0..<80]) = (map of_int (map uint K512) :: u64 list)"
    by (rule root_table) simp_all
  then have "map fips_K512 [0..<80] = K512"
    by (simp add: fips_K512_def [abs_def] comp_def)
  then show "t < 80 \<Longrightarrow> fips_K512 t = K512 ! t"
    using nth_map_upt [of t 80 0 fips_K512] by simp
qed

lemma H512_roots: "fips_H512 = s5_h (SHA512_Init p)"
proof -
  have "root_table 2 64 (map fips_prime [0..<8]) (map uint (s5_h (SHA512_Init [])))"
    by code_simp
  then have "fips_H512 = map of_int (map uint (s5_h (SHA512_Init [])))"
    unfolding fips_H512_def by (rule root_table) simp_all
  then show ?thesis
    by (simp add: comp_def SHA512_Init_def)
qed

lemma H384_roots: "fips_H384 = s5_h (SHA384_Init p)"
proof -
  have "root_table 2 64 (map fips_prime [8..<16]) (map uint (s5_h (SHA384_Init [])))"
    by code_simp
  then have "fips_H384 = map of_int (map uint (s5_h (SHA384_Init [])))"
    unfolding fips_H384_def by (rule root_table) simp_all
  then show ?thesis
    by (simp add: comp_def SHA384_Init_def)
qed

text \<open>The function with the names of the source, between the two.\<close>

definition ref512_round :: "nat \<Rightarrow> u64 \<Rightarrow> regs512 \<Rightarrow> regs512" where
  "ref512_round t W r =
     (case r of (a, b, c, d, e, f, g, h) \<Rightarrow>
       let T1 = h + fips512_Sigma1 e + Ch_512 e f g + K512 ! t + W;
           T2 = fips512_Sigma0 a + Maj_512 a b c
       in (T1 + T2, a, b, c, d + T1, e, f, g))"

definition ref_sha512_block :: "u64 list \<Rightarrow> byte list \<Rightarrow> u64 list" where
  "ref_sha512_block H data =
     add_regs512 H (foldl (\<lambda>r t. ref512_round t (fips512_schedule data ! t) r) (regs512_of H) [0..<80])"

lemma ref512_round_fips: "t < 80 \<Longrightarrow> ref512_round t W r = fips512_round t W r"
  by (simp add: ref512_round_def fips512_round_def K512_roots Ch_512_def Maj_512_def fips_Ch_def fips_Maj_def)

lemma ref_sha512_block_fips: "ref_sha512_block H data = fips_sha512_block H data"
proof -
  have "foldl (\<lambda>r t. ref512_round t (fips512_schedule data ! t) r) (regs512_of H) [0..<80] =
      foldl (\<lambda>r t. fips512_round t (fips512_schedule data ! t) r) (regs512_of H) [0..<80]"
    by (rule foldl_cong) (simp_all add: ref512_round_fips)
  then show ?thesis
    unfolding ref_sha512_block_def fips_sha512_block_def add_regs512_def regs512_of_def by (simp only:)
qed

lemma ROTR_rotr: "0 < n \<Longrightarrow> n < 64 \<Longrightarrow> ROTR x n = word_rotr n x"
  using shifts_rotr [of n x] by (simp add: ROTR_def or.commute)

lemma fips512_functions:
  "Sigma0_512 = fips512_Sigma0" "Sigma1_512 = fips512_Sigma1" "sigma0_512 = fips512_sigma0" "sigma1_512 = fips512_sigma1"
  by (simp_all add: fun_eq_iff fips512_Sigma0_def fips512_Sigma1_def fips512_sigma0_def fips512_sigma1_def
      Sigma0_512_def Sigma1_512_def sigma0_512_def sigma1_512_def ROTR_rotr)

lemma take_8_drop:
  "i + 8 \<le> length data \<Longrightarrow> take 8 (drop i data) =
     [data ! i, data ! (i + 1), data ! (i + 2), data ! (i + 3), data ! (i + 4), data ! (i + 5), data ! (i + 6), data ! (i + 7)]"
  by (simp add: list_eq_iff_nth_eq nth_Cons numeral_eq_Suc split: nat.splits)

lemma PULL64_eq:
  assumes "i + 8 \<le> length data"
  shows "PULL64 data i = of_nat (be_nat (take 8 (drop i data)))"
proof -
  have "PULL64 data i = foldl shift_in 0 (take 8 (drop i data))"
    unfolding take_8_drop [OF assms]
    by (rule bit_word_eqI) (auto simp: PULL64_def shift_in_def bit_simps)
  also have "\<dots> = of_nat (be_nat (take 8 (drop i data)))"
    by (rule foldl_shift_in_of_nat) simp_all
  finally show ?thesis .
qed

lemma PULL64_words:
  "length data = 128 \<Longrightarrow>
    map (\<lambda>i. PULL64 data (8 * i)) [0..<16] = map (\<lambda>i. of_nat (be_nat (take 8 (drop (8 * i) data)))) [0..<16]"
  by (intro map_cong refl) (simp add: PULL64_eq)

lemma window_sha512: "window fips512_next_word"
  by (simp add: window_def fips512_next_word_def)

section \<open>The unrolled block function\<close>

lemma next_args_ROUND_512: "next_args_512 (ROUND_00_15_512 i T r) = ref512_round i T r"
  by (simp add: next_args_512_def ROUND_00_15_512_def ref512_round_def fips512_functions Let_def ac_simps split: prod.split)

lemma sha512_block_ref:
  assumes len: "length data = 128"
  shows "sha512_block H data = ref_sha512_block H data"
proof -
  have word: "X ! (i mod 16) + (sigma0_512 (X ! ((i + 1) mod 16)) + sigma1_512 (X ! ((i + 14) mod 16)) + X ! ((i + 9) mod 16)) =
      ring_word fips512_next_word X i" for X i
    by (simp add: ring_word_def fips512_next_word_def fips512_functions ac_simps)
  have step: "(\<lambda>Xr i. apsnd next_args_512 (ROUND_16_80 i Xr)) = (\<lambda>(X, r) i.
     let T = X ! (i mod 16) + (sigma0_512 (X ! ((i + 1) mod 16)) + sigma1_512 (X ! ((i + 14) mod 16)) + X ! ((i + 9) mod 16))
     in (X[i mod 16 := T], next_args_512 (ROUND_00_15_512 i T r)))"
    by (simp add: ROUND_16_80_def Let_def fun_eq_iff)
  show ?thesis
    unfolding sha512_block_def step ref_sha512_block_def fips512_schedule_def PULL64_words [OF len, symmetric] next_args_ROUND_512
    by (rule ring_block [OF window_sha512 word]) simp
qed

section \<open>The form for 32-bit x86\<close>

text \<open>
  After \<open>i\<close> rounds the array holds the registers but A and E from \<open>80 - i\<close> on, and below the
  initial registers every word of the schedule so far, the last one lowest.
\<close>

definition x86_rep :: "nat \<Rightarrow> u64 list \<Rightarrow> regs512 \<Rightarrow> u64 list \<times> u64 \<times> u64 \<Rightarrow> bool" where
  "x86_rep i W r st \<longleftrightarrow>
     (case st of (X, A, E) \<Rightarrow> let F = 80 - i in
       length X = 89 \<and> r = (A, X ! (F + 1), X ! (F + 2), X ! (F + 3), E, X ! (F + 5), X ! (F + 6), X ! (F + 7)) \<and>
       (\<forall>k<i. X ! (88 - k) = W ! k))"

lemma x86_round_rep:
  assumes "x86_rep i W r st" "i < 80" "T = W ! i"
  shows "x86_rep (Suc i) W (ref512_round i T r) (x86_round i (80 - i) T st)"
proof -
  obtain X A E where st: "st = (X, A, E)"
    by (cases st)
  obtain F where F: "80 - i = Suc F" "80 - Suc i = F" "i = 79 - F" "F < 80"
    using assms(2) by (intro that [of "79 - i"]) auto
  have X: "length X = 89"
    "r = (A, X ! (Suc F + 1), X ! (Suc F + 2), X ! (Suc F + 3), E, X ! (Suc F + 5), X ! (Suc F + 6), X ! (Suc F + 7))"
    "\<forall>k<i. X ! (88 - k) = W ! k"
    using assms(1) unfolding x86_rep_def st F(1) by simp_all
  have W: "\<forall>k<Suc i. X[Suc F := A, Suc F + 4 := E, Suc F + 8 := T] ! (88 - k) = W ! k"
    using X(1,3) F(4) assms(3) by (auto simp: nth_list_update F(3) less_Suc_eq)
  show ?thesis
    unfolding x86_rep_def F(2) F(1) st x86_round_def Let_def prod.case
    using X(1) W F(4) arg_cong [of "Suc (Suc (Suc F))" "F + 3" "(!) X"]
    by (auto simp: X(2) Let_def ref512_round_def fips512_functions ac_simps)
qed

lemma x86_word_eq:
  assumes "x86_rep i W r st" "16 \<le> i" "i < 80"
  shows "x86_word (fst st) (80 - i) = fips512_next_word (\<lambda>k. W ! (i - 16 + k))"
proof -
  have X: "fst st ! (88 - (i - 16 + k)) = W ! (i - 16 + k)" if "k < 16" for k
  proof -
    have "\<forall>k<i. fst st ! (88 - k) = W ! k"
      using assms(1) unfolding x86_rep_def by (auto simp: Let_def split: prod.splits)
    moreover have "i - 16 + k < i"
      using that assms(2) by simp
    ultimately show ?thesis
      by blast
  qed
  have "88 - (i - 16) = 80 - i + 8 + 16" "88 - (i - 16 + 1) = 80 - i + 8 + 16 - 1" "88 - (i - 16 + 9) = 80 - i + 8 + 16 - 9"
    "88 - (i - 16 + 14) = 80 - i + 8 + 16 - 14"
    using assms(2,3) by auto
  then show ?thesis
    unfolding x86_word_def fips512_next_word_def Let_def fips512_functions
    using X [of 0] X [of 1] X [of 9] X [of 14] by (simp add: ac_simps)
qed


lemma fips512_schedule_step:
  assumes "16 \<le> t" "t < 80"
  shows "fips512_schedule data ! t = fips512_next_word (\<lambda>k. fips512_schedule data ! (t - 16 + k))"
  unfolding fips512_schedule_def using assms by (intro expand_step [OF window_sha512]) simp_all

lemma x86_loop:
  assumes "x86_rep m W r st" "n \<le> 80" "\<And>i r st. m \<le> i \<Longrightarrow> i < n \<Longrightarrow> x86_rep i W r st \<Longrightarrow> word i st = W ! i" "m \<le> n"
  shows "x86_rep n W (foldl (\<lambda>r t. ref512_round t (W ! t) r) r [m..<n]) (foldl (\<lambda>st i. x86_round i (80 - i) (word i st) st) st [m..<n])"
  using assms(4,2,3)
proof (induction n rule: dec_induct)
  case base
  then show ?case
    using assms(1) by simp
next
  case (step n)
  then have "x86_rep n W (foldl (\<lambda>r t. ref512_round t (W ! t) r) r [m..<n]) (foldl (\<lambda>st i. x86_round i (80 - i) (word i st) st) st [m..<n])"
    by simp
  from x86_round_rep [OF this] step.prems(2) [OF _ _ this] step show ?case
    by simp
qed

lemma x86_rep_end:
  "x86_rep 80 W r st \<Longrightarrow> (case st of (F, A, E) \<Rightarrow>
      [H0 + A, H1 + F ! 1, H2 + F ! 2, H3 + F ! 3, H4 + E, H5 + F ! 5, H6 + F ! 6, H7 + F ! 7]) =
    (case r of (a, b, c, d, e, f, g, h) \<Rightarrow> [H0 + a, H1 + b, H2 + c, H3 + d, H4 + e, H5 + f, H6 + g, H7 + h])"
  by (auto simp: x86_rep_def Let_def numeral_2_eq_2 split: prod.splits)

lemma sha512_block_x86_ref:
  assumes len: "length data = 128" and X: "length X = 89"
  shows "sha512_block_x86 X H data = ref_sha512_block H data"
proof -
  let ?W = "fips512_schedule data"
  let ?X = "X[80 + 1 := H ! 1, 80 + 2 := H ! 2, 80 + 3 := H ! 3, 80 + 5 := H ! 5, 80 + 6 := H ! 6, 80 + 7 := H ! 7]"
  have "x86_rep 0 ?W (regs512_of H) (?X, H ! 0, H ! 4)"
    using X by (simp add: x86_rep_def regs512_of_def)
  then have "x86_rep 16 ?W (foldl (\<lambda>r t. ref512_round t (?W ! t) r) (regs512_of H) [0..<16])
     (foldl (\<lambda>st i. x86_round i (80 - i) (PULL64 data (8 * i)) st) (?X, H ! 0, H ! 4) [0..<16])"
  proof (rule x86_loop)
    fix i :: nat
    assume "i < 16"
    then show "PULL64 data (8 * i) = ?W ! i"
      using len expand_nth [of 0 64 i "map (\<lambda>i. of_nat (be_nat (take 8 (drop (8 * i) data)))) [0..<16]" fips512_next_word]
      by (simp add: fips512_schedule_def PULL64_eq)
  qed simp_all
  then have "x86_rep 80 ?W (foldl (\<lambda>r t. ref512_round t (?W ! t) r) (foldl (\<lambda>r t. ref512_round t (?W ! t) r) (regs512_of H) [0..<16]) [16..<80])
     (foldl (\<lambda>st i. x86_round i (80 - i) (x86_word (fst st) (80 - i)) st)
       (foldl (\<lambda>st i. x86_round i (80 - i) (PULL64 data (8 * i)) st) (?X, H ! 0, H ! 4) [0..<16]) [16..<80])" (is "x86_rep 80 ?W ?r ?st")
    by (rule x86_loop [where word = "\<lambda>i st. x86_word (fst st) (80 - i)"]) (auto simp: x86_word_eq fips512_schedule_step)
  moreover have "[0..<80] = [0..<16] @ [16..<80 :: nat]"
    by code_simp
  ultimately have "x86_rep 80 ?W (foldl (\<lambda>r t. ref512_round t (?W ! t) r) (regs512_of H) [0..<80]) ?st"
    by (simp only: foldl_append)
  then show ?thesis
    unfolding sha512_block_x86_def ref_sha512_block_def Let_def add_regs512_def by (rule x86_rep_end)
qed

lemma sha512_block_fips: "length data = 128 \<Longrightarrow> sha512_block H data = fips_sha512_block H data"
  by (simp add: sha512_block_ref ref_sha512_block_fips)

lemma sha512_block_x86_fips: "length data = 128 \<Longrightarrow> length X = 89 \<Longrightarrow> sha512_block_x86 X H data = fips_sha512_block H data"
  by (simp add: sha512_block_x86_ref ref_sha512_block_fips)

section \<open>Any split of a message gives the same hash\<close>

definition bit_count_512 :: "u64 \<times> u64 \<Rightarrow> nat" where
  "bit_count_512 N = unat (fst N) + 2 ^ 64 * unat (snd N)"

lemma count_512: "bit_count_512 (count_512 Nl Nh n) = (bit_count_512 (Nl, Nh) + 8 * unat n) mod 2 ^ 128"
proof -
  let ?l = "Nl + push_bit 3 n :: u64"
  have l: "unat ?l = (unat Nl + 8 * unat n mod 2 ^ 64) mod 2 ^ 64"
    by (simp add: unat_word_ariths unat_push_bit mult.commute mod_simps)
  have d: "unat ((if ?l < Nl then Nh + 1 else Nh) + drop_bit 61 n) =
     (unat Nh + (if unat ?l < unat Nl then 1 else 0) + unat n div 2 ^ 61) mod 2 ^ 64"
    by (simp add: unat_word_ariths word_less_nat_alt mod_simps unat_drop_bit)
  have p: "(2 :: nat) ^ 128 = 2 ^ 64 * 2 ^ 64" "(2 :: nat) ^ 64 = 8 * 2 ^ 61"
    by simp_all
  have "bit_count_512 (count_512 Nl Nh n) = unat ?l + 2 ^ 64 * ((unat Nh + (if unat ?l < unat Nl then 1 else 0) + unat n div 2 ^ 61) mod 2 ^ 64)"
    by (simp only: bit_count_512_def count_512_def Let_def and_full_u64 fst_conv snd_conv d)
  also have "\<dots> = (unat Nl + 2 ^ 64 * unat Nh + 8 * unat n) mod (2 ^ 64 * 2 ^ 64)"
    by (rule count_arith [OF _ p(2) _ l]) (use unsigned_less [of Nl, where 'a = nat] in simp_all)
  finally show ?thesis
    by (simp only: p(1) bit_count_512_def fst_conv snd_conv)
qed

lemma u64_to_bytes_eq: "u64_to_bytes l = be_bytes 8 (unat l)"
proof -
  have "(ucast (drop_bit k l) :: byte) = of_nat (unat l div 2 ^ k)" for k
    by (simp add: word_unat_eq_iff unsigned_ucast_eq take_bit_eq_mod unat_drop_bit unsigned_of_nat)
  from this this [of 0] show ?thesis
    by (simp add: u64_to_bytes_def be_bytes_numeral div_mult2_eq [symmetric])
qed

lemma bit_count_512_bytes:
  "be_bytes 16 (bit_count_512 (Nl, Nh)) = u64_to_bytes Nh @ u64_to_bytes Nl"
proof -
  have "be_bytes 16 (bit_count_512 (Nl, Nh)) = be_bytes 8 (bit_count_512 (Nl, Nh) div 256 ^ 8) @ be_bytes 8 (bit_count_512 (Nl, Nh))"
    using be_bytes_add [of 8 8 "bit_count_512 (Nl, Nh)"] by simp
  moreover have "be_bytes 8 (bit_count_512 (Nl, Nh)) = be_bytes 8 (unat Nl)"
    by (rule be_bytes_cong) (simp add: bit_count_512_def)
  moreover have "bit_count_512 (Nl, Nh) div 256 ^ 8 = unat Nh"
    using unsigned_less [of Nl, where 'a = nat] by (simp add: bit_count_512_def)
  ultimately show ?thesis
    by (simp add: u64_to_bytes_eq)
qed

definition sha512_rep :: "u64 list \<Rightarrow> byte list \<Rightarrow> sha512_ctx \<Rightarrow> bool" where
  "sha512_rep h0 msg c \<longleftrightarrow>
     stream_rep 128 sha512_block h0 msg (s5_h c) (s5_p c) (s5_num c) \<and>
     bit_count_512 (s5_Nl c, s5_Nh c) = 8 * length msg mod 2 ^ 128"

lemma sha512_unaligned_stream:
  assumes "stream_rep 128 sha512_block h0 msg (s5_h c) (s5_p c) 0" "sha512_unaligned c d = (c', r)"
  shows "stream_rep 128 sha512_block h0 (msg @ take (length d div 128 * 128) d) (s5_h c') (s5_p c') 0 \<and>
    r = drop (length d div 128 * 128) d \<and> s5_num c' = s5_num c \<and>
    s5_Nl c' = s5_Nl c \<and> s5_Nh c' = s5_Nh c \<and> s5_md_len c' = s5_md_len c"
  using assms
proof (induction c d arbitrary: msg rule: sha512_unaligned.induct)
  case (1 c d)
  show ?case
  proof (cases "128 \<le> length d")
    case True
    let ?p = "put_at 0 (take 128 d) (s5_p c)"
    let ?c = "c\<lparr>s5_p := ?p, s5_h := sha512_block_data_order (s5_h c) ?p 1\<rparr>"
    have len: "length (s5_p c) = 128"
      using "1.prems"(1) by (simp add: stream_rep_def)
    then have p: "?p = take 128 d"
      using True by (simp add: put_at_def)
    have "stream_rep 128 sha512_block h0 (msg @ take 128 d) (sha512_block (s5_h c) (put_at 0 (take 128 d) (s5_p c))) ?p 0"
      using stream_rep_fill [OF "1.prems"(1), of d ?p] True p by simp
    then have rep: "stream_rep 128 sha512_block h0 (msg @ take 128 d) (s5_h ?c) (s5_p ?c) 0"
      using p by (simp add: sha512_block_data_order_def)
    have eq: "sha512_unaligned ?c (drop 128 d) = (c', r)"
      using "1.prems"(2) True by (simp add: sha512_unaligned.simps [of c] Let_def)
    have q: "length d div 128 = Suc (length (drop 128 d) div 128)"
      using True by (simp add: le_div_geq)
    then have "take (length d div 128 * 128) d = take 128 d @ take (length (drop 128 d) div 128 * 128) (drop 128 d)"
      "drop (length d div 128 * 128) d = drop (length (drop 128 d) div 128 * 128) (drop 128 d)"
      by (simp_all only: q mult_Suc take_add drop_drop add.commute)
    then show ?thesis
      using "1.IH" [OF True refl rep eq] by simp
  next
    case False
    then show ?thesis
      using "1.prems" by (simp add: sha512_unaligned.simps [of c])
  qed
qed


lemma sha512_whole_blocks_stream:
  assumes "stream_rep 128 sha512_block h0 msg (s5_h c) (s5_p c) (s5_num c)" "s5_num c = 0"
    "c' = sha512_whole_blocks c a d"
  shows "stream_rep 128 sha512_block h0 (msg @ d) (s5_h c') (s5_p c') (s5_num c') \<and>
    s5_Nl c' = s5_Nl c \<and> s5_Nh c' = s5_Nh c \<and> s5_md_len c' = s5_md_len c"
proof -
  let ?k = "length d div 128 * 128"
  obtain c1 r where c1: "(if 128 \<le> length d then if a mod 8 \<noteq> 0 then sha512_unaligned c d
       else (c\<lparr>s5_h := sha512_block_data_order (s5_h c) d (length d div 128)\<rparr>, drop (length d - length d mod 128) d)
     else (c, d)) = (c1, r)"
    by fastforce
  have rep0: "stream_rep 128 sha512_block h0 msg (s5_h c) (s5_p c) 0"
    using assms by simp
  have "stream_rep 128 sha512_block h0 (msg @ take ?k d) (s5_h c1) (s5_p c1) 0 \<and> r = drop ?k d \<and> s5_num c1 = 0 \<and>
    s5_Nl c1 = s5_Nl c \<and> s5_Nh c1 = s5_Nh c \<and> s5_md_len c1 = s5_md_len c"
  proof (cases "128 \<le> length d \<and> a mod 8 \<noteq> 0")
    case True
    then show ?thesis
      using sha512_unaligned_stream [OF rep0, of d c1 r] c1 assms(2) by simp
  next
    case False
    have "stream_rep 128 sha512_block h0 (msg @ take ?k d) (block_data_order 128 sha512_block (s5_h c) d (length d div 128)) (s5_p c) 0"
      by (rule stream_rep_blocks [OF rep0]) simp_all
    then show ?thesis
      using False c1 assms(2) rep0 by (auto simp: sha512_block_data_order_def minus_mod_eq_div_mult split: if_splits)
  qed
  moreover have "length (drop ?k d) = length d mod 128"
    by (simp add: minus_div_mult_eq_mod)
  ultimately show ?thesis
    using stream_rep_short [of 128 sha512_block h0 "msg @ take ?k d" "s5_h c1" "s5_p c1" 0 "drop ?k d"]
    unfolding assms(3) sha512_whole_blocks_def c1 by (auto simp: put_at_def simp del: length_drop)
qed

lemma SHA512_Update_rep:
  assumes rep: "sha512_rep h0 msg c" and len: "length d < 2 ^ 64"
  shows "sha512_rep h0 (msg @ d) (SHA512_Update c a d) \<and> s5_md_len (SHA512_Update c a d) = s5_md_len c"
proof (cases "length d = 0")
  case True
  then show ?thesis
    using rep by (simp add: SHA512_Update_def)
next
  case nonempty: False
  let ?n = "s5_num c"
  obtain Nl Nh where N: "count_512 (s5_Nl c) (s5_Nh c) (of_nat (length d)) = (Nl, Nh)"
    by fastforce
  have "unat (of_nat (length d) :: size_t) = length d"
    using len by (simp add: unat_of_nat take_bit_nat_eq_self)
  then have cnt: "bit_count_512 (Nl, Nh) = 8 * length (msg @ d) mod 2 ^ 128"
    using count_512 [of "s5_Nl c" "s5_Nh c" "of_nat (length d)"] rep unfolding N by (simp add: sha512_rep_def mod_simps)
  have rep1: "stream_rep 128 sha512_block h0 msg (s5_h c) (s5_p c) ?n"
    using rep by (simp add: sha512_rep_def)
  have lens: "length (s5_p c) = 128" "?n < 128"
    using rep1 by (simp_all add: stream_rep_def)
  let ?c = "c\<lparr>s5_Nl := Nl, s5_Nh := Nh\<rparr>"
  consider (short) "?n \<noteq> 0" "?n + length d < 128" | (fill) "?n \<noteq> 0" "128 \<le> ?n + length d" | (empty) "?n = 0"
    by linarith
  then show ?thesis
  proof cases
    case short
    then show ?thesis
      using nonempty N cnt less_diff_conv [of "length d" 128 ?n] stream_rep_short [OF rep1 short(2)]
      by (simp add: add.commute SHA512_Update_def sha512_rep_def Let_def)
  next
    case fill
    let ?p = "put_at ?n (take (128 - ?n) d) (s5_p c)"
    let ?c1 = "?c\<lparr>s5_p := ?p, s5_num := 0, s5_h := sha512_block (s5_h c) ?p\<rparr>"
    have "length ?p = 128"
      using fill lens by (simp add: put_at_def)
    then have "stream_rep 128 sha512_block h0 (msg @ take (128 - ?n) d) (s5_h ?c1) (s5_p ?c1) (s5_num ?c1)"
      and "SHA512_Update c a d = sha512_whole_blocks ?c1 (a + (128 - ?n)) (drop (128 - ?n) d)"
      using stream_rep_fill [OF rep1 _ fill(2), of ?p] fill nonempty N
      by (simp_all add: SHA512_Update_def Let_def sha512_block_data_order_def)
    then show ?thesis
      using sha512_whole_blocks_stream [of h0 "msg @ take (128 - ?n) d" ?c1 _ "a + (128 - ?n)" "drop (128 - ?n) d"] cnt
      by (simp add: sha512_rep_def)
  next
    case empty
    then show ?thesis
      using nonempty N rep1 cnt sha512_whole_blocks_stream [of h0 msg ?c _ a d] by (simp add: SHA512_Update_def sha512_rep_def Let_def)
  qed
qed

definition fips_sha2_64 :: "u64 list \<Rightarrow> nat \<Rightarrow> byte list \<Rightarrow> byte list" where
  "fips_sha2_64 iv n msg =
     concat (map (\<lambda>w. be_bytes 8 (unat w))
       (take n (foldl fips_sha512_block iv (md_blocks 128 (md_pad 128 (be_bytes 16 (8 * length msg)) msg)))))"

definition fips_sha512 :: "byte list \<Rightarrow> byte list" where
  "fips_sha512 = fips_sha2_64 fips_H512 8"

definition fips_sha384 :: "byte list \<Rightarrow> byte list" where
  "fips_sha384 = fips_sha2_64 fips_H384 6"

lemma fips_sha2_64_eq:
  "fips_sha2_64 iv n msg =
     (let m = md_pad 128 (be_bytes 16 (8 * length msg)) msg
      in concat (map (\<lambda>w. be_bytes 8 (unat w)) (take n (block_data_order 128 fips_sha512_block iv m (length m div 128)))))"
  by (simp add: fips_sha2_64_def foldl_md_blocks Let_def)

lemma fips_sha512_eq: "fips_sha512 = fips_sha2_64 (s5_h (SHA512_Init [])) 8"
  by (simp only: fips_sha512_def H512_roots [of "[]"])

lemma fips_sha384_eq: "fips_sha384 = fips_sha2_64 (s5_h (SHA384_Init [])) 6"
  by (simp only: fips_sha384_def H384_roots [of "[]"])

lemma SHA512_Final_rep:
  assumes rep: "sha512_rep h0 msg c" and l: "s5_md_len c = 48 \<or> s5_md_len c = 64"
  shows "fst (SHA512_Final False c) = Some (fips_sha2_64 h0 (s5_md_len c div 8) msg)"
proof -
  let ?lb = "u64_to_bytes (s5_Nh c) @ u64_to_bytes (s5_Nl c)"
  let ?m = "md_pad 128 (be_bytes 16 (8 * length msg)) msg"
  have rep1: "stream_rep 128 sha512_block h0 msg (s5_h c) (s5_p c) (s5_num c)"
    using rep by (simp add: sha512_rep_def)
  have len: "length (s5_p c) = 128" "s5_num c < 128"
    using rep1 by (simp_all add: stream_rep_def)
  have "be_bytes 16 (8 * length msg) = be_bytes 16 (bit_count_512 (s5_Nl c, s5_Nh c))"
    using rep by (intro be_bytes_cong) (simp add: sha512_rep_def)
  then have lb: "?lb = be_bytes 16 (8 * length msg)"
    by (simp add: bit_count_512_bytes)
  have lb16: "length ?lb = 16"
    unfolding lb by simp
  have take: "take 128 p = p" if "length p = 128" for p :: "byte list"
    using that by simp
  have "s5_h (snd (SHA512_Final False c)) = block_data_order 128 sha512_block h0 ?m (length ?m div 128)"
    using len lb16
    by (intro stream_rep_final [OF rep1, of ?lb, unfolded lb])
      (auto simp: SHA512_Final_def Let_def lb take length_put_at sha512_block_data_order_def split: if_splits)
  also have "\<dots> = block_data_order 128 fips_sha512_block h0 ?m (length ?m div 128)"
    by (rule block_data_order_cong) (simp_all add: sha512_block_fips)
  finally have h: "s5_h (snd (SHA512_Final False c)) = block_data_order 128 fips_sha512_block h0 ?m (length ?m div 128)" .
  have "fst (SHA512_Final False c) = Some (concat (map u64_to_bytes (take (s5_md_len c div 8) (s5_h (snd (SHA512_Final False c))))))"
    using l by (auto simp: SHA512_Final_def Let_def split: prod.splits)
  then show ?thesis
    unfolding h by (simp add: fips_sha2_64_eq Let_def u64_to_bytes_eq [abs_def])
qed

text \<open>The pieces of a message with the addresses they come from.\<close>

lemma foldl_SHA512_Update_rep:
  assumes "sha512_rep h0 msg c" "\<forall>(a, d)\<in>set ds. length d < 2 ^ 64"
  shows "sha512_rep h0 (msg @ concat (map snd ds)) (foldl (\<lambda>c (a, d). SHA512_Update c a d) c ds) \<and>
    s5_md_len (foldl (\<lambda>c (a, d). SHA512_Update c a d) c ds) = s5_md_len c"
  using assms
proof (induction ds arbitrary: msg c)
  case (Cons p ds)
  obtain a d where p: "p = (a, d)"
    by (cases p)
  then have "length d < 2 ^ 64"
    using Cons.prems(2) by simp
  from SHA512_Update_rep [OF Cons.prems(1) this, of a] Cons.IH [of "msg @ d" "SHA512_Update c a d"] Cons.prems(2)
  show ?case
    by (simp add: p)
qed simp

lemma SHA512_streaming:
  assumes "s5_h c = h0" "s5_Nl c = 0" "s5_Nh c = 0" "length (s5_p c) = 128" "s5_num c = 0"
    "\<forall>(a, d)\<in>set ds. length d < 2 ^ 64" "s5_md_len c = 48 \<or> s5_md_len c = 64"
  shows "fst (SHA512_Final False (foldl (\<lambda>c (a, d). SHA512_Update c a d) c ds)) =
    Some (fips_sha2_64 h0 (s5_md_len c div 8) (concat (map snd ds)))"
proof -
  have "sha512_rep h0 [] c"
    using assms(1-5) by (simp add: sha512_rep_def stream_rep_def bit_count_512_def)
  from foldl_SHA512_Update_rep [OF this assms(6)] SHA512_Final_rep show ?thesis
    using assms(7) by fastforce
qed

lemma fips_sha2_64_length: "n \<le> 8 \<Longrightarrow> length (fips_sha2_64 iv n msg) = 8 * n"
proof -
  let ?m = "md_pad 128 (be_bytes 16 (8 * length msg)) msg"
  have "128 dvd length ?m" "0 < length ?m"
    by (rule length_md_pad) (simp_all add: md_pad_def)
  then obtain k where "length ?m div 128 = Suc k"
    by (metis dvd_div_eq_0_iff gr0_implies_Suc less_numeral_extra(3) neq0_conv)
  then have "length (block_data_order 128 fips_sha512_block iv ?m (length ?m div 128)) = 8"
    by (simp add: block_data_order_snoc fips_sha512_block_def split: prod.split del: block_data_order.simps)
  then show "n \<le> 8 \<Longrightarrow> length (fips_sha2_64 iv n msg) = 8 * n"
    by (simp add: fips_sha2_64_eq Let_def length_concat comp_def sum_list_triv)
qed

interpretation sha512: streaming_hash "SHA512_Init (replicate 128 0)" "\<lambda>c. SHA512_Update c 0" "\<lambda>c. the (fst (SHA512_Final False c))" fips_sha512 64
proof
  fix ds :: "byte list list"
  assume "\<forall>d\<in>set ds. length d < 2 ^ 64"
  then show "the (fst (SHA512_Final False (foldl (\<lambda>c. SHA512_Update c 0) (SHA512_Init (replicate 128 0)) ds))) = fips_sha512 (concat ds)"
    using SHA512_streaming [OF refl, of "SHA512_Init (replicate 128 0)" "map (Pair 0) ds"]
    by (auto simp: SHA512_Init_def fips_sha512_eq foldl_map comp_def)
qed (simp add: fips_sha512_eq fips_sha2_64_length)

interpretation sha384: streaming_hash "SHA384_Init (replicate 128 0)" "\<lambda>c. SHA384_Update c 0" "\<lambda>c. the (fst (SHA384_Final False c))" fips_sha384 48
proof
  fix ds :: "byte list list"
  assume "\<forall>d\<in>set ds. length d < 2 ^ 64"
  then show "the (fst (SHA384_Final False (foldl (\<lambda>c. SHA384_Update c 0) (SHA384_Init (replicate 128 0)) ds))) = fips_sha384 (concat ds)"
    using SHA512_streaming [OF refl, of "SHA384_Init (replicate 128 0)" "map (Pair 0) ds"]
    by (auto simp: SHA384_Init_def SHA384_Update_def [abs_def] SHA384_Final_def fips_sha384_eq foldl_map comp_def)
qed (simp add: fips_sha384_eq fips_sha2_64_length)

text \<open>
  C25. However a message is cut into pieces for \<^verbatim>\<open>SHA512_Update\<close>, wherever in memory the pieces are (blocks at
  unaligned addresses go through the buffer) and whatever the buffer held at first, \<^verbatim>\<open>SHA512_Final\<close>
  returns the SHA-512 digest of FIPS 180-4 of the whole message, with its 128-bit length; the same
  holds for SHA-384.
\<close>

theorem sha512_streaming:
  assumes "\<forall>(a, d)\<in>set ds. length d < 2 ^ 64" "length p = 128"
  shows "fst (SHA512_Final False (foldl (\<lambda>c (a, d). SHA512_Update c a d) (SHA512_Init p) ds)) = Some (fips_sha512 (concat (map snd ds))) \<and>
    fst (SHA384_Final False (foldl (\<lambda>c (a, d). SHA384_Update c a d) (SHA384_Init p) ds)) = Some (fips_sha384 (concat (map snd ds)))"
  using SHA512_streaming [OF refl, of "SHA512_Init p" ds] SHA512_streaming [OF refl, of "SHA384_Init p" ds] assms
  by (simp add: SHA512_Init_def SHA384_Init_def SHA384_Update_def SHA384_Final_def fips_sha512_eq fips_sha384_eq)

theorem sha512_streaming_witness:
  "fst (SHA512_Final False (SHA512_Update (SHA512_Update (SHA512_Init (replicate 128 7)) 3 [1, 2]) 5 (replicate 300 3))) =
     SHA512 (replicate 128 9) 0 ([1, 2] @ replicate 300 3)"
  using sha512_streaming [of "[(3, [1, 2]), (5, replicate 300 3)]" "replicate 128 7"]
    sha512_streaming [of "[(0, [1, 2] @ replicate 300 3)]" "replicate 128 9"]
  by (simp add: SHA512_def)

text \<open>
  The unrolled block function of SHA-512 and the one for 32-bit x86, which keeps the registers and
  the whole message schedule in one array that a pointer walks down, both compute the compression
  function of FIPS 180-4, whatever the array held before.
\<close>

theorem sha512_blocks_equivalent:
  assumes "length data = 128" "length X = 89"
  shows "sha512_block H data = fips_sha512_block H data \<and> sha512_block_x86 X H data = fips_sha512_block H data"
  using assms by (simp add: sha512_block_fips sha512_block_x86_fips)

theorem sha512_blocks_equivalent_witness:
  "sha512_block (s5_h (SHA512_Init [])) (replicate 128 7) = sha512_block_x86 (replicate 89 5) (s5_h (SHA512_Init [])) (replicate 128 7)"
  using sha512_blocks_equivalent [of "replicate 128 7" "replicate 89 5"] by simp

end
