(* ===== verification/Evp_Digest.thy ===== *)
theory Evp_Digest
  imports Md5 Sha1 Sha256 Sha512
begin

text \<open>
  The digest layer of EVP: \<^verbatim>\<open>crypto/evp/digest.c\<close>, the digest accessors of \<^verbatim>\<open>crypto/evp/evp_lib.c\<close> and the
  method tables of \<^verbatim>\<open>crypto/evp/m_md5.c\<close> and \<^verbatim>\<open>crypto/evp/m_sha1.c\<close>, without ENGINEs, without a
  public-key context and with the context flags clear.

  A function gives \<open>None\<close> where the C code dereferences a null pointer or aborts in
  \<^verbatim>\<open>OPENSSL_assert\<close>, and else the value it returns with the new context. Whether \<^verbatim>\<open>malloc\<close> succeeds is the
  argument \<open>ok\<close>; \<open>mem\<close> is what the block buffer of a new context happens to hold. Input data is
  taken to be at addresses that are multiples of 8.
\<close>

section \<open>Methods and contexts\<close>

text \<open>
  A method works on contexts of the type \<open>'s\<close>; \<open>md_clear\<close> is the context with all bytes zero. Methods
  are compared by address in the source and by NID here.
\<close>

record 's evp_md =
  md_type :: nat
  md_size :: nat
  md_block_size :: nat
  md_init :: "byte list \<Rightarrow> 's"
  md_update :: "'s \<Rightarrow> byte list \<Rightarrow> 's"
  md_final :: "'s \<Rightarrow> byte list option \<times> 's"
  md_clear :: 's

record 's evp_md_ctx =
  mc_digest :: "'s evp_md option"
  mc_md_data :: "'s option"
  mc_update :: "('s \<Rightarrow> byte list \<Rightarrow> 's) option"

definition EVP_MD_block_size :: "'s evp_md \<Rightarrow> nat" where
  "EVP_MD_block_size md = md_block_size md"

definition EVP_MD_type :: "'s evp_md \<Rightarrow> nat" where
  "EVP_MD_type md = md_type md"

definition EVP_MD_size :: "'s evp_md option \<Rightarrow> int" where
  "EVP_MD_size md = (case md of None \<Rightarrow> -1 | Some md \<Rightarrow> int (md_size md))"

definition EVP_MD_CTX_md :: "'s evp_md_ctx option \<Rightarrow> 's evp_md option" where
  "EVP_MD_CTX_md ctx = (case ctx of None \<Rightarrow> None | Some ctx \<Rightarrow> mc_digest ctx)"

definition EVP_MD_CTX_init :: "'s evp_md_ctx" where
  "EVP_MD_CTX_init = \<lparr>mc_digest = None, mc_md_data = None, mc_update = None\<rparr>"

definition EVP_MD_CTX_create :: "bool \<Rightarrow> 's evp_md_ctx option" where
  "EVP_MD_CTX_create ok = (if ok then Some EVP_MD_CTX_init else None)"

definition same_md :: "'s evp_md option \<Rightarrow> 's evp_md \<Rightarrow> bool" where
  "same_md d t \<longleftrightarrow> (case d of None \<Rightarrow> False | Some d \<Rightarrow> md_type d = md_type t)"

definition digest_init_type :: "bool \<Rightarrow> byte list \<Rightarrow> 's evp_md_ctx \<Rightarrow> 's evp_md \<Rightarrow> (bool \<times> 's evp_md_ctx) option" where
  "digest_init_type ok mem ctx t =
     (if \<not> same_md (mc_digest ctx) t then
        let ctx = ctx\<lparr>mc_digest := Some t, mc_update := Some (md_update t)\<rparr>
        in if ok then Some (True, ctx\<lparr>mc_md_data := Some (md_init t mem)\<rparr>)
           else Some (False, ctx\<lparr>mc_md_data := None\<rparr>)
      else
        case mc_digest ctx of
          None \<Rightarrow> None
        | Some d \<Rightarrow>
            (case mc_md_data ctx of
               None \<Rightarrow> None
             | Some _ \<Rightarrow> Some (True, ctx\<lparr>mc_md_data := Some (md_init d mem)\<rparr>)))"

definition EVP_DigestInit_ex ::
  "bool \<Rightarrow> byte list \<Rightarrow> 's evp_md_ctx \<Rightarrow> 's evp_md option \<Rightarrow> (bool \<times> 's evp_md_ctx) option" where
  "EVP_DigestInit_ex ok mem ctx type =
     (case type of
        Some t \<Rightarrow> digest_init_type ok mem ctx t
      | None \<Rightarrow>
          (case mc_digest ctx of
             None \<Rightarrow> Some (False, ctx)
           | Some t \<Rightarrow> digest_init_type ok mem ctx t))"

definition EVP_DigestInit :: "bool \<Rightarrow> byte list \<Rightarrow> 's evp_md option \<Rightarrow> (bool \<times> 's evp_md_ctx) option" where
  "EVP_DigestInit ok mem type = EVP_DigestInit_ex ok mem EVP_MD_CTX_init type"

definition EVP_DigestUpdate :: "'s evp_md_ctx \<Rightarrow> byte list \<Rightarrow> (bool \<times> 's evp_md_ctx) option" where
  "EVP_DigestUpdate ctx data =
     (case mc_update ctx of
        None \<Rightarrow> None
      | Some upd \<Rightarrow>
          (case mc_md_data ctx of
             None \<Rightarrow> None
           | Some s \<Rightarrow> Some (True, ctx\<lparr>mc_md_data := Some (upd s data)\<rparr>)))"

definition EVP_MD_CTX_cleanup :: "'s evp_md_ctx \<Rightarrow> 's evp_md_ctx" where
  "EVP_MD_CTX_cleanup ctx = EVP_MD_CTX_init"

text \<open>The bytes written to \<^verbatim>\<open>md\<close>, or \<open>None\<close> for the result 0, and \<^verbatim>\<open>*size\<close>.\<close>

definition EVP_DigestFinal_ex :: "'s evp_md_ctx \<Rightarrow> (byte list option \<times> nat \<times> 's evp_md_ctx) option" where
  "EVP_DigestFinal_ex ctx =
     (case mc_digest ctx of
        None \<Rightarrow> None
      | Some d \<Rightarrow>
          if 64 < md_size d then None
          else
            case mc_md_data ctx of
              None \<Rightarrow> None
            | Some s \<Rightarrow> Some (fst (md_final d s), md_size d, ctx\<lparr>mc_md_data := Some (md_clear d)\<rparr>))"

definition EVP_DigestFinal :: "'s evp_md_ctx \<Rightarrow> (byte list option \<times> nat \<times> 's evp_md_ctx) option" where
  "EVP_DigestFinal ctx =
     (case EVP_DigestFinal_ex ctx of
        None \<Rightarrow> None
      | Some (ret, n, ctx) \<Rightarrow> Some (ret, n, EVP_MD_CTX_cleanup ctx))"

definition EVP_MD_CTX_copy_ex :: "bool \<Rightarrow> 's evp_md_ctx \<Rightarrow> 's evp_md_ctx \<Rightarrow> bool \<times> 's evp_md_ctx" where
  "EVP_MD_CTX_copy_ex ok out inp =
     (case mc_digest inp of
        None \<Rightarrow> (False, out)
      | Some d \<Rightarrow>
          let tmp_buf = (if same_md (mc_digest out) d then mc_md_data out else None);
              out = inp
          in
          case mc_md_data inp of
            None \<Rightarrow> (True, out)
          | Some s \<Rightarrow>
              if tmp_buf \<noteq> None \<or> ok then (True, out\<lparr>mc_md_data := Some s\<rparr>)
              else (False, out\<lparr>mc_md_data := None\<rparr>))"

definition EVP_MD_CTX_copy :: "bool \<Rightarrow> 's evp_md_ctx \<Rightarrow> bool \<times> 's evp_md_ctx" where
  "EVP_MD_CTX_copy ok inp = EVP_MD_CTX_copy_ex ok EVP_MD_CTX_init inp"

definition EVP_Digest :: "bool \<Rightarrow> byte list \<Rightarrow> byte list \<Rightarrow> 's evp_md option \<Rightarrow> byte list option option" where
  "EVP_Digest ok mem data type =
     (case EVP_DigestInit_ex ok mem EVP_MD_CTX_init type of
        None \<Rightarrow> None
      | Some (False, ctx) \<Rightarrow> Some None
      | Some (True, ctx) \<Rightarrow>
          (case EVP_DigestUpdate ctx data of
             None \<Rightarrow> None
           | Some (False, ctx) \<Rightarrow> Some None
           | Some (True, ctx) \<Rightarrow> map_option fst (EVP_DigestFinal_ex ctx)))"

section \<open>The methods\<close>

text \<open>
  The contexts of all methods in one type. A method meets only its own contexts: \<open>md_data\<close> is allocated
  for the method that \<open>mc_digest\<close> names.
\<close>

datatype md_state =
    St_md5 "md5_h hash_ctx"
  | St_sha1 "sha1_h hash_ctx"
  | St_sha256 sha256_ctx
  | St_sha512 sha512_ctx

fun md5_update :: "md_state \<Rightarrow> byte list \<Rightarrow> md_state" where
  "md5_update (St_md5 c) data = St_md5 (MD5_Update c data)"
| "md5_update s data = s"

fun md5_final :: "md_state \<Rightarrow> byte list option \<times> md_state" where
  "md5_final (St_md5 c) = (Some (fst (MD5_Final c)), St_md5 (snd (MD5_Final c)))"
| "md5_final s = (None, s)"

fun sha1_update :: "md_state \<Rightarrow> byte list \<Rightarrow> md_state" where
  "sha1_update (St_sha1 c) data = St_sha1 (SHA1_Update c data)"
| "sha1_update s data = s"

fun sha1_final :: "md_state \<Rightarrow> byte list option \<times> md_state" where
  "sha1_final (St_sha1 c) = (Some (fst (SHA1_Final c)), St_sha1 (snd (SHA1_Final c)))"
| "sha1_final s = (None, s)"

fun update256 :: "md_state \<Rightarrow> byte list \<Rightarrow> md_state" where
  "update256 (St_sha256 c) data = St_sha256 (SHA256_Update c data)"
| "update256 s data = s"

fun final256 :: "md_state \<Rightarrow> byte list option \<times> md_state" where
  "final256 (St_sha256 c) = (fst (SHA256_Final c), St_sha256 (snd (SHA256_Final c)))"
| "final256 s = (None, s)"

fun update512 :: "md_state \<Rightarrow> byte list \<Rightarrow> md_state" where
  "update512 (St_sha512 c) data = St_sha512 (SHA512_Update c 0 data)"
| "update512 s data = s"

fun final512 :: "md_state \<Rightarrow> byte list option \<times> md_state" where
  "final512 (St_sha512 c) = (fst (SHA512_Final False c), St_sha512 (snd (SHA512_Final False c)))"
| "final512 s = (None, s)"

definition EVP_md5 :: "md_state evp_md" where
  "EVP_md5 =
     \<lparr>md_type = 4, md_size = 16, md_block_size = 64, md_init = \<lambda>_. St_md5 MD5_Init, md_update = md5_update, md_final = md5_final,
      md_clear = St_md5 \<lparr>hc_h = (0, 0, 0, 0), hc_Nl = 0, hc_Nh = 0, hc_data = replicate 64 0, hc_num = 0\<rparr>\<rparr>"

definition EVP_sha1 :: "md_state evp_md" where
  "EVP_sha1 =
     \<lparr>md_type = 64, md_size = 20, md_block_size = 64, md_init = \<lambda>_. St_sha1 SHA1_Init, md_update = sha1_update, md_final = sha1_final,
      md_clear = St_sha1 \<lparr>hc_h = (0, 0, 0, 0, 0), hc_Nl = 0, hc_Nh = 0, hc_data = replicate 64 0, hc_num = 0\<rparr>\<rparr>"

definition sha256_clear :: sha256_ctx where
  "sha256_clear = \<lparr>hc_h = replicate 8 0, hc_Nl = 0, hc_Nh = 0, hc_data = replicate 64 0, hc_num = 0, sc_md_len = 0\<rparr>"

definition EVP_sha224 :: "md_state evp_md" where
  "EVP_sha224 =
     \<lparr>md_type = 675, md_size = 28, md_block_size = 64, md_init = \<lambda>_. St_sha256 SHA224_Init, md_update = update256, md_final = final256,
      md_clear = St_sha256 sha256_clear\<rparr>"

definition EVP_sha256 :: "md_state evp_md" where
  "EVP_sha256 =
     \<lparr>md_type = 672, md_size = 32, md_block_size = 64, md_init = \<lambda>_. St_sha256 SHA256_Init, md_update = update256, md_final = final256,
      md_clear = St_sha256 sha256_clear\<rparr>"

definition sha512_clear :: sha512_ctx where
  "sha512_clear = \<lparr>s5_h = replicate 8 0, s5_Nl = 0, s5_Nh = 0, s5_p = replicate 128 0, s5_num = 0, s5_md_len = 0\<rparr>"

definition EVP_sha384 :: "md_state evp_md" where
  "EVP_sha384 =
     \<lparr>md_type = 673, md_size = 48, md_block_size = 128, md_init = \<lambda>mem. St_sha512 (SHA384_Init mem), md_update = update512,
      md_final = final512, md_clear = St_sha512 sha512_clear\<rparr>"

definition EVP_sha512 :: "md_state evp_md" where
  "EVP_sha512 =
     \<lparr>md_type = 674, md_size = 64, md_block_size = 128, md_init = \<lambda>mem. St_sha512 (SHA512_Init mem), md_update = update512,
      md_final = final512, md_clear = St_sha512 sha512_clear\<rparr>"

section \<open>The interface of a method\<close>

text \<open>
  What EVP and its clients rely on: a method hashes the concatenation of the pieces it is given.
\<close>

locale evp_digest =
  fixes md :: "'s evp_md" and dg :: "byte list \<Rightarrow> byte list"
  assumes final_pieces: "length mem = 128 \<Longrightarrow> \<forall>d\<in>set ds. length d < 2 ^ 64 \<Longrightarrow>
      fst (md_final md (foldl (md_update md) (md_init md mem) ds)) = Some (dg (concat ds))"
    and digest_size: "length (dg msg) = md_size md"
    and sizes: "md_size md \<le> 64" "md_size md \<le> md_block_size md" "md_block_size md \<le> 128"
begin

definition evp_rep :: "'s evp_md_ctx \<Rightarrow> byte list \<Rightarrow> bool" where
  "evp_rep ctx msg \<longleftrightarrow>
     (\<exists>mem ds. mc_digest ctx = Some md \<and> mc_update ctx = Some (md_update md) \<and> length mem = 128 \<and> (\<forall>d\<in>set ds. length d < 2 ^ 64) \<and>
        mc_md_data ctx = Some (foldl (md_update md) (md_init md mem) ds) \<and> concat ds = msg)"

definition evp_bound :: "'s evp_md_ctx \<Rightarrow> bool" where
  "evp_bound ctx \<longleftrightarrow> mc_digest ctx = Some md \<and> mc_update ctx = Some (md_update md) \<and> mc_md_data ctx \<noteq> None"

lemma evp_rep_bound: "evp_rep ctx msg \<Longrightarrow> evp_bound ctx"
  by (auto simp: evp_rep_def evp_bound_def)

text \<open>A context that may be initialised again: any that is not left over from a failed allocation for \<open>md\<close>.\<close>

definition evp_usable :: "'s evp_md_ctx \<Rightarrow> bool" where
  "evp_usable ctx \<longleftrightarrow> evp_bound ctx \<or> \<not> same_md (mc_digest ctx) md"

lemma evp_usable_init [simp]: "evp_usable EVP_MD_CTX_init"
  by (simp add: evp_usable_def EVP_MD_CTX_init_def same_md_def)

lemma init_rep:
  assumes "evp_usable ctx" "length mem = 128"
  shows "\<exists>ctx'. EVP_DigestInit_ex True mem ctx (Some md) = Some (True, ctx') \<and> evp_rep ctx' []"
proof -
  let ?c = "ctx\<lparr>mc_digest := Some md, mc_update := Some (md_update md), mc_md_data := Some (md_init md mem)\<rparr>"
  have "EVP_DigestInit_ex True mem ctx (Some md) = Some (True, ?c)"
    using assms(1) by (cases ctx) (auto simp: evp_usable_def evp_bound_def EVP_DigestInit_ex_def digest_init_type_def same_md_def)
  moreover have "evp_rep ?c []"
    unfolding evp_rep_def using assms(2) by (intro exI [of _ mem] exI [of _ "[]"]) simp
  ultimately show ?thesis
    by blast
qed

lemma update_rep:
  assumes "evp_rep ctx msg" "length d < 2 ^ 64"
  shows "\<exists>ctx'. EVP_DigestUpdate ctx d = Some (True, ctx') \<and> evp_rep ctx' (msg @ d)"
proof -
  obtain mem ds where c: "mc_digest ctx = Some md" "mc_update ctx = Some (md_update md)" "length mem = 128" "\<forall>d\<in>set ds. length d < 2 ^ 64"
      "mc_md_data ctx = Some (foldl (md_update md) (md_init md mem) ds)" "concat ds = msg"
    using assms(1) unfolding evp_rep_def by blast
  let ?c = "ctx\<lparr>mc_md_data := Some (foldl (md_update md) (md_init md mem) (ds @ [d]))\<rparr>"
  have "EVP_DigestUpdate ctx d = Some (True, ?c)"
    using c by (simp add: EVP_DigestUpdate_def)
  moreover have "evp_rep ?c (msg @ d)"
    unfolding evp_rep_def using c assms(2) by (intro exI [of _ mem] exI [of _ "ds @ [d]"]) simp
  ultimately show ?thesis
    by blast
qed

lemma final_rep:
  assumes "evp_rep ctx msg"
  shows "\<exists>ctx'. EVP_DigestFinal_ex ctx = Some (Some (dg msg), md_size md, ctx') \<and> evp_bound ctx'"
  using assms final_pieces sizes(1) by (fastforce simp: evp_rep_def evp_bound_def EVP_DigestFinal_ex_def)

lemma copy_rep:
  assumes "evp_rep inp msg"
  shows "\<exists>out'. EVP_MD_CTX_copy_ex True out inp = (True, out') \<and> evp_rep out' msg"
  using assms by (fastforce simp: evp_rep_def EVP_MD_CTX_copy_ex_def Let_def)

lemma evp_digest_one_shot:
  assumes "length mem = 128" "length data < 2 ^ 64"
  shows "EVP_Digest True mem data (Some md) = Some (Some (dg data))"
proof -
  obtain c1 where c1: "EVP_DigestInit_ex True mem EVP_MD_CTX_init (Some md) = Some (True, c1)" "evp_rep c1 []"
    using init_rep [OF evp_usable_init assms(1)] by auto
  obtain c2 where c2: "EVP_DigestUpdate c1 data = Some (True, c2)" "evp_rep c2 data"
    using update_rep [OF c1(2) assms(2)] by auto
  show ?thesis
    using final_rep [OF c2(2)] by (auto simp: EVP_Digest_def c1(1) c2(1))
qed

end


section \<open>The digests\<close>

lemma md5_pieces: "foldl md5_update (St_md5 c) ds = St_md5 (foldl MD5_Update c ds)"
  by (induction ds arbitrary: c) simp_all

lemma sha1_pieces: "foldl sha1_update (St_sha1 c) ds = St_sha1 (foldl SHA1_Update c ds)"
  by (induction ds arbitrary: c) simp_all

lemma sha256_pieces: "foldl update256 (St_sha256 c) ds = St_sha256 (foldl SHA256_Update c ds)"
  by (induction ds arbitrary: c) simp_all

lemma sha512_pieces: "foldl update512 (St_sha512 c) ds = St_sha512 (foldl (\<lambda>c (a, d). SHA512_Update c a d) c (map (Pair 0) ds))"
  by (induction ds arbitrary: c) simp_all

lemma sha256_final_pieces:
  "c = SHA256_Init \<Longrightarrow> \<forall>d\<in>set ds. length d < 2 ^ 64 \<Longrightarrow> fst (SHA256_Final (foldl SHA256_Update c ds)) = Some (fips_sha256 (concat ds))"
  "c = SHA224_Init \<Longrightarrow> \<forall>d\<in>set ds. length d < 2 ^ 64 \<Longrightarrow> fst (SHA256_Final (foldl SHA256_Update c ds)) = Some (fips_sha224 (concat ds))"
  using SHA256_Final_streaming [OF refl, of SHA256_Init ds] SHA256_Final_streaming [OF refl, of SHA224_Init ds]
  by (simp_all add: fips_sha256_eq fips_sha224_eq SHA256_Init_def SHA224_Init_def)

lemma sha512_final_pieces:
  assumes "\<forall>d\<in>set ds. length d < 2 ^ 64" "length mem = 128"
  shows "fst (SHA512_Final False (foldl (\<lambda>c (a, d). SHA512_Update c a d) (SHA512_Init mem) (map (Pair 0) ds))) = Some (fips_sha512 (concat ds))"
    and "fst (SHA512_Final False (foldl (\<lambda>c (a, d). SHA512_Update c a d) (SHA384_Init mem) (map (Pair 0) ds))) = Some (fips_sha384 (concat ds))"
  using SHA512_streaming [OF refl, of "SHA512_Init mem" "map (Pair 0) ds"] SHA512_streaming [OF refl, of "SHA384_Init mem" "map (Pair 0) ds"] assms
  by (auto simp: SHA512_Init_def SHA384_Init_def fips_sha512_eq fips_sha384_eq comp_def)

interpretation evp_md5: evp_digest EVP_md5 rfc_md5
  by unfold_locales (simp_all add: EVP_md5_def md5_pieces md5.digest_pieces md5.digest_length)

interpretation evp_sha1: evp_digest EVP_sha1 fips_sha1
  by unfold_locales (simp_all add: EVP_sha1_def sha1_pieces sha1.digest_pieces sha1.digest_length)

interpretation evp_sha224: evp_digest EVP_sha224 fips_sha224
  by unfold_locales (simp_all add: EVP_sha224_def sha256_pieces sha256_final_pieces sha224.digest_length)

interpretation evp_sha256: evp_digest EVP_sha256 fips_sha256
  by unfold_locales (simp_all add: EVP_sha256_def sha256_pieces sha256_final_pieces sha256.digest_length)

interpretation evp_sha384: evp_digest EVP_sha384 fips_sha384
  by unfold_locales (simp_all add: EVP_sha384_def sha512_pieces sha512_final_pieces sha384.digest_length)

interpretation evp_sha512: evp_digest EVP_sha512 fips_sha512
  by unfold_locales (simp_all add: EVP_sha512_def sha512_pieces sha512_final_pieces sha512.digest_length)

text \<open>The methods with the functions they compute.\<close>

definition evp_digests :: "(md_state evp_md \<times> (byte list \<Rightarrow> byte list)) list" where
  "evp_digests =
     [(EVP_md5, rfc_md5), (EVP_sha1, fips_sha1), (EVP_sha224, fips_sha224), (EVP_sha256, fips_sha256), (EVP_sha384, fips_sha384),
      (EVP_sha512, fips_sha512)]"

lemma evp_digests: "(md, dg) \<in> set evp_digests \<Longrightarrow> evp_digest md dg"
  using evp_md5.evp_digest_axioms evp_sha1.evp_digest_axioms evp_sha224.evp_digest_axioms evp_sha256.evp_digest_axioms
    evp_sha384.evp_digest_axioms evp_sha512.evp_digest_axioms
  by (auto simp: evp_digests_def)

text \<open>
  C23. \<^verbatim>\<open>EVP_Digest\<close> with each of the six methods returns the digest of its standard, unless memory for the
  context cannot be had; then it returns 0. No call dereferences a null pointer.
\<close>

theorem evp_digest_correct:
  assumes "(md, dg) \<in> set evp_digests" "length data < 2 ^ 64" "length mem = 128"
  shows "EVP_Digest ok mem data (Some md) = Some (if ok then Some (dg data) else None)"
  using evp_digest.evp_digest_one_shot [OF evp_digests [OF assms(1)] assms(3,2)]
  by (cases ok) (simp_all add: EVP_Digest_def EVP_DigestInit_ex_def digest_init_type_def EVP_MD_CTX_init_def same_md_def)

theorem evp_digest_correct_witness:
  "EVP_Digest True (replicate 128 9) [1, 2, 3] (Some EVP_sha512) = Some (Some (fips_sha512 [1, 2, 3]))"
  using evp_digest_correct [of EVP_sha512 fips_sha512 "[1, 2, 3]" "replicate 128 9" True] by (simp add: evp_digests_def)

text \<open>
  C24. A context is not left fit for reuse when memory runs out: after a call of \<^verbatim>\<open>EVP_DigestInit_ex\<close> that
  returned 0 because \<^verbatim>\<open>malloc\<close> failed, the same call again, now with memory available, dereferences a
  null pointer, because the context already names the method and nothing is allocated.
\<close>

theorem evp_init_after_failed_malloc:
  "\<exists>ctx. EVP_DigestInit False mem (Some md) = Some (False, ctx) \<and> EVP_DigestInit_ex True mem ctx (Some md) = None"
  by (simp add: EVP_DigestInit_def EVP_DigestInit_ex_def digest_init_type_def EVP_MD_CTX_init_def same_md_def Let_def)

end
