(* ===== verification/Hmac.thy ===== *)
theory Hmac
  imports Evp_Digest
begin

unbundle bit_operations_syntax

text \<open>
  HMAC over the EVP digest layer, \<^verbatim>\<open>crypto/hmac/hmac.c\<close>, and its correctness with respect to RFC 2104 for
  every digest that meets the interface of Evp_Digest. The arguments \<open>ok\<close> tell for each allocation of a
  call, numbered in program order, whether it succeeds.
\<close>

section \<open>Definitions\<close>

record 's hmac_ctx =
  hm_md :: "'s evp_md option"
  hm_md_ctx :: "'s evp_md_ctx"
  hm_i_ctx :: "'s evp_md_ctx"
  hm_o_ctx :: "'s evp_md_ctx"
  hm_key_length :: nat
  hm_key :: "byte list"
  hm_key_init :: bool

text \<open>
  \<open>check r k\<close> is \<^verbatim>\<open>if (!r) goto err;\<close> followed by \<open>k\<close>; \<open>part upd r\<close> puts the context that \<open>r\<close> gives into the
  enclosing one.
\<close>

definition check :: "(bool \<times> 'c) option \<Rightarrow> ('c \<Rightarrow> (bool \<times> 'c) option) \<Rightarrow> (bool \<times> 'c) option" where
  "check r k = (case r of None \<Rightarrow> None | Some (b, c) \<Rightarrow> if b then k c else Some (False, c))"

definition part :: "('d \<Rightarrow> 'c) \<Rightarrow> (bool \<times> 'd) option \<Rightarrow> (bool \<times> 'c) option" where
  "part upd r = map_option (apsnd upd) r"

definition HMAC_CTX_init :: "'s hmac_ctx \<Rightarrow> 's hmac_ctx" where
  "HMAC_CTX_init ctx =
     ctx\<lparr>hm_i_ctx := EVP_MD_CTX_init, hm_o_ctx := EVP_MD_CTX_init, hm_md_ctx := EVP_MD_CTX_init, hm_key_init := False, hm_md := None\<rparr>"

definition hmac_final_key :: "'s hmac_ctx \<Rightarrow> (bool \<times> 's hmac_ctx) option" where
  "hmac_final_key ctx =
     (case EVP_DigestFinal_ex (hm_md_ctx ctx) of
        None \<Rightarrow> None
      | Some (d, n, c) \<Rightarrow>
          let ctx = ctx\<lparr>hm_md_ctx := c, hm_key_length := n\<rparr>
          in (case d of
                None \<Rightarrow> Some (False, ctx)
              | Some d \<Rightarrow> Some (True, ctx\<lparr>hm_key := put_at 0 d (hm_key ctx)\<rparr>)))"

definition hmac_set_key ::
  "(nat \<Rightarrow> bool) \<Rightarrow> byte list \<Rightarrow> 's hmac_ctx \<Rightarrow> 's evp_md \<Rightarrow> byte list \<Rightarrow> int \<Rightarrow> (bool \<times> 's hmac_ctx) option" where
  "hmac_set_key ok mem ctx md key len =
     (let j = int (EVP_MD_block_size md) in
      if \<not> j \<le> 128 then None
      else
        check
          (if j < len then
             check (part (\<lambda>c. ctx\<lparr>hm_md_ctx := c\<rparr>) (EVP_DigestInit_ex (ok 0) mem (hm_md_ctx ctx) (Some md)))
               (\<lambda>ctx. check (part (\<lambda>c. ctx\<lparr>hm_md_ctx := c\<rparr>) (EVP_DigestUpdate (hm_md_ctx ctx) (take (nat len) key)))
                  hmac_final_key)
           else if len < 0 \<or> 128 < len then Some (False, ctx)
           else Some (True, ctx\<lparr>hm_key := put_at 0 (take (nat len) key) (hm_key ctx), hm_key_length := nat len\<rparr>))
          (\<lambda>ctx.
             let kl = hm_key_length ctx;
                 k = (if kl \<noteq> 128 then put_at kl (replicate (128 - kl) 0) (hm_key ctx) else hm_key ctx)
             in Some (True, ctx\<lparr>hm_key := k, hm_key_init := True\<rparr>)))"

definition hmac_set_pads :: "(nat \<Rightarrow> bool) \<Rightarrow> byte list \<Rightarrow> 's hmac_ctx \<Rightarrow> 's evp_md \<Rightarrow> (bool \<times> 's hmac_ctx) option" where
  "hmac_set_pads ok mem ctx md =
     (let pad = map (\<lambda>b. 0x36 XOR b) (take 128 (hm_key ctx)) in
      check (part (\<lambda>c. ctx\<lparr>hm_i_ctx := c\<rparr>) (EVP_DigestInit_ex (ok 1) mem (hm_i_ctx ctx) (Some md)))
        (\<lambda>ctx. check (part (\<lambda>c. ctx\<lparr>hm_i_ctx := c\<rparr>) (EVP_DigestUpdate (hm_i_ctx ctx) (take (EVP_MD_block_size md) pad)))
        (\<lambda>ctx.
           let pad = map (\<lambda>b. 0x5c XOR b) (take 128 (hm_key ctx)) in
           check (part (\<lambda>c. ctx\<lparr>hm_o_ctx := c\<rparr>) (EVP_DigestInit_ex (ok 2) mem (hm_o_ctx ctx) (Some md)))
             (\<lambda>ctx. part (\<lambda>c. ctx\<lparr>hm_o_ctx := c\<rparr>) (EVP_DigestUpdate (hm_o_ctx ctx) (take (EVP_MD_block_size md) pad))))))"

definition HMAC_Init_ex ::
  "(nat \<Rightarrow> bool) \<Rightarrow> byte list \<Rightarrow> 's hmac_ctx \<Rightarrow> byte list option \<Rightarrow> int \<Rightarrow> 's evp_md option \<Rightarrow> (bool \<times> 's hmac_ctx) option" where
  "HMAC_Init_ex ok mem ctx key len md =
     (let reset = (md \<noteq> None);
          ctx = (case md of Some md \<Rightarrow> ctx\<lparr>hm_md := Some md\<rparr> | None \<Rightarrow> ctx)
      in
      case hm_md ctx of
        None \<Rightarrow> Some (False, ctx)
      | Some md \<Rightarrow>
          if \<not> hm_key_init ctx \<and> key = None then Some (False, ctx)
          else
            let reset = (reset \<or> key \<noteq> None) in
            check (case key of None \<Rightarrow> Some (True, ctx) | Some key \<Rightarrow> hmac_set_key ok mem ctx md key len)
              (\<lambda>ctx. check (if reset then hmac_set_pads ok mem ctx md else Some (True, ctx))
                (\<lambda>ctx. part (\<lambda>c. ctx\<lparr>hm_md_ctx := c\<rparr>) (Some (EVP_MD_CTX_copy_ex (ok 3) (hm_md_ctx ctx) (hm_i_ctx ctx))))))"

definition HMAC_Init ::
  "(nat \<Rightarrow> bool) \<Rightarrow> byte list \<Rightarrow> 's hmac_ctx \<Rightarrow> byte list option \<Rightarrow> int \<Rightarrow> 's evp_md option \<Rightarrow> (bool \<times> 's hmac_ctx) option" where
  "HMAC_Init ok mem ctx key len md =
     HMAC_Init_ex ok mem (if key \<noteq> None \<and> md \<noteq> None then HMAC_CTX_init ctx else ctx) key len md"

definition HMAC_Update :: "'s hmac_ctx \<Rightarrow> byte list \<Rightarrow> (bool \<times> 's hmac_ctx) option" where
  "HMAC_Update ctx data =
     (if \<not> hm_key_init ctx then Some (False, ctx)
      else part (\<lambda>c. ctx\<lparr>hm_md_ctx := c\<rparr>) (EVP_DigestUpdate (hm_md_ctx ctx) data))"

text \<open>\<^verbatim>\<open>HMAC_Final\<close> gives the bytes written to \<^verbatim>\<open>md\<close>, or \<open>None\<close> for the result 0, with the context.\<close>

definition HMAC_Final :: "bool \<Rightarrow> 's hmac_ctx \<Rightarrow> (byte list option \<times> 's hmac_ctx) option" where
  "HMAC_Final ok ctx =
     (if \<not> hm_key_init ctx then Some (None, ctx)
      else
        case EVP_DigestFinal_ex (hm_md_ctx ctx) of
          None \<Rightarrow> None
        | Some (None, i, c) \<Rightarrow> Some (None, ctx\<lparr>hm_md_ctx := c\<rparr>)
        | Some (Some buf, i, c) \<Rightarrow>
            (case EVP_MD_CTX_copy_ex ok c (hm_o_ctx ctx) of
               (False, c) \<Rightarrow> Some (None, ctx\<lparr>hm_md_ctx := c\<rparr>)
             | (True, c) \<Rightarrow>
                 (case EVP_DigestUpdate c (take i buf) of
                    None \<Rightarrow> None
                  | Some (False, c) \<Rightarrow> Some (None, ctx\<lparr>hm_md_ctx := c\<rparr>)
                  | Some (True, c) \<Rightarrow>
                      map_option (\<lambda>(md, n, c). (md, ctx\<lparr>hm_md_ctx := c\<rparr>)) (EVP_DigestFinal_ex c))))"

definition HMAC_CTX_copy :: "(nat \<Rightarrow> bool) \<Rightarrow> 's hmac_ctx \<Rightarrow> 's hmac_ctx \<Rightarrow> bool \<times> 's hmac_ctx" where
  "HMAC_CTX_copy ok dctx sctx =
     (let (r, c) = EVP_MD_CTX_copy (ok 0) (hm_i_ctx sctx); dctx = dctx\<lparr>hm_i_ctx := c\<rparr> in
      if \<not> r then (False, dctx)
      else
        let (r, c) = EVP_MD_CTX_copy (ok 1) (hm_o_ctx sctx); dctx = dctx\<lparr>hm_o_ctx := c\<rparr> in
        if \<not> r then (False, dctx)
        else
          let (r, c) = EVP_MD_CTX_copy (ok 2) (hm_md_ctx sctx); dctx = dctx\<lparr>hm_md_ctx := c\<rparr> in
          if \<not> r then (False, dctx)
          else
            let dctx = dctx\<lparr>hm_key_init := hm_key_init sctx\<rparr>;
                dctx = (if hm_key_init sctx
                        then dctx\<lparr>hm_key := put_at 0 (take 128 (hm_key sctx)) (hm_key dctx), hm_key_length := hm_key_length sctx\<rparr>
                        else dctx)
            in (True, dctx\<lparr>hm_md := hm_md sctx\<rparr>))"

definition HMAC_CTX_cleanup :: "'s hmac_ctx \<Rightarrow> 's hmac_ctx" where
  "HMAC_CTX_cleanup ctx =
     \<lparr>hm_md = None, hm_md_ctx = EVP_MD_CTX_init, hm_i_ctx = EVP_MD_CTX_init, hm_o_ctx = EVP_MD_CTX_init, hm_key_length = 0,
      hm_key = replicate 128 0, hm_key_init = False\<rparr>"

text \<open>
  \<^verbatim>\<open>HMAC\<close>: the context \<open>c\<close> is on the stack, not initialised. The result is what \<^verbatim>\<open>md\<close> holds, \<open>Some None\<close>
  the null pointer.
\<close>

definition HMAC ::
  "(nat \<Rightarrow> bool) \<Rightarrow> byte list \<Rightarrow> 's hmac_ctx \<Rightarrow> 's evp_md option \<Rightarrow> byte list option \<Rightarrow> int \<Rightarrow> byte list \<Rightarrow> byte list option option" where
  "HMAC ok mem c evp_md key key_len d =
     (case HMAC_Init ok mem (HMAC_CTX_init c) key key_len evp_md of
        None \<Rightarrow> None
      | Some (False, c) \<Rightarrow> Some None
      | Some (True, c) \<Rightarrow>
          (case HMAC_Update c d of
             None \<Rightarrow> None
           | Some (False, c) \<Rightarrow> Some None
           | Some (True, c) \<Rightarrow> map_option fst (HMAC_Final (ok 4) c)))"

section \<open>The function of RFC 2104\<close>

definition hmac_key :: "(byte list \<Rightarrow> byte list) \<Rightarrow> nat \<Rightarrow> byte list \<Rightarrow> byte list" where
  "hmac_key dg B key = (let k = (if B < length key then dg key else key) in k @ replicate (B - length k) 0)"

definition hmac_padded :: "(byte list \<Rightarrow> byte list) \<Rightarrow> byte list \<Rightarrow> byte list \<Rightarrow> byte list" where
  "hmac_padded dg k msg = dg (map (\<lambda>b. 0x5c XOR b) k @ dg (map (\<lambda>b. 0x36 XOR b) k @ msg))"

definition rfc_hmac :: "(byte list \<Rightarrow> byte list) \<Rightarrow> nat \<Rightarrow> byte list \<Rightarrow> byte list \<Rightarrow> byte list" where
  "rfc_hmac dg B key msg = hmac_padded dg (hmac_key dg B key) msg"

section \<open>Correctness\<close>

lemma check_simps [simp]:
  "check (Some (True, c)) k = k c" "check (Some (False, c)) k = Some (False, c)" "check None k = None"
  by (simp_all add: check_def)

lemma check_return [simp]: "check r (\<lambda>c. Some (True, c)) = r"
  by (simp add: check_def split: option.splits prod.splits)

lemma part_simps [simp]: "part f (Some (b, c)) = Some (b, f c)" "part f None = None"
  by (simp_all add: part_def)

context evp_digest
begin

text \<open>
  A context set up for a key: the padded key \<open>k\<close> is in the first block of the key buffer, the inner
  and the outer context have seen their pads.
\<close>

definition hmac_ready :: "'s hmac_ctx \<Rightarrow> byte list \<Rightarrow> bool" where
  "hmac_ready ctx k \<longleftrightarrow>
     hm_md ctx = Some md \<and> hm_key_init ctx \<and> length (hm_key ctx) = 128 \<and> take (md_block_size md) (hm_key ctx) = k \<and>
     evp_rep (hm_i_ctx ctx) (map (\<lambda>b. 0x36 XOR b) k) \<and> evp_rep (hm_o_ctx ctx) (map (\<lambda>b. 0x5c XOR b) k)"

definition hmac_rep :: "'s hmac_ctx \<Rightarrow> byte list \<Rightarrow> byte list \<Rightarrow> bool" where
  "hmac_rep ctx k msg \<longleftrightarrow> hmac_ready ctx k \<and> evp_rep (hm_md_ctx ctx) (map (\<lambda>b. 0x36 XOR b) k @ msg)"

definition hmac_usable :: "'s hmac_ctx \<Rightarrow> bool" where
  "hmac_usable ctx \<longleftrightarrow>
     length (hm_key ctx) = 128 \<and> evp_usable (hm_md_ctx ctx) \<and> evp_usable (hm_i_ctx ctx) \<and> evp_usable (hm_o_ctx ctx)"

lemma block_lt: "length (take (md_block_size md) xs) < 2 ^ 64"
  using sizes(3) by simp

lemma hmac_pads:
  assumes "hm_md ctx = Some md" "hm_key_init ctx" "length (hm_key ctx) = 128" "length mem = 128"
    "evp_usable (hm_i_ctx ctx)" "evp_usable (hm_o_ctx ctx)" "\<And>n. ok n"
  shows "\<exists>ctx'. hmac_set_pads ok mem ctx md = Some (True, ctx') \<and> hmac_ready ctx' (take (md_block_size md) (hm_key ctx)) \<and> hm_key ctx' = hm_key ctx"
proof -
  let ?k = "take (md_block_size md) (hm_key ctx)"
  obtain i1 where i1: "EVP_DigestInit_ex True mem (hm_i_ctx ctx) (Some md) = Some (True, i1)" "evp_rep i1 []"
    using init_rep [OF assms(5,4)] by blast
  obtain i2 where i2: "EVP_DigestUpdate i1 (map (\<lambda>b. 0x36 XOR b) ?k) = Some (True, i2)" "evp_rep i2 (map (\<lambda>b. 0x36 XOR b) ?k)"
    using update_rep [OF i1(2), of "map (\<lambda>b. 0x36 XOR b) ?k"] block_lt by auto
  obtain o1 where o1: "EVP_DigestInit_ex True mem (hm_o_ctx ctx) (Some md) = Some (True, o1)" "evp_rep o1 []"
    using init_rep [OF assms(6,4)] by blast
  obtain o2 where o2: "EVP_DigestUpdate o1 (map (\<lambda>b. 0x5c XOR b) ?k) = Some (True, o2)" "evp_rep o2 (map (\<lambda>b. 0x5c XOR b) ?k)"
    using update_rep [OF o1(2), of "map (\<lambda>b. 0x5c XOR b) ?k"] block_lt by auto
  have "hmac_set_pads ok mem ctx md = Some (True, ctx\<lparr>hm_i_ctx := i2, hm_o_ctx := o2\<rparr>)"
    using i1(1) i2(1) o1(1) o2(1) assms(3,7) sizes(3)
    by (simp add: hmac_set_pads_def Let_def EVP_MD_block_size_def take_map)
  then show ?thesis
    using assms(1-3) i2(2) o2(2) by (simp add: hmac_ready_def)
qed

lemma hmac_key_buffer:
  assumes "length k \<le> md_block_size md" "length buf = 128"
  shows "put_at (length k) (replicate (128 - length k) 0) (put_at 0 k buf) = k @ replicate (128 - length k) 0"
    "take (md_block_size md) (k @ replicate (128 - length k) 0) = k @ replicate (md_block_size md - length k) 0"
    "length (k @ replicate (128 - length k) 0) = 128"
  using assms sizes(3) by (auto simp: put_at_def min_def)

lemma hmac_key_set:
  assumes u: "hmac_usable ctx" and "hm_md ctx = Some md" and len: "length key < 2 ^ 64" and mem: "length mem = 128" and ok: "\<And>n. ok n"
  shows "\<exists>ctx'. hmac_set_key ok mem ctx md key (int (length key)) = Some (True, ctx') \<and> hm_md ctx' = Some md \<and> hm_key_init ctx' \<and>
    hmac_usable ctx' \<and> take (md_block_size md) (hm_key ctx') = hmac_key dg (md_block_size md) key \<and>
    hm_key ctx' = (let k = (if md_block_size md < length key then dg key else key) in k @ replicate (128 - length k) 0)"
proof -
  let ?B = "md_block_size md" and ?k = "if md_block_size md < length key then dg key else key"
  let ?fin = "\<lambda>c k. ctx\<lparr>hm_md_ctx := c, hm_key_length := length k, hm_key := put_at 0 k (hm_key ctx)\<rparr>"
  have k: "length ?k \<le> ?B"
    using digest_size sizes(2) by simp
  have "\<exists>c. evp_usable c \<and> hmac_set_key ok mem ctx md key (int (length key)) =
      check (Some (True, ?fin c ?k)) (\<lambda>ctx.
        let kl = hm_key_length ctx; k = (if kl \<noteq> 128 then put_at kl (replicate (128 - kl) 0) (hm_key ctx) else hm_key ctx)
        in Some (True, ctx\<lparr>hm_key := k, hm_key_init := True\<rparr>))"
  proof (cases "?B < length key")
    case True
    obtain c1 where c1: "EVP_DigestInit_ex True mem (hm_md_ctx ctx) (Some md) = Some (True, c1)" "evp_rep c1 []"
      using init_rep [OF _ mem] u unfolding hmac_usable_def by blast
    obtain c2 where c2: "EVP_DigestUpdate c1 key = Some (True, c2)" "evp_rep c2 key"
      using update_rep [OF c1(2) len] by auto
    obtain c3 where c3: "EVP_DigestFinal_ex c2 = Some (Some (dg key), md_size md, c3)" "evp_bound c3"
      using final_rep [OF c2(2)] by blast
    show ?thesis
      using True c1(1) c2(1) c3 ok sizes(3)
      by (intro exI [of _ c3])
        (simp add: hmac_set_key_def EVP_MD_block_size_def hmac_final_key_def digest_size evp_usable_def Let_def)
  next
    case False
    then show ?thesis
      using sizes(3) u by (intro exI [of _ "hm_md_ctx ctx"]) (simp add: hmac_set_key_def EVP_MD_block_size_def hmac_usable_def Let_def)
  qed
  moreover have "put_at 128 [] b = b" if "length b = 128" for b :: "byte list"
    using that by (simp add: put_at_def)
  ultimately show ?thesis
    using hmac_key_buffer [OF k, of "hm_key ctx"] u assms(2)
    by (auto simp: hmac_usable_def hmac_key_def Let_def length_put_at)
qed

lemma hmac_copy:
  assumes "hmac_ready ctx k" "ok 3"
  shows "\<exists>ctx'. part (\<lambda>c. ctx\<lparr>hm_md_ctx := c\<rparr>) (Some (EVP_MD_CTX_copy_ex (ok 3) (hm_md_ctx ctx) (hm_i_ctx ctx))) = Some (True, ctx') \<and>
    hmac_rep ctx' k [] \<and> hm_key ctx' = hm_key ctx"
  using assms copy_rep [of "hm_i_ctx ctx" "map (\<lambda>b. 0x36 XOR b) k" "hm_md_ctx ctx"] by (auto simp: hmac_rep_def hmac_ready_def)

lemma hmac_init:
  assumes u: "hmac_usable ctx" and len: "length key < 2 ^ 64" and mem: "length mem = 128" and ok: "\<And>n. ok n"
    and md: "mdo = Some md \<or> mdo = None \<and> hm_md ctx = Some md"
  shows "\<exists>ctx'. HMAC_Init_ex ok mem ctx (Some key) (int (length key)) mdo = Some (True, ctx') \<and>
    hmac_rep ctx' (hmac_key dg (md_block_size md) key) [] \<and>
    hm_key ctx' = (let k = (if md_block_size md < length key then dg key else key) in k @ replicate (128 - length k) 0)"
proof -
  let ?c = "ctx\<lparr>hm_md := Some md\<rparr>" and ?k = "hmac_key dg (md_block_size md) key"
    and ?buf = "let k = (if md_block_size md < length key then dg key else key) in k @ replicate (128 - length k) 0"
  have c: "(case mdo of Some md \<Rightarrow> ctx\<lparr>hm_md := Some md\<rparr> | None \<Rightarrow> ctx) = ?c"
    using md by auto
  have "hmac_usable ?c"
    using u by (simp add: hmac_usable_def)
  from hmac_key_set [OF this _ len mem, of ok] ok obtain c1 where
    c1: "hmac_set_key ok mem ?c md key (int (length key)) = Some (True, c1)" "hm_md c1 = Some md" "hm_key_init c1" "hmac_usable c1"
      "take (md_block_size md) (hm_key c1) = ?k" "hm_key c1 = ?buf"
    by auto
  have "\<exists>c2. hmac_set_pads ok mem c1 md = Some (True, c2) \<and> hmac_ready c2 ?k \<and> hm_key c2 = hm_key c1"
    using hmac_pads [OF c1(2,3) _ mem, of ok] c1(4,5) ok by (simp add: hmac_usable_def)
  then obtain c2 where c2: "hmac_set_pads ok mem c1 md = Some (True, c2)" "hmac_ready c2 ?k" "hm_key c2 = hm_key c1"
    by blast
  obtain c3 where c3: "part (\<lambda>c. c2\<lparr>hm_md_ctx := c\<rparr>) (Some (EVP_MD_CTX_copy_ex (ok 3) (hm_md_ctx c2) (hm_i_ctx c2))) = Some (True, c3)"
    "hmac_rep c3 ?k []" "hm_key c3 = hm_key c2"
    using hmac_copy [of c2 ?k ok, OF c2(2)] ok by blast
  have "HMAC_Init_ex ok mem ctx (Some key) (int (length key)) mdo = Some (True, c3)"
    unfolding HMAC_Init_ex_def c Let_def by (simp add: c1(1) c2(1) c3(1))
  then show ?thesis
    using c1(6) c2(3) c3(2,3) by simp
qed

lemma hmac_restart:
  assumes "hmac_ready ctx k" "ok 3"
  shows "\<exists>ctx'. HMAC_Init_ex ok mem ctx None len None = Some (True, ctx') \<and> hmac_rep ctx' k []"
  using hmac_copy [of ctx k ok] assms by (auto simp: HMAC_Init_ex_def hmac_ready_def)

lemma hmac_update:
  assumes "hmac_rep ctx k msg" "length d < 2 ^ 64"
  shows "\<exists>ctx'. HMAC_Update ctx d = Some (True, ctx') \<and> hmac_rep ctx' k (msg @ d)"
  using assms update_rep [of "hm_md_ctx ctx" "map (\<lambda>b. 0x36 XOR b) k @ msg" d]
  by (auto simp: HMAC_Update_def hmac_rep_def hmac_ready_def)

lemma hmac_final:
  assumes "hmac_rep ctx k msg" "ok"
  shows "\<exists>ctx'. HMAC_Final ok ctx = Some (Some (hmac_padded dg k msg), ctx') \<and> hmac_ready ctx' k \<and> evp_bound (hm_md_ctx ctx')"
proof -
  obtain c1 where c1: "EVP_DigestFinal_ex (hm_md_ctx ctx) = Some (Some (dg (map (\<lambda>b. 0x36 XOR b) k @ msg)), md_size md, c1)"
    using final_rep assms(1) unfolding hmac_rep_def by blast
  obtain c2 where c2: "EVP_MD_CTX_copy_ex True c1 (hm_o_ctx ctx) = (True, c2)" "evp_rep c2 (map (\<lambda>b. 0x5c XOR b) k)"
    using copy_rep assms(1) unfolding hmac_rep_def hmac_ready_def by blast
  obtain c3 where c3: "EVP_DigestUpdate c2 (dg (map (\<lambda>b. 0x36 XOR b) k @ msg)) = Some (True, c3)"
    "evp_rep c3 (map (\<lambda>b. 0x5c XOR b) k @ dg (map (\<lambda>b. 0x36 XOR b) k @ msg))"
    using update_rep [OF c2(2), of "dg (map (\<lambda>b. 0x36 XOR b) k @ msg)"] digest_size sizes(1) by auto
  obtain c4 where c4: "EVP_DigestFinal_ex c3 = Some (Some (hmac_padded dg k msg), md_size md, c4)" "evp_bound c4"
    using final_rep [OF c3(2)] unfolding hmac_padded_def by blast
  show ?thesis
    using assms c1 c2(1) c3(1) c4 by (auto simp: HMAC_Final_def hmac_rep_def hmac_ready_def digest_size)
qed

end

section \<open>Properties\<close>

text \<open>A sequence of calls of \<^verbatim>\<open>HMAC_Update\<close>.\<close>

fun HMAC_Updates :: "'s hmac_ctx \<Rightarrow> byte list list \<Rightarrow> (bool \<times> 's hmac_ctx) option" where
  "HMAC_Updates ctx [] = Some (True, ctx)"
| "HMAC_Updates ctx (d # ds) = check (HMAC_Update ctx d) (\<lambda>ctx. HMAC_Updates ctx ds)"

context evp_digest
begin

lemma hmac_updates:
  assumes "hmac_rep ctx k msg" "\<forall>d\<in>set ds. length d < 2 ^ 64"
  shows "\<exists>ctx'. HMAC_Updates ctx ds = Some (True, ctx') \<and> hmac_rep ctx' k (msg @ concat ds)"
  using assms
proof (induction ds arbitrary: ctx msg)
  case (Cons d ds)
  then obtain c1 where c1: "HMAC_Update ctx d = Some (True, c1)" "hmac_rep c1 k (msg @ d)"
    using hmac_update [OF Cons.prems(1), of d] by auto
  from Cons.IH [OF c1(2)] Cons.prems(2) c1(1) show ?case
    by simp
qed simp

lemma hmac_usable_init: "length (hm_key ctx) = 128 \<Longrightarrow> hmac_usable (HMAC_CTX_init ctx)"
  by (simp add: hmac_usable_def HMAC_CTX_init_def)

lemma hmac_session:
  assumes "length (hm_key ctx) = 128" "length key < 2 ^ 64" "length mem = 128" "\<And>n. ok n" "\<forall>d\<in>set ds. length d < 2 ^ 64"
  shows "\<exists>c1 c2 c3. HMAC_Init ok mem ctx (Some key) (int (length key)) (Some md) = Some (True, c1) \<and>
    HMAC_Updates c1 ds = Some (True, c2) \<and> HMAC_Final True c2 = Some (Some (rfc_hmac dg (md_block_size md) key (concat ds)), c3) \<and>
    hmac_ready c3 (hmac_key dg (md_block_size md) key)"
proof -
  let ?k = "hmac_key dg (md_block_size md) key"
  have "\<exists>c1. HMAC_Init ok mem ctx (Some key) (int (length key)) (Some md) = Some (True, c1) \<and> hmac_rep c1 ?k []"
    unfolding HMAC_Init_def using hmac_init [OF hmac_usable_init [OF assms(1)] assms(2,3), of ok "Some md"] assms(4) by auto
  then obtain c1 where c1: "HMAC_Init ok mem ctx (Some key) (int (length key)) (Some md) = Some (True, c1)" "hmac_rep c1 ?k []"
    by blast
  obtain c2 where c2: "HMAC_Updates c1 ds = Some (True, c2)" "hmac_rep c2 ?k (concat ds)"
    using hmac_updates [OF c1(2) assms(5)] by auto
  obtain c3 where "HMAC_Final True c2 = Some (Some (hmac_padded dg ?k (concat ds)), c3)" "hmac_ready c3 ?k"
    using hmac_final [OF c2(2)] by auto
  then show ?thesis
    using c1(1) c2(1) by (auto simp: rfc_hmac_def)
qed

lemma hmac_one_shot:
  assumes "length (hm_key ctx) = 128" "length key < 2 ^ 64" "length mem = 128" "\<And>n. ok n" "length d < 2 ^ 64"
  shows "HMAC ok mem ctx (Some md) (Some key) (int (length key)) d = Some (Some (rfc_hmac dg (md_block_size md) key d))"
proof -
  have "length (hm_key (HMAC_CTX_init ctx)) = 128"
    using assms(1) by (simp add: HMAC_CTX_init_def)
  from hmac_session [where ok = ok, OF this assms(2-4), of "[d]"] assms(5) obtain c1 c2 c3 where
    "HMAC_Init ok mem (HMAC_CTX_init ctx) (Some key) (int (length key)) (Some md) = Some (True, c1)"
    "HMAC_Update c1 d = Some (True, c2)" "HMAC_Final True c2 = Some (Some (rfc_hmac dg (md_block_size md) key d), c3)"
    by auto
  then show ?thesis
    using assms(4) by (simp add: HMAC_def)
qed

end

lemma evp_md_sizes:
  "md_size EVP_md5 = 16" "md_size EVP_sha1 = 20" "md_size EVP_sha224 = 28" "md_size EVP_sha256 = 32" "md_size EVP_sha384 = 48" "md_size EVP_sha512 = 64"
  "md_block_size EVP_md5 = 64" "md_block_size EVP_sha1 = 64" "md_block_size EVP_sha224 = 64" "md_block_size EVP_sha256 = 64"
  "md_block_size EVP_sha384 = 128" "md_block_size EVP_sha512 = 128"
  by (simp_all add: EVP_md5_def EVP_sha1_def EVP_sha224_def EVP_sha256_def EVP_sha384_def EVP_sha512_def)

text \<open>
  C9. For each of the six digests, whatever the pieces of the message and whatever the context held
  before: \<^verbatim>\<open>HMAC_Init\<close>, \<^verbatim>\<open>HMAC_Update\<close> on the pieces and \<^verbatim>\<open>HMAC_Final\<close> return 1 and give the HMAC of RFC 2104
  of the message, for keys shorter, as long as and longer than a block; and \<^verbatim>\<open>HMAC_Init_ex\<close> without a key
  and a digest makes the context ready for another message under the same key.
\<close>

theorem hmac_streaming:
  assumes "(md, dg) \<in> set evp_digests" "length (hm_key ctx) = 128" "length key < 2 ^ 31" "length mem = 128" "\<And>n. ok n"
    "\<forall>d\<in>set (ds @ ds'). length d < 2 ^ 64"
  shows "\<exists>c1 c2 c3 c4 c5 c6.
    HMAC_Init ok mem ctx (Some key) (int (length key)) (Some md) = Some (True, c1) \<and> HMAC_Updates c1 ds = Some (True, c2) \<and>
    HMAC_Final True c2 = Some (Some (rfc_hmac dg (md_block_size md) key (concat ds)), c3) \<and>
    HMAC_Init_ex ok mem c3 None 0 None = Some (True, c4) \<and> HMAC_Updates c4 ds' = Some (True, c5) \<and>
    HMAC_Final True c5 = Some (Some (rfc_hmac dg (md_block_size md) key (concat ds')), c6)"
proof -
  note md = evp_digests [OF assms(1)]
  let ?k = "hmac_key dg (md_block_size md) key"
  obtain c1 c2 c3 where 1: "HMAC_Init ok mem ctx (Some key) (int (length key)) (Some md) = Some (True, c1)"
    "HMAC_Updates c1 ds = Some (True, c2)" "HMAC_Final True c2 = Some (Some (rfc_hmac dg (md_block_size md) key (concat ds)), c3)"
    and r3: "evp_digest.hmac_ready md c3 ?k"
    using evp_digest.hmac_session [where ok = ok, OF md assms(2) _ assms(4,5), of key ds] assms(3,6) by auto
  obtain c4 where 4: "HMAC_Init_ex ok mem c3 None 0 None = Some (True, c4)" and r4: "evp_digest.hmac_rep md c4 ?k []"
    using evp_digest.hmac_restart [where ok = ok and mem = mem and len = 0, OF md r3 assms(5)] by blast
  obtain c5 where 5: "HMAC_Updates c4 ds' = Some (True, c5)" and r5: "evp_digest.hmac_rep md c5 ?k (concat ds')"
    using evp_digest.hmac_updates [OF md r4, of ds'] assms(6) by auto
  obtain c6 where "HMAC_Final True c5 = Some (Some (hmac_padded dg ?k (concat ds')), c6)"
    using evp_digest.hmac_final [OF md r5, of True] by auto
  then show ?thesis
    using 1 4 5 unfolding rfc_hmac_def by blast
qed

theorem hmac_streaming_witness:
  "\<exists>c1 c2 c3. HMAC_Init (\<lambda>_. True) (replicate 128 0) (HMAC_CTX_cleanup undefined) (Some (replicate 200 1)) 200 (Some EVP_sha256) = Some (True, c1) \<and>
    HMAC_Updates c1 [[1, 2], [3]] = Some (True, c2) \<and>
    HMAC_Final True c2 = Some (Some (rfc_hmac fips_sha256 64 (replicate 200 1) [1, 2, 3]), c3)"
  using hmac_streaming [of EVP_sha256 fips_sha256 "HMAC_CTX_cleanup undefined" "replicate 200 1" "replicate 128 0" "\<lambda>_. True" "[[1, 2], [3]]" "[]"]
  by (auto simp: evp_digests_def HMAC_CTX_cleanup_def EVP_sha256_def)

text \<open>
  C21. \<^verbatim>\<open>HMAC\<close> in one call, on a context that is not initialised, returns the HMAC of RFC 2104; with a null
  key it returns the null pointer. Neither dereferences a null pointer.
\<close>

theorem hmac_one_call:
  assumes "(md, dg) \<in> set evp_digests" "length (hm_key ctx) = 128" "length key < 2 ^ 31" "length mem = 128" "\<And>n. ok n" "length d < 2 ^ 64"
  shows "HMAC ok mem ctx (Some md) (Some key) (int (length key)) d = Some (Some (rfc_hmac dg (md_block_size md) key d)) \<and>
    HMAC ok mem ctx (Some md) None len d = Some None"
  using evp_digest.hmac_one_shot [where ok = ok, OF evp_digests [OF assms(1)] assms(2) _ assms(4,5,6), of key] assms(3)
  by (simp add: HMAC_def HMAC_Init_def HMAC_Init_ex_def HMAC_CTX_init_def)

theorem hmac_one_call_witness:
  "HMAC (\<lambda>_. True) (replicate 128 0) (HMAC_CTX_cleanup undefined) (Some EVP_md5) (Some [1, 2]) 2 [3] = Some (Some (rfc_hmac rfc_md5 64 [1, 2] [3]))"
  using hmac_one_call [of EVP_md5 rfc_md5 "HMAC_CTX_cleanup undefined" "[1, 2]" "replicate 128 0" "\<lambda>_. True" "[3]"]
  by (simp add: evp_digests_def HMAC_CTX_cleanup_def EVP_md5_def)

text \<open>
  C22. A change of the digest alone does not reuse the key: after a key longer than a block of the first
  digest, \<^verbatim>\<open>HMAC_Init_ex\<close> with a null key and a second digest goes on with the first digest of the key in
  place of the key.
\<close>

theorem hmac_digest_change:
  assumes md: "(md, dg) \<in> set evp_digests" "(md', dg') \<in> set evp_digests" "md_type md' \<noteq> md_type md" and
    long: "md_block_size md < length key" "length key < 2 ^ 31" and
    env: "length (hm_key ctx) = 128" "length mem = 128" "\<And>n. ok n" "\<forall>d\<in>set ds. length d < 2 ^ 64"
  shows "\<exists>c1 c2 c3 c4. HMAC_Init ok mem ctx (Some key) (int (length key)) (Some md) = Some (True, c1) \<and>
    HMAC_Init_ex ok mem c1 None 0 (Some md') = Some (True, c2) \<and> HMAC_Updates c2 ds = Some (True, c3) \<and>
    HMAC_Final True c3 = Some (Some (rfc_hmac dg' (md_block_size md') (dg key) (concat ds)), c4)"
proof -
  note md1 = evp_digests [OF md(1)] and md2 = evp_digests [OF md(2)]
  let ?k = "hmac_key dg (md_block_size md) key" and ?k' = "hmac_key dg' (md_block_size md') (dg key)"
  have "\<exists>c1. HMAC_Init ok mem ctx (Some key) (int (length key)) (Some md) = Some (True, c1) \<and> evp_digest.hmac_rep md c1 ?k [] \<and>
     hm_key c1 = dg key @ replicate (128 - length (dg key)) 0"
    unfolding HMAC_Init_def
    using evp_digest.hmac_init [where ok = ok, OF md1 evp_digest.hmac_usable_init [OF md1 env(1)] _ env(2,3), of key "Some md"] long by (simp add: Let_def)
  then obtain c1 where c1: "HMAC_Init ok mem ctx (Some key) (int (length key)) (Some md) = Some (True, c1)"
      "evp_digest.hmac_rep md c1 ?k []" "hm_key c1 = dg key @ replicate (128 - length (dg key)) 0"
    by blast
  let ?c = "c1\<lparr>hm_md := Some md'\<rparr>"
  have len: "length (dg key) \<le> 64" "length (dg key) \<le> md_block_size md'"
    using evp_digest.digest_size [OF md1] evp_digest.sizes(1) [OF md1] md(2) by (auto simp: evp_digests_def evp_md_sizes)
  have u: "hm_key_init c1" "evp_digest.evp_usable md' (hm_i_ctx c1)" "evp_digest.evp_usable md' (hm_o_ctx c1)" "length (hm_key c1) = 128"
    using c1(2,3) len(1) md(3)
    by (auto simp: evp_digest.hmac_rep_def [OF md1] evp_digest.hmac_ready_def [OF md1] evp_digest.evp_rep_def [OF md1]
        evp_digest.evp_usable_def [OF md2] same_md_def)
  have k: "take (md_block_size md') (hm_key c1) = ?k'"
    using evp_digest.hmac_key_buffer(2) [OF md2 len(2), of "replicate 128 0"] len(2) by (simp add: hmac_key_def c1(3) Let_def)
  have "\<exists>c2. hmac_set_pads ok mem ?c md' = Some (True, c2) \<and> evp_digest.hmac_ready md' c2 ?k'"
    using evp_digest.hmac_pads [where ok = ok, OF md2 _ _ _ env(2) _ _ env(3), of ?c] u k by auto
  then obtain c2 where c2: "hmac_set_pads ok mem ?c md' = Some (True, c2)" "evp_digest.hmac_ready md' c2 ?k'"
    by blast
  obtain c3 where c3: "part (\<lambda>c. c2\<lparr>hm_md_ctx := c\<rparr>) (Some (EVP_MD_CTX_copy_ex (ok 3) (hm_md_ctx c2) (hm_i_ctx c2))) = Some (True, c3)"
    "evp_digest.hmac_rep md' c3 ?k' []"
    using evp_digest.hmac_copy [where ok = ok, OF md2 c2(2) env(3)] by blast
  have 1: "HMAC_Init_ex ok mem c1 None 0 (Some md') = Some (True, c3)"
    using u(1) c2(1) c3(1) by (simp add: HMAC_Init_ex_def)
  obtain c4 where c4: "HMAC_Updates c3 ds = Some (True, c4)" "evp_digest.hmac_rep md' c4 ?k' (concat ds)"
    using evp_digest.hmac_updates [OF md2 c3(2) env(4)] by auto
  obtain c5 where "HMAC_Final True c4 = Some (Some (hmac_padded dg' ?k' (concat ds)), c5)"
    using evp_digest.hmac_final [OF md2 c4(2), of True] by auto
  then show ?thesis
    using c1(1) 1 c4(1) unfolding rfc_hmac_def by blast
qed

theorem hmac_digest_change_witness:
  "\<exists>c1 c2 c3 c4. HMAC_Init (\<lambda>_. True) (replicate 128 0) (HMAC_CTX_cleanup undefined) (Some (replicate 65 1)) 65 (Some EVP_md5) = Some (True, c1) \<and>
    HMAC_Init_ex (\<lambda>_. True) (replicate 128 0) c1 None 0 (Some EVP_sha512) = Some (True, c2) \<and> HMAC_Updates c2 [[1]] = Some (True, c3) \<and>
    HMAC_Final True c3 = Some (Some (rfc_hmac fips_sha512 128 (rfc_md5 (replicate 65 1)) [1]), c4)"
  using hmac_digest_change [of EVP_md5 rfc_md5 EVP_sha512 fips_sha512 "replicate 65 1" "HMAC_CTX_cleanup undefined" "replicate 128 0" "\<lambda>_. True" "[[1]]"]
  by (simp add: evp_digests_def HMAC_CTX_cleanup_def EVP_md5_def EVP_sha512_def)

end
