(* ===== verification/Cbc_Record.thy ===== *)
theory Cbc_Record
  imports Constant_Time
begin

unbundle bit_operations_syntax

text \<open>
  Padding and MAC of decrypted CBC records, the first half of \<^verbatim>\<open>ssl/s3_cbc.c\<close>: the removal of the
  padding and the extraction of the MAC, both written without branches on secret values. \<^verbatim>\<open>unsigned\<close> is a
  32-bit word; \<open>rec_data\<close> is the memory from the data pointer of the record on.
\<close>

section \<open>Definitions\<close>

record ssl3_record =
  rec_type :: u32
  rec_length :: u32
  rec_data :: "byte list"
  rec_input :: "byte list"

text \<open>
  \<open>explicit_iv\<close> is \<^verbatim>\<open>SSL_USE_EXPLICIT_IV\<close>, \<open>aead\<close> the AEAD flag of the read cipher. The loop of
  \<^verbatim>\<open>tls1_cbc_remove_padding\<close> is \<open>padding_good\<close>.
\<close>

definition padding_good :: "u32 \<Rightarrow> u32 \<Rightarrow> byte list \<Rightarrow> u32 \<Rightarrow> u32 \<Rightarrow> u32" where
  "padding_good padding_length len data good to_check =
     foldl (\<lambda>good i.
        let msk = constant_time_ge_8 padding_length (of_nat i);
            b = data ! unat (len - 1 - of_nat i)
        in good AND NOT (ucast msk AND (padding_length XOR ucast b))) good [0..<unat to_check]"

definition tls1_cbc_remove_padding :: "bool \<Rightarrow> bool \<Rightarrow> ssl3_record \<Rightarrow> u32 \<Rightarrow> u32 \<Rightarrow> int \<times> ssl3_record" where
  "tls1_cbc_remove_padding explicit_iv aead r block_size mac_size =
     (let overhead = 1 + mac_size in
      if explicit_iv \<and> rec_length r < overhead + block_size then (0, r)
      else if \<not> explicit_iv \<and> rec_length r < overhead then (0, r)
      else
        let r = (if explicit_iv then
                   r\<lparr>rec_data := drop (unat block_size) (rec_data r), rec_input := drop (unat block_size) (rec_input r),
                     rec_length := rec_length r - block_size\<rparr>
                 else r);
            padding_length = ucast (rec_data r ! unat (rec_length r - 1)) :: u32
        in
        if aead then (1, r\<lparr>rec_length := rec_length r - (padding_length + 1)\<rparr>)
        else
          let good = constant_time_ge (rec_length r) (overhead + padding_length);
              to_check = (if rec_length r - 1 < 255 then rec_length r - 1 else 255);
              good = padding_good padding_length (rec_length r) (rec_data r) good to_check;
              good = constant_time_eq 0xff (good AND 0xff);
              padding_length = good AND (padding_length + 1)
          in (sint (constant_time_select_int good 1 (- 1)),
              r\<lparr>rec_length := rec_length r - padding_length, rec_type := rec_type r OR push_bit 8 padding_length\<rparr>))"

text \<open>\<^verbatim>\<open>ssl3_cbc_copy_mac\<close>: \<open>None\<close> is a failed assertion.\<close>

definition rotate_offset_mod :: "u32 \<Rightarrow> u32 \<Rightarrow> u32 option" where
  "rotate_offset_mod md_size off =
     (if md_size = 16 then Some (off AND 15)
      else if md_size = 20 then
        let q = drop_bit 9 (off * 25);
            off = off - q * 20
        in Some (off - constant_time_select (constant_time_ge off 20) 20 0)
      else if md_size = 32 then Some (off AND 31)
      else if md_size = 48 then
        let q = drop_bit 9 (off * 10);
            off = off - q * 48
        in Some (off - constant_time_select (constant_time_ge off 48) 48 0)
      else None)"

definition scan_mac :: "byte list \<Rightarrow> u32 \<Rightarrow> u32 \<Rightarrow> u32 \<Rightarrow> u32 \<Rightarrow> u32 \<Rightarrow> byte list" where
  "scan_mac data mac_start mac_end md_size scan_start orig_len =
     fst (foldl (\<lambda>(rotated_mac, j) i.
        let mac_started = constant_time_ge_8 (of_nat i) mac_start;
            mac_ended = constant_time_ge_8 (of_nat i) mac_end;
            b = data ! i;
            rotated_mac = rotated_mac[unat j := rotated_mac ! unat j OR (b AND mac_started AND NOT mac_ended)];
            j = j + 1
        in (rotated_mac, j AND constant_time_lt j md_size))
       (replicate (unat md_size) 0, 0 :: u32) [unat scan_start..<unat orig_len])"

definition unrotate_mac :: "byte list \<Rightarrow> u32 \<Rightarrow> u32 \<Rightarrow> byte list" where
  "unrotate_mac rotated_mac rotate_offset md_size =
     fst (foldl (\<lambda>(out, off) i.
        let out = out @ [rotated_mac ! unat off];
            off = off + 1
        in (out, off AND constant_time_lt off md_size))
       ([], rotate_offset) [0..<unat md_size])"

definition ssl3_cbc_copy_mac :: "ssl3_record \<Rightarrow> u32 \<Rightarrow> u32 \<Rightarrow> byte list option" where
  "ssl3_cbc_copy_mac r md_size orig_len =
     (let mac_end = rec_length r;
          mac_start = mac_end - md_size
      in
      if \<not> md_size \<le> orig_len \<or> \<not> md_size \<le> 64 then None
      else
        let scan_start = (if md_size + 255 + 1 < orig_len then orig_len - (md_size + 255 + 1) else 0) in
        case rotate_offset_mod md_size (mac_start - scan_start) of
          None \<Rightarrow> None
        | Some rotate_offset \<Rightarrow>
            let rotated_mac = scan_mac (rec_data r) mac_start mac_end md_size scan_start orig_len
            in Some (unrotate_mac rotated_mac rotate_offset md_size))"

section \<open>Removing the padding\<close>

lemma and_mask_if: "(x :: u32) AND (if P then - 1 else 0) = (if P then x else 0)" "(if P then - 1 else 0) AND x = (if P then x else 0)"
  by simp_all

lemma low_ones: "(v :: u32) AND 0xff = 0xff \<longleftrightarrow> (\<forall>n<8. bit v n)"
proof -
  have m: "(0xff :: u32) = mask 8"
    by (simp add: mask_eq_exp_minus_1)
  have lt: "n < 32" if "n < 8" for n :: nat
    using that by simp
  show ?thesis
    unfolding m by (auto simp: bit_eq_iff bit_simps dest: lt)
qed

lemma low_ones_and_not: "((g :: u32) AND NOT x) AND 0xff = 0xff \<longleftrightarrow> g AND 0xff = 0xff \<and> (\<forall>n<8. \<not> bit x n)"
  by (auto simp: low_ones bit_simps)

lemma ucast_ucast_byte [simp]: "(ucast (ucast b :: u32) :: byte) = b"
  by (rule bit_word_eqI) (auto simp: bit_simps)

lemma padding_byte_bits:
  "(\<forall>n<8. \<not> bit (ucast (if P then - 1 else 0 :: byte) AND ((p :: u32) XOR ucast (b :: byte))) n) \<longleftrightarrow> (P \<longrightarrow> b = ucast p)"
  by (auto simp: bit_eq_iff [of b] bit_simps)

text \<open>The low byte of the accumulator stays all ones as long as every byte looked at is the padding length.\<close>

lemma padding_good_low:
  "padding_good p len data good n AND 0xff = 0xff \<longleftrightarrow>
    good AND 0xff = 0xff \<and> (\<forall>i<unat n. of_nat i \<le> p \<longrightarrow> data ! unat (len - 1 - of_nat i) = ucast p)"
proof -
  have "foldl (\<lambda>good i. good AND NOT (ucast (constant_time_ge_8 p (of_nat i)) AND (p XOR ucast (data ! unat (len - 1 - of_nat i))))) good [0..<m] AND 0xff = 0xff
      \<longleftrightarrow> good AND 0xff = 0xff \<and> (\<forall>i<m. of_nat i \<le> p \<longrightarrow> data ! unat (len - 1 - of_nat i) = ucast p)" for m
  proof (induction m)
    case (Suc m)
    let ?x = "ucast (constant_time_ge_8 p (of_nat m)) AND (p XOR ucast (data ! unat (len - 1 - of_nat m))) :: u32"
    have "(g AND NOT ?x) AND 0xff = 0xff \<longleftrightarrow> g AND 0xff = 0xff \<and> (of_nat m \<le> p \<longrightarrow> data ! unat (len - 1 - of_nat m) = ucast p)" for g
      unfolding low_ones_and_not constant_time_8_eq padding_byte_bits ..
    then show ?case
      using Suc by (auto simp: less_Suc_eq)
  qed simp
  then show ?thesis
    by (simp add: padding_good_def Let_def)
qed

text \<open>What the padding check looks at: the last \<open>min (p + 1) 255\<close> bytes.\<close>

definition padding_ok :: "byte list \<Rightarrow> nat \<Rightarrow> nat \<Rightarrow> bool" where
  "padding_ok data n mac \<longleftrightarrow>
     (let p = unat (data ! (n - 1)) in
      1 + mac + p \<le> n \<and> (\<forall>i < min (p + 1) 255. data ! (n - 1 - i) = data ! (n - 1)))"

lemma padding_check:
  assumes n: "unat len = n" "1 + unat mac \<le> n" "0 < unat mac" "unat mac \<le> 64" and p: "p = ucast (data ! (n - 1))"
    and to_check: "to_check = (if len - 1 < 255 then len - 1 else 255)"
  shows "constant_time_eq 0xff (padding_good p len data (constant_time_ge len (1 + mac + p)) to_check AND 0xff) =
    (if padding_ok data n (unat mac) then - 1 else 0)"
proof -
  let ?p = "unat (data ! (n - 1))"
  have pn: "unat p = ?p" "?p < 256"
    using unsigned_less [of "data ! (n - 1)", where 'a = nat] by (simp_all add: p unsigned_ucast_eq take_bit_nat_eq_self)
  have sum: "unat (1 + mac + p) = 1 + unat mac + ?p"
    using n(4) pn by (simp add: unat_word_ariths)
  have len1: "unat (len - 1) = n - 1"
    using n by (subst unat_sub) (auto simp: word_le_nat_alt)
  have chk: "unat to_check = min (n - 1) 255"
    using len1 by (auto simp: to_check word_less_nat_alt)
  have idx: "unat (len - 1 - of_nat i) = n - 1 - i" if "i < unat to_check" for i
    using that len1 chk by (subst unat_sub) (auto simp: word_le_nat_alt unat_of_nat)
  have le: "(of_nat i \<le> p) = (i \<le> ?p)" if "i < unat to_check" for i
    using that chk by (simp add: word_le_nat_alt pn(1) unat_of_nat)
  have up: "ucast p = data ! (n - 1)"
    by (simp add: p)
  have "padding_good p len data (constant_time_ge len (1 + mac + p)) to_check AND 0xff = 0xff \<longleftrightarrow>
      1 + unat mac + ?p \<le> n \<and> (\<forall>i<min (n - 1) 255. i \<le> ?p \<longrightarrow> data ! (n - 1 - i) = data ! (n - 1))"
  proof -
    have "constant_time_ge len (1 + mac + p) AND 0xff = 0xff \<longleftrightarrow> 1 + unat mac + ?p \<le> n"
      unfolding constant_time_ge_eq word_le_nat_alt sum n(1) by simp
    moreover have "(\<forall>i<unat to_check. of_nat i \<le> p \<longrightarrow> data ! unat (len - 1 - of_nat i) = ucast p) \<longleftrightarrow>
        (\<forall>i<min (n - 1) 255. i \<le> ?p \<longrightarrow> data ! (n - 1 - i) = data ! (n - 1))"
      unfolding up chk [symmetric] by (rule all_cong) (simp only: idx le)
    ultimately show ?thesis
      unfolding padding_good_low by (simp only:)
  qed
  also have "\<dots> \<longleftrightarrow> padding_ok data n (unat mac)"
  proof -
    have "i < min (n - 1) 255 \<and> i \<le> ?p \<longleftrightarrow> i < min (?p + 1) 255" if "1 + unat mac + ?p \<le> n" for i
      using that n(3) by linarith
    then have "1 + unat mac + ?p \<le> n \<Longrightarrow> (\<forall>i<min (n - 1) 255. i \<le> ?p \<longrightarrow> data ! (n - 1 - i) = data ! (n - 1)) \<longleftrightarrow>
        (\<forall>i<min (?p + 1) 255. data ! (n - 1 - i) = data ! (n - 1))"
      by metis
    then show ?thesis
      unfolding padding_ok_def Let_def by blast
  qed
  finally show ?thesis
    unfolding constant_time_eq_eq by (simp only: eq_commute [of "0xff"])
qed

text \<open>The record once the explicit IV is skipped.\<close>

definition skip_iv :: "bool \<Rightarrow> u32 \<Rightarrow> ssl3_record \<Rightarrow> ssl3_record" where
  "skip_iv explicit_iv block_size r =
     (if explicit_iv then
        r\<lparr>rec_data := drop (unat block_size) (rec_data r), rec_input := drop (unat block_size) (rec_input r),
          rec_length := rec_length r - block_size\<rparr>
      else r)"

lemma remove_padding:
  assumes sizes: "unat block_size \<le> 64" "0 < unat mac_size" "unat mac_size \<le> 64"
    and r': "r' = skip_iv explicit_iv block_size r" and n: "n = unat (rec_length r')"
    and enough: "1 + unat mac_size + (if explicit_iv then unat block_size else 0) \<le> unat (rec_length r)"
    and p: "p = rec_data r' ! (n - 1)"
  shows "tls1_cbc_remove_padding explicit_iv False r block_size mac_size =
    (if padding_ok (rec_data r') n (unat mac_size)
     then (1, r'\<lparr>rec_length := of_nat (n - (unat p + 1)), rec_type := rec_type r OR push_bit 8 (ucast p + 1)\<rparr>) else (- 1, r'))"
proof -
  have sum: "unat (1 + mac_size) = 1 + unat mac_size" "unat (1 + mac_size + block_size) = 1 + unat mac_size + unat block_size"
    using sizes by (simp_all add: unat_word_ariths)
  have pub: "\<not> (explicit_iv \<and> rec_length r < 1 + mac_size + block_size)" "\<not> (\<not> explicit_iv \<and> rec_length r < 1 + mac_size)"
    using enough by (simp_all only: word_less_nat_alt sum) (auto split: if_splits)
  have n': "1 + unat mac_size \<le> n"
  proof (cases explicit_iv)
    case True
    then have "unat (rec_length r - block_size) = unat (rec_length r) - unat block_size"
      using enough by (intro unat_sub) (simp add: word_le_nat_alt)
    then show ?thesis
      using True enough by (simp add: n r' skip_iv_def)
  qed (use enough in \<open>simp add: n r' skip_iv_def\<close>)
  have len1: "unat (rec_length r' - 1) = n - 1"
    using n n' by (subst unat_sub) (auto simp: word_le_nat_alt)
  let ?p = "ucast p :: u32" and ?d = "rec_data r'" and ?L = "rec_length r'"
  let ?tc = "if ?L - 1 < 255 then ?L - 1 else 255"
  let ?ok = "padding_ok ?d n (unat mac_size)"
  have chk: "constant_time_eq 0xff (padding_good ?p ?L ?d (constant_time_ge ?L (1 + mac_size + ?p)) ?tc AND 0xff) = (if ?ok then - 1 else 0)"
    by (rule padding_check [OF n [symmetric] n' sizes(2,3) _ refl]) (simp add: p)
  have t: "rec_type r' = rec_type r"
    by (simp add: r' skip_iv_def)
  have eq: "tls1_cbc_remove_padding explicit_iv False r block_size mac_size =
      (sint (constant_time_select_int (if ?ok then - 1 else 0) 1 (- 1)),
       r'\<lparr>rec_length := ?L - ((if ?ok then - 1 else 0) AND (?p + 1)),
          rec_type := rec_type r' OR push_bit 8 ((if ?ok then - 1 else 0) AND (?p + 1))\<rparr>)"
    unfolding tls1_cbc_remove_padding_def Let_def if_not_P [OF pub(1)] if_not_P [OF pub(2)] skip_iv_def [symmetric] r' [symmetric] len1
      p [symmetric] chk by simp
  have up: "unat ?p = unat p"
    using unsigned_less [of p, where 'a = nat] by (simp add: unsigned_ucast_eq take_bit_nat_eq_self)
  have "?L - (?p + 1) = of_nat (n - (unat p + 1))" if ?ok
  proof -
    have "unat p + 1 \<le> n"
      using that unfolding padding_ok_def Let_def p by linarith
    then have "of_nat (n - (unat p + 1)) = of_nat n - (of_nat (unat p) + 1 :: u32)"
      by (subst of_nat_diff) simp_all
    moreover have "of_nat n = ?L"
      by (simp add: n)
    moreover have "of_nat (unat p) = ?p"
      unfolding up [symmetric] by simp
    ultimately show ?thesis
      by (simp only:)
  qed
  then show ?thesis
    unfolding eq and_mask_if by (simp add: constant_time_select_int_if t)
qed


text \<open>The padding of RFC 5246: the last byte \<open>p\<close> and the \<open>p\<close> bytes before it all have the value \<open>p\<close>.\<close>

definition rfc_padding :: "byte list \<Rightarrow> nat \<Rightarrow> nat \<Rightarrow> bool" where
  "rfc_padding data n mac \<longleftrightarrow>
     (let p = data ! (n - 1) in 1 + mac + unat p \<le> n \<and> (\<forall>i \<le> unat p. data ! (n - 1 - i) = p))"

lemma padding_ok_rfc: "data ! (n - 1) \<noteq> 255 \<Longrightarrow> padding_ok data n mac \<longleftrightarrow> rfc_padding data n mac"
proof -
  assume "data ! (n - 1) \<noteq> 255"
  then have "unat (data ! (n - 1)) \<noteq> 255"
    using word_unat_eq_iff [of "data ! (n - 1)" 255] by simp
  then have "unat (data ! (n - 1)) < 255"
    using unsigned_less [of "data ! (n - 1)", where 'a = nat] by simp
  then have "min (unat (data ! (n - 1)) + 1) 255 = Suc (unat (data ! (n - 1)))"
    by simp
  then show ?thesis
    unfolding padding_ok_def rfc_padding_def Let_def by (simp only: less_Suc_eq_le)
qed



text \<open>
  C28. The check stops one byte short of the longest padding: with the padding length 255 the first
  byte of the padding is not looked at, and a record whose last 255 bytes are 255 is accepted whatever
  that byte is.
\<close>

theorem tls1_cbc_padding_255:
  assumes "0 < unat mac_size" "unat mac_size \<le> 64" "256 + unat mac_size \<le> unat (rec_length r)"
    and "\<forall>i<255. rec_data r ! (unat (rec_length r) - 1 - i) = 255"
  shows "fst (tls1_cbc_remove_padding False False r block_size mac_size) = 1"
proof -
  have b: "tls1_cbc_remove_padding False False r block_size mac_size = tls1_cbc_remove_padding False False r 0 mac_size"
    by (simp add: tls1_cbc_remove_padding_def)
  have "rec_data r ! (unat (rec_length r) - 1) = 255"
    using assms(4) [rule_format, of 0] by simp
  then have "padding_ok (rec_data r) (unat (rec_length r)) (unat mac_size)"
    using assms(3,4) by (simp add: padding_ok_def Let_def)
  then show ?thesis
    unfolding b using remove_padding [of 0 mac_size r False r, OF _ assms(1,2) _ refl _ refl] assms(3) by (simp add: skip_iv_def)
qed

theorem tls1_cbc_padding_255_witness:
  "fst (tls1_cbc_remove_padding False False \<lparr>rec_type = 23, rec_length = 276, rec_data = replicate 20 1 @ [0] @ replicate 255 255, rec_input = []\<rparr> 16 20) = 1"
proof -
  have "((replicate 20 1 @ [0]) @ replicate 255 (255 :: byte)) ! (275 - i) = 255" if "i < 255" for i
  proof -
    have "275 - i = length (replicate 20 1 @ [0 :: byte]) + (254 - i)" "254 - i < 255"
      using that by simp_all
    then show ?thesis
      by (simp only: nth_append_length_plus nth_replicate)
  qed
  then show ?thesis
    by (intro tls1_cbc_padding_255) (simp_all only: append_assoc, simp_all)
qed

section \<open>Extracting the MAC\<close>

lemma next_index:
  assumes "unat j < unat m" "unat m \<le> 64"
  shows "unat ((j + 1) AND constant_time_lt (j + 1) m) = Suc (unat j) mod unat m"
proof -
  have "unat (j + 1) = Suc (unat j)"
    using assms by (simp add: unat_word_ariths)
  then have "(j + 1 < m) = (Suc (unat j) < unat m)"
    by (simp add: word_less_nat_alt)
  moreover have "Suc (unat j) mod unat m = (if Suc (unat j) < unat m then Suc (unat j) else 0)"
    using assms(1) by (auto simp: mod_Suc)
  ultimately show ?thesis
    using \<open>unat (j + 1) = Suc (unat j)\<close> by (simp add: constant_time_lt_eq and_mask_if)
qed

text \<open>
  Position \<open>t\<close> of the rotated MAC belongs to the byte at \<open>mac_pos ms ro md t\<close>, where \<open>ms\<close> is the start of the
  MAC and \<open>ro\<close> the rotation.
\<close>

definition mac_pos :: "nat \<Rightarrow> nat \<Rightarrow> nat \<Rightarrow> nat \<Rightarrow> nat" where
  "mac_pos ms ro md t = ms + (t + (md - ro)) mod md"

lemma mac_pos_rotated:
  assumes "ro < md" "d < md"
  shows "mac_pos ms ro md ((ro + d) mod md) = ms + d"
proof -
  have "((ro + d) mod md + (md - ro)) mod md = (ro + d + (md - ro)) mod md"
    by (simp add: mod_simps)
  also have "ro + d + (md - ro) = d + md"
    using assms by simp
  finally show ?thesis
    using assms by (simp add: mac_pos_def)
qed

lemma mac_pos_eq:
  assumes "s \<le> ms" "0 < md" "ro = (ms - s) mod md" "t < md"
  shows "mac_pos ms ro md t = i \<longleftrightarrow> ms \<le> i \<and> i < ms + md \<and> (i - s) mod md = t"
proof
  have ro: "ro < md"
    using assms by simp
  assume i: "mac_pos ms ro md t = i"
  have "(ro + (t + (md - ro)) mod md) mod md = t"
    using ro assms(4) by (simp add: mod_simps)
  moreover have "i - s = (ms - s) + (t + (md - ro)) mod md"
    using i assms(1) by (simp add: mac_pos_def)
  ultimately have "(i - s) mod md = t"
    by (simp add: assms(3) mod_simps)
  then show "ms \<le> i \<and> i < ms + md \<and> (i - s) mod md = t"
    using i mod_less_divisor [OF assms(2), of "t + (md - ro)"] unfolding mac_pos_def by linarith
next
  assume i: "ms \<le> i \<and> i < ms + md \<and> (i - s) mod md = t"
  then obtain d where d: "i = ms + d" "d < md"
    by (metis le_add_diff_inverse nat_add_left_cancel_less)
  have "(ro + d) mod md = (i - s) mod md"
    using d assms(1) by (simp add: assms(3) mod_simps)
  then show "mac_pos ms ro md t = i"
    using mac_pos_rotated [of ro md d ms] d assms(2,3) i by simp
qed

lemma scan_mac_eq:
  assumes md: "unat md_size = md" "0 < md" "md \<le> 64" and ms: "unat mac_start = ms" "unat mac_end = ms + md"
    and s: "unat scan_start = s" "s \<le> ms" and N: "unat orig_len = N" "ms + md \<le> N" and ro: "ro = (ms - s) mod md"
  shows "scan_mac data mac_start mac_end md_size scan_start orig_len = map (\<lambda>t. data ! mac_pos ms ro md t) [0..<md]"
proof -
  let ?step = "\<lambda>(rotated_mac, j) i.
        (rotated_mac[unat j := rotated_mac ! unat j OR (data ! i AND constant_time_ge_8 (of_nat i) mac_start AND NOT (constant_time_ge_8 (of_nat i) mac_end))],
         (j + 1) AND constant_time_lt (j + 1) md_size)"
  have inv: "case foldl ?step (replicate md 0, 0 :: u32) [s..<s + k] of (rot, j) \<Rightarrow>
      length rot = md \<and> unat j = k mod md \<and>
      (\<forall>t<md. rot ! t = (if mac_pos ms ro md t < s + k then data ! mac_pos ms ro md t else 0))" if "s + k \<le> N" for k
    using that
  proof (induction k)
    case 0
    have "\<not> mac_pos ms ro md t < s" for t
      using s by (simp add: mac_pos_def)
    then show ?case
      using md by simp
  next
    case (Suc k)
    obtain rot j where f: "foldl ?step (replicate md 0, 0) [s..<s + k] = (rot, j)"
      by fastforce
    let ?i = "s + k"
    have I: "length rot = md" "unat j = k mod md" "\<And>t. t < md \<Longrightarrow> rot ! t = (if mac_pos ms ro md t < ?i then data ! mac_pos ms ro md t else 0)"
      using Suc unfolding f by auto
    have jm: "unat j < md"
      using I(2) md(2) by simp
    have bound: "?i < 2 ^ 32"
      using Suc.prems N(1) unsigned_less [of orig_len, where 'a = nat] by simp
    then have ui: "unat (of_nat ?i :: u32) = ?i"
      by (simp only: unat_of_nat take_bit_nat_eq_self len_of_numeral_defs) simp
    define v where "v = data ! ?i AND constant_time_ge_8 (of_nat ?i) mac_start AND NOT (constant_time_ge_8 (of_nat ?i) mac_end)"
    have v: "v = (if ms \<le> ?i \<and> ?i < ms + md then data ! ?i else 0)"
      unfolding v_def constant_time_8_eq word_le_nat_alt ui ms by auto
    have pos: "mac_pos ms ro md t = ?i \<longleftrightarrow> ms \<le> ?i \<and> ?i < ms + md \<and> unat j = t" if "t < md" for t
      using mac_pos_eq [OF s(2) md(2) ro that, of ?i] I(2) by simp
    have step: "foldl ?step (replicate md 0, 0) [s..<s + Suc k] = (rot[unat j := rot ! unat j OR v], (j + 1) AND constant_time_lt (j + 1) md_size)"
      using f by (simp add: v_def)
    have "rot[unat j := rot ! unat j OR v] ! t = (if mac_pos ms ro md t < s + Suc k then data ! mac_pos ms ro md t else 0)" if t: "t < md" for t
    proof (cases "mac_pos ms ro md t = ?i")
      case True
      then show ?thesis
        using pos [OF t] I(1) I(3) [OF t] jm v by simp
    next
      case False
      then have "(mac_pos ms ro md t < s + Suc k) = (mac_pos ms ro md t < ?i)"
        by (simp add: less_Suc_eq)
      moreover have "rot[unat j := rot ! unat j OR v] ! t = rot ! t"
        using pos [OF t] False I(1) v t by (cases "t = unat j") auto
      ultimately show ?thesis
        using I(3) [OF t] by simp
    qed
    moreover have "unat ((j + 1) AND constant_time_lt (j + 1) md_size) = Suc k mod md"
      using next_index [of j md_size] jm md I(2) by (simp add: mod_Suc_eq)
    ultimately show ?case
      unfolding step by (simp add: I(1))
  qed
  have le: "s \<le> N"
    using s N by simp
  obtain rot j where f: "foldl ?step (replicate md 0, 0) [s..<N] = (rot, j)"
    by fastforce
  have "length rot = md \<and> (\<forall>t<md. rot ! t = data ! mac_pos ms ro md t)"
  proof -
    have "mac_pos ms ro md t < N" for t
      using N(2) mod_less_divisor [OF md(2), of "t + (md - ro)"] unfolding mac_pos_def by linarith
    then show ?thesis
      using inv [of "N - s"] le f by simp
  qed
  then have "rot = map (\<lambda>t. data ! mac_pos ms ro md t) [0..<md]"
    by (simp add: list_eq_iff_nth_eq)
  then show ?thesis
    unfolding scan_mac_def md(1) s(1) N(1) Let_def using f by simp
qed

lemma unrotate_mac_eq:
  assumes "unat md_size = md" "unat off = ro" "ro < md" "md \<le> 64"
  shows "unrotate_mac rot off md_size = map (\<lambda>k. rot ! ((ro + k) mod md)) [0..<md]"
proof -
  let ?step = "\<lambda>(out, off) i. (out @ [rot ! unat off], (off + 1) AND constant_time_lt (off + 1) md_size)"
  have "\<exists>j. foldl ?step ([], off) [0..<k] = (map (\<lambda>k. rot ! ((ro + k) mod md)) [0..<k], j) \<and> unat j = (ro + k) mod md" for k
  proof (induction k)
    case (Suc k)
    then obtain j where j: "foldl ?step ([], off) [0..<k] = (map (\<lambda>k. rot ! ((ro + k) mod md)) [0..<k], j)" "unat j = (ro + k) mod md"
      by blast
    then have "unat ((j + 1) AND constant_time_lt (j + 1) md_size) = (ro + Suc k) mod md"
      using next_index [of j md_size] assms by (simp add: mod_Suc_eq)
    then show ?case
      using j by simp
  qed (use assms in simp)
  from this [of md] show ?thesis
    unfolding unrotate_mac_def Let_def assms(1) by auto
qed


text \<open>
  The reductions without a division: the estimated quotient is exact or one too small.
\<close>

lemma barrett_20:
  fixes x :: nat
  assumes "x \<le> 840"
  shows "x * 25 div 512 * 20 \<le> x" "x * 25 div 512 * 20 \<le> x \<Longrightarrow>
    (let r = x - x * 25 div 512 * 20 in if 20 \<le> r then r - 20 else r) = x mod 20"
proof -
  let ?q = "x * 25 div 512" and ?d = "x div 20"
  have "512 * ?q \<le> 25 * x" "25 * x < 512 * ?q + 512" "x = 20 * ?d + x mod 20" "x mod 20 < 20"
    by simp_all
  then have q: "?q = ?d \<or> ?q + 1 = ?d"
    using assms by linarith
  then show "?q * 20 \<le> x"
    using \<open>x = 20 * ?d + x mod 20\<close> by linarith
  from q have "x - ?q * 20 = x mod 20 \<or> x - ?q * 20 = x mod 20 + 20"
    using \<open>x = 20 * ?d + x mod 20\<close> by linarith
  then show "(let r = x - ?q * 20 in if 20 \<le> r then r - 20 else r) = x mod 20"
    using \<open>x mod 20 < 20\<close> by (auto simp: Let_def)
qed

lemma barrett_48:
  fixes x :: nat
  assumes "x \<le> 768"
  shows "x * 10 div 512 * 48 \<le> x" "x * 10 div 512 * 48 \<le> x \<Longrightarrow>
    (let r = x - x * 10 div 512 * 48 in if 48 \<le> r then r - 48 else r) = x mod 48"
proof -
  let ?q = "x * 10 div 512" and ?d = "x div 48"
  have "512 * ?q \<le> 10 * x" "10 * x < 512 * ?q + 512" "x = 48 * ?d + x mod 48" "x mod 48 < 48"
    by simp_all
  then have q: "?q = ?d \<or> ?q + 1 = ?d"
    using assms by linarith
  then show "?q * 48 \<le> x"
    using \<open>x = 48 * ?d + x mod 48\<close> by linarith
  from q have "x - ?q * 48 = x mod 48 \<or> x - ?q * 48 = x mod 48 + 48"
    using \<open>x = 48 * ?d + x mod 48\<close> by linarith
  then show "(let r = x - ?q * 48 in if 48 \<le> r then r - 48 else r) = x mod 48"
    using \<open>x mod 48 < 48\<close> by (auto simp: Let_def)
qed

lemma barrett_step:
  fixes off m k :: u32
  assumes "unat off * unat m < 2 ^ 32" "unat off * unat m div 512 * unat k \<le> unat off" "unat k \<le> 64"
  shows "unat (off - drop_bit 9 (off * m) * k - constant_time_select (constant_time_ge (off - drop_bit 9 (off * m) * k) k) k 0) =
    (let r = unat off - unat off * unat m div 512 * unat k in if unat k \<le> r then r - unat k else r)"
proof -
  let ?qk = "drop_bit 9 (off * m) * k"
  have lt: "unat off * unat m div 512 * unat k < 2 ^ 32"
    using assms(2) unsigned_less [of off, where 'a = nat] by simp
  have q: "unat ?qk = unat off * unat m div 512 * unat k"
    using assms(1) lt by (simp add: unat_word_ariths unat_drop_bit)
  then have r: "unat (off - ?qk) = unat off - unat off * unat m div 512 * unat k"
    using assms(2) by (subst unat_sub) (simp_all add: word_le_nat_alt)
  have "constant_time_select (constant_time_ge (off - ?qk) k) k 0 = (if unat k \<le> unat (off - ?qk) then k else 0)"
    unfolding constant_time_ge_eq constant_time_select_if word_le_nat_alt ..
  then show ?thesis
    unfolding Let_def r [symmetric] by (simp add: unat_sub word_le_nat_alt)
qed

lemma rotate_offset_mod_eq:
  assumes "unat md_size \<in> {16, 20, 32, 48}" "unat off \<le> 256"
  shows "\<exists>o'. rotate_offset_mod md_size off = Some o' \<and> unat o' = unat off mod unat md_size"
proof -
  consider "md_size = 16" | "md_size = 20" | "md_size = 32" | "md_size = 48"
    using assms(1) by (auto simp: word_unat_eq_iff)
  then show ?thesis
  proof cases
    case 1
    have "off AND 15 = take_bit 4 off"
      by (simp add: take_bit_eq_mask mask_eq_exp_minus_1)
    then have "unat (off AND 15) = take_bit 4 (unat off)"
      by (simp only: unsigned_take_bit_eq)
    then have "unat (off AND 15) = unat off mod 16"
      by (simp add: take_bit_eq_mod)
    then show ?thesis
      by (simp add: 1 rotate_offset_mod_def)
  next
    case 2
    show ?thesis
      using barrett_step [of off 25 20] barrett_20 [of "unat off"] assms(2) by (simp add: 2 rotate_offset_mod_def Let_def split: if_splits)
  next
    case 3
    have "off AND 31 = take_bit 5 off"
      by (simp add: take_bit_eq_mask mask_eq_exp_minus_1)
    then have "unat (off AND 31) = take_bit 5 (unat off)"
      by (simp only: unsigned_take_bit_eq)
    then have "unat (off AND 31) = unat off mod 32"
      by (simp add: take_bit_eq_mod)
    then show ?thesis
      by (simp add: 3 rotate_offset_mod_def)
  next
    case 4
    show ?thesis
      using barrett_step [of off 10 48] barrett_48 [of "unat off"] assms(2) by (simp add: 4 rotate_offset_mod_def Let_def split: if_splits)
  qed
qed

text \<open>
  C26. Given a record of which \<open>orig_len\<close> bytes are public and at most 256 were removed as padding,
  \<^verbatim>\<open>ssl3_cbc_copy_mac\<close> returns, for each MAC size of TLS, exactly the \<open>md_size\<close> bytes before the secret end
  of the record: the masked scan into a rotated buffer and the Barrett reduction of the rotation
  compute a plain slice.
\<close>

theorem ssl3_cbc_copy_mac_correct:
  assumes md: "unat md_size \<in> {16, 20, 32, 48}" and len: "unat md_size \<le> unat (rec_length r)" "rec_length r \<le> orig_len"
    "unat orig_len \<le> unat (rec_length r) + 256" "unat orig_len < 2 ^ 31" "unat orig_len \<le> length (rec_data r)"
  shows "ssl3_cbc_copy_mac r md_size orig_len = Some (take (unat md_size) (drop (unat (rec_length r) - unat md_size) (rec_data r)))"
proof -
  let ?md = "unat md_size" and ?N = "unat orig_len" and ?e = "unat (rec_length r)"
  define ss where "ss = (if md_size + 255 + 1 < orig_len then orig_len - (md_size + 255 + 1) else 0)"
  define ms where "ms = ?e - ?md"
  have md64: "0 < ?md" "?md \<le> 64"
    using md by auto
  have e: "?e \<le> ?N"
    using len(2) by (simp add: word_le_nat_alt)
  have sum: "unat (md_size + 255 + 1) = ?md + 256"
    using md64 by (simp add: unat_word_ariths)
  have ss: "unat ss = (if ?md + 256 < ?N then ?N - (?md + 256) else 0)"
    unfolding ss_def word_less_nat_alt sum using sum by (simp add: unat_sub word_le_nat_alt)
  have start: "unat (rec_length r - md_size) = ms"
    using len(1) by (simp add: ms_def unat_sub word_le_nat_alt)
  have s: "unat ss \<le> ms" "ms - unat ss \<le> 256"
    unfolding ss ms_def using len(1,3) e by auto
  have off: "unat (rec_length r - md_size - ss) = ms - unat ss"
    using s(1) start by (subst unat_sub) (simp_all add: word_le_nat_alt)
  obtain ro where ro: "rotate_offset_mod md_size (rec_length r - md_size - ss) = Some ro" "unat ro = (ms - unat ss) mod ?md"
    using rotate_offset_mod_eq [OF md, of "rec_length r - md_size - ss"] s(2) off by auto
  have e': "?e = ms + ?md"
    using len(1) by (simp add: ms_def)
  have lt: "unat ro < ?md"
    using ro(2) md64(1) by simp
  have pre: "(\<not> md_size \<le> orig_len \<or> \<not> md_size \<le> 64) = False"
    using len(1) e md64(2) by (simp add: word_le_nat_alt)
  have "ssl3_cbc_copy_mac r md_size orig_len = Some (unrotate_mac (scan_mac (rec_data r) (rec_length r - md_size) (rec_length r) md_size ss orig_len) ro md_size)"
    unfolding ssl3_cbc_copy_mac_def Let_def ss_def [symmetric] pre ro(1) by simp
  also have "scan_mac (rec_data r) (rec_length r - md_size) (rec_length r) md_size ss orig_len = map (\<lambda>t. rec_data r ! mac_pos ms (unat ro) ?md t) [0..<?md]"
    using e e' by (intro scan_mac_eq [OF refl md64 start e' refl s(1) refl _ ro(2)]) simp
  also have "unrotate_mac \<dots> ro md_size = map (\<lambda>k. rec_data r ! (ms + k)) [0..<?md]"
    unfolding unrotate_mac_eq [OF refl refl lt md64(2)]
    using md64(1) lt by (intro map_cong refl) (simp add: mac_pos_rotated)
  also have "\<dots> = take ?md (drop ms (rec_data r))"
    using e' e len(5) by (simp add: list_eq_iff_nth_eq)
  finally show ?thesis
    by (simp add: ms_def)
qed

theorem ssl3_cbc_copy_mac_correct_witness:
  "ssl3_cbc_copy_mac \<lparr>rec_type = 23, rec_length = 24, rec_data = [1, 2, 3, 4] @ replicate 20 7 @ replicate 8 9, rec_input = []\<rparr> 20 32 = Some (replicate 20 7)"
  using ssl3_cbc_copy_mac_correct [of 20 "\<lparr>rec_type = 23, rec_length = 24, rec_data = [1, 2, 3, 4] @ replicate 20 7 @ replicate 8 9, rec_input = []\<rparr>" 32]
  by simp

end
