(* ===== verification/Cbc_Digest.thy ===== *)
theory Cbc_Digest
  imports Cbc_Record Hmac
begin

unbundle bit_operations_syntax

text \<open>
  The MAC of a decrypted CBC record in constant time, the second half of \<^verbatim>\<open>ssl/s3_cbc.c\<close>. The inner hash
  of the HMAC runs over all blocks that may belong to the record, whatever the secret length; each
  block is built byte by byte with masks, and the state after the true last block is copied out.
\<close>

section \<open>Definitions\<close>

definition u32toLE :: "u32 \<Rightarrow> byte list" where
  "u32toLE n = [ucast n, ucast (drop_bit 8 n), ucast (drop_bit 16 n), ucast (drop_bit 24 n)]"

definition l2n :: "u32 \<Rightarrow> byte list" where
  "l2n l = [ucast (drop_bit 24 l AND 0xff), ucast (drop_bit 16 l AND 0xff), ucast (drop_bit 8 l AND 0xff), ucast (l AND 0xff)]"

definition l2n8 :: "u64 \<Rightarrow> byte list" where
  "l2n8 l =
     [ucast (drop_bit 56 l AND 0xff), ucast (drop_bit 48 l AND 0xff), ucast (drop_bit 40 l AND 0xff), ucast (drop_bit 32 l AND 0xff),
      ucast (drop_bit 24 l AND 0xff), ucast (drop_bit 16 l AND 0xff), ucast (drop_bit 8 l AND 0xff), ucast (l AND 0xff)]"

text \<open>
  The functions that \<^verbatim>\<open>md_transform\<close> and \<^verbatim>\<open>md_final_raw\<close> point to; the context is the one that the matching
  \<^verbatim>\<open>_Init\<close> function has set up.
\<close>

fun md5_transform :: "md_state \<Rightarrow> byte list \<Rightarrow> md_state" where
  "md5_transform (St_md5 c) data = St_md5 (MD5_Transform c data)"
| "md5_transform s data = s"

fun sha1_transform :: "md_state \<Rightarrow> byte list \<Rightarrow> md_state" where
  "sha1_transform (St_sha1 c) data = St_sha1 (SHA1_Transform c data)"
| "sha1_transform s data = s"

fun sha256_transform :: "md_state \<Rightarrow> byte list \<Rightarrow> md_state" where
  "sha256_transform (St_sha256 c) data = St_sha256 (SHA256_Transform c data)"
| "sha256_transform s data = s"

fun sha512_transform :: "md_state \<Rightarrow> byte list \<Rightarrow> md_state" where
  "sha512_transform (St_sha512 c) data = St_sha512 (SHA512_Transform c 0 data)"
| "sha512_transform s data = s"

fun tls1_md5_final_raw :: "md_state \<Rightarrow> byte list" where
  "tls1_md5_final_raw (St_md5 c) = (case hc_h c of (A, B, C, D) \<Rightarrow> u32toLE A @ u32toLE B @ u32toLE C @ u32toLE D)"
| "tls1_md5_final_raw s = []"

fun tls1_sha1_final_raw :: "md_state \<Rightarrow> byte list" where
  "tls1_sha1_final_raw (St_sha1 c) = (case hc_h c of (h0, h1, h2, h3, h4) \<Rightarrow> l2n h0 @ l2n h1 @ l2n h2 @ l2n h3 @ l2n h4)"
| "tls1_sha1_final_raw s = []"

fun tls1_sha256_final_raw :: "md_state \<Rightarrow> byte list" where
  "tls1_sha256_final_raw (St_sha256 c) = concat (map l2n (take 8 (hc_h c)))"
| "tls1_sha256_final_raw s = []"

fun tls1_sha512_final_raw :: "md_state \<Rightarrow> byte list" where
  "tls1_sha512_final_raw (St_sha512 c) = concat (map l2n8 (take 8 (s5_h c)))"
| "tls1_sha512_final_raw s = []"

record cbc_md =
  cm_init :: md_state
  cm_transform :: "md_state \<Rightarrow> byte list \<Rightarrow> md_state"
  cm_final_raw :: "md_state \<Rightarrow> byte list"
  cm_size :: u32
  cm_block_size :: u32
  cm_length_size :: u32
  cm_big_endian :: bool

text \<open>The switch on the type of the digest; \<open>mem\<close> is what the stack held in place of the block buffer.\<close>

definition cbc_md_of :: "byte list \<Rightarrow> nat \<Rightarrow> cbc_md option" where
  "cbc_md_of mem nid =
     (if nid = 4 then
        Some \<lparr>cm_init = St_md5 MD5_Init, cm_transform = md5_transform, cm_final_raw = tls1_md5_final_raw,
          cm_size = 16, cm_block_size = 64, cm_length_size = 8, cm_big_endian = False\<rparr>
      else if nid = 64 then
        Some \<lparr>cm_init = St_sha1 SHA1_Init, cm_transform = sha1_transform, cm_final_raw = tls1_sha1_final_raw,
          cm_size = 20, cm_block_size = 64, cm_length_size = 8, cm_big_endian = True\<rparr>
      else if nid = 675 then
        Some \<lparr>cm_init = St_sha256 SHA224_Init, cm_transform = sha256_transform, cm_final_raw = tls1_sha256_final_raw,
          cm_size = 224 div 8, cm_block_size = 64, cm_length_size = 8, cm_big_endian = True\<rparr>
      else if nid = 672 then
        Some \<lparr>cm_init = St_sha256 SHA256_Init, cm_transform = sha256_transform, cm_final_raw = tls1_sha256_final_raw,
          cm_size = 32, cm_block_size = 64, cm_length_size = 8, cm_big_endian = True\<rparr>
      else if nid = 673 then
        Some \<lparr>cm_init = St_sha512 (SHA384_Init mem), cm_transform = sha512_transform, cm_final_raw = tls1_sha512_final_raw,
          cm_size = 384 div 8, cm_block_size = 128, cm_length_size = 16, cm_big_endian = True\<rparr>
      else if nid = 674 then
        Some \<lparr>cm_init = St_sha512 (SHA512_Init mem), cm_transform = sha512_transform, cm_final_raw = tls1_sha512_final_raw,
          cm_size = 64, cm_block_size = 128, cm_length_size = 16, cm_big_endian = True\<rparr>
      else None)"

definition ssl3_cbc_record_digest_supported :: "nat \<Rightarrow> bool" where
  "ssl3_cbc_record_digest_supported nid \<longleftrightarrow> nid = 4 \<or> nid = 64 \<or> nid = 675 \<or> nid = 672 \<or> nid = 673 \<or> nid = 674"

definition cbc_length_bytes :: "bool \<Rightarrow> nat \<Rightarrow> u32 \<Rightarrow> byte list" where
  "cbc_length_bytes big L bits =
     (if big then
        replicate (L - 4) 0 @ [ucast (drop_bit 24 bits), ucast (drop_bit 16 bits), ucast (drop_bit 8 bits), ucast bits]
      else
        (replicate L 0)[L - 5 := ucast (drop_bit 24 bits), L - 6 := ucast (drop_bit 16 bits), L - 7 := ucast (drop_bit 8 bits),
          L - 8 := ucast bits])"

text \<open>A byte of the conceptual string of header, data and zeros.\<close>

definition cbc_input_byte :: "byte list \<Rightarrow> byte list \<Rightarrow> nat \<Rightarrow> nat \<Rightarrow> byte" where
  "cbc_input_byte header data n k = (if k < 13 then header ! k else if k < n + 13 then data ! (k - 13) else 0)"

definition cbc_block_byte :: "nat \<Rightarrow> nat \<Rightarrow> u32 \<Rightarrow> byte \<Rightarrow> byte \<Rightarrow> byte list \<Rightarrow> byte \<Rightarrow> nat \<Rightarrow> byte" where
  "cbc_block_byte B L c is_block_a is_block_b length_bytes b j =
     (let is_past_c = is_block_a AND constant_time_ge_8 (of_nat j) c;
          is_past_cp1 = is_block_a AND constant_time_ge_8 (of_nat j) (c + 1);
          b = constant_time_select_8 is_past_c 0x80 b;
          b = b AND NOT is_past_cp1;
          b = b AND (NOT is_block_b OR is_block_a)
      in if B - L \<le> j then constant_time_select_8 is_block_b (length_bytes ! (j - (B - L))) b else b)"

text \<open>One round of the loop over the last blocks; \<open>k\<close> is the offset of the block in header and data.\<close>

definition cbc_last_block ::
  "cbc_md \<Rightarrow> byte list \<Rightarrow> byte list \<Rightarrow> nat \<Rightarrow> u32 \<Rightarrow> u32 \<Rightarrow> u32 \<Rightarrow> byte list \<Rightarrow> md_state \<times> byte list \<times> nat \<Rightarrow> nat \<Rightarrow> md_state \<times> byte list \<times> nat" where
  "cbc_last_block M header data n c index_a index_b length_bytes st i =
     (case st of (s, mac_out, k) \<Rightarrow>
       let B = unat (cm_block_size M);
           is_block_a = constant_time_eq_8 (of_nat i) index_a;
           is_block_b = constant_time_eq_8 (of_nat i) index_b;
           block = map (\<lambda>j. cbc_block_byte B (unat (cm_length_size M)) c is_block_a is_block_b length_bytes
                       (cbc_input_byte header data n (k + j)) j) [0..<B];
           s = cm_transform M s block;
           raw = cm_final_raw M s
       in (s, map (\<lambda>j. mac_out ! j OR (raw ! j AND is_block_b)) [0..<unat (cm_size M)], k + B))"

text \<open>
  \<^verbatim>\<open>ssl3_cbc_digest_record\<close>: \<open>None\<close> is a failed assertion or a null dereference, else the digest written to
  \<^verbatim>\<open>md_out\<close> and its size.
\<close>

definition ssl3_cbc_digest_record ::
  "bool \<Rightarrow> byte list \<Rightarrow> md_state evp_md \<Rightarrow> byte list \<Rightarrow> byte list \<Rightarrow> size_t \<Rightarrow> size_t \<Rightarrow> byte list \<Rightarrow> u32 \<Rightarrow> (byte list option \<times> nat) option" where
  "ssl3_cbc_digest_record ok mem digest header data data_plus_mac_size data_plus_mac_plus_padding_size mac_secret mac_secret_length =
     (if \<not> data_plus_mac_plus_padding_size < 1024 * 1024 then None
      else
        case cbc_md_of mem (EVP_MD_type digest) of
          None \<Rightarrow> None
        | Some M \<Rightarrow>
            let B = cm_block_size M;
                len = ucast (data_plus_mac_plus_padding_size + 13) :: u32;
                max_mac_bytes = len - cm_size M - 1;
                num_blocks = (max_mac_bytes + 1 + cm_length_size M + B - 1) div B;
                mac_end_offset = ucast (data_plus_mac_size + 13 - ucast (cm_size M)) :: u32;
                c = mac_end_offset mod B;
                index_a = mac_end_offset div B;
                index_b = (mac_end_offset + cm_length_size M) div B;
                num_starting_blocks = (if 6 < num_blocks then num_blocks - 6 else 0);
                k = (if 6 < num_blocks then B * num_starting_blocks else 0);
                bits = 8 * mac_end_offset + 8 * B
            in
            if \<not> mac_secret_length \<le> 128 then None
            else
              let hmac_pad = map (\<lambda>x. x XOR 0x36) (take (unat B) (put_at 0 (take (unat mac_secret_length) mac_secret) (replicate (unat B) 0)));
                  s = cm_transform M (cm_init M) hmac_pad;
                  length_bytes = cbc_length_bytes (cm_big_endian M) (unat (cm_length_size M)) bits;
                  s = (if 0 < k then
                         foldl (\<lambda>s i. cm_transform M s (take (unat B) (drop (unat B * i - 13) data)))
                           (cm_transform M s (take 13 header @ take (unat B - 13) data)) [1..<unat k div unat B]
                       else s);
                  (s, mac_out, k) =
                    foldl (cbc_last_block M header data (unat data_plus_mac_plus_padding_size) c index_a index_b length_bytes)
                      (s, replicate 64 0, unat k) [unat num_starting_blocks..<unat num_starting_blocks + 6 + 1];
                  hmac_pad = map (\<lambda>x. x XOR 0x6a) hmac_pad
              in
              case EVP_DigestInit_ex ok mem EVP_MD_CTX_init (Some digest) of
                None \<Rightarrow> None
              | Some (_, ctx) \<Rightarrow>
                  (case EVP_DigestUpdate ctx hmac_pad of
                     None \<Rightarrow> None
                   | Some (_, ctx) \<Rightarrow>
                       (case EVP_DigestUpdate ctx (take (unat (cm_size M)) mac_out) of
                          None \<Rightarrow> None
                        | Some (_, ctx) \<Rightarrow> map_option (\<lambda>(md, n, ctx). (md, n)) (EVP_DigestFinal ctx))))"

section \<open>The raw block functions compute the digests\<close>

lemma md5_transform_blocks:
  "block_data_order 64 md5_transform (St_md5 c) data n = St_md5 (c\<lparr>hc_h := block_data_order 64 md5_block (hc_h c) data n\<rparr>)"
  by (induction n arbitrary: c data) (simp_all add: MD5_Transform_def HASH_TRANSFORM_def)

lemma sha1_transform_blocks:
  "block_data_order 64 sha1_transform (St_sha1 c) data n = St_sha1 (c\<lparr>hc_h := block_data_order 64 sha1_block (hc_h c) data n\<rparr>)"
  by (induction n arbitrary: c data) (simp_all add: SHA1_Transform_def HASH_TRANSFORM_def)

lemma sha256_transform_blocks:
  "block_data_order 64 sha256_transform (St_sha256 c) data n = St_sha256 (c\<lparr>hc_h := block_data_order 64 sha256_block (hc_h c) data n\<rparr>)"
  by (induction n arbitrary: c data) (simp_all add: SHA256_Transform_def HASH_TRANSFORM_def)

lemma sha512_transform_blocks:
  "block_data_order 128 sha512_transform (St_sha512 c) data n = St_sha512 (c\<lparr>s5_h := block_data_order 128 sha512_block (s5_h c) data n\<rparr>)"
  by (induction n arbitrary: c data) (simp_all add: SHA512_Transform_def sha512_block_data_order_def)

lemma ucast_and_ff: "(ucast ((x :: 'a :: len word) AND 0xff) :: byte) = ucast x" if "8 \<le> LENGTH('a)"
proof -
  have "(0xff :: 'a word) = mask 8"
    by (simp add: mask_eq_exp_minus_1)
  then show ?thesis
    using that unfolding \<open>0xff = mask 8\<close> by (intro bit_word_eqI) (auto simp: bit_simps)
qed

lemma u32toLE_eq: "u32toLE n = rev (be_bytes 4 (unat n))"
  unfolding HOST_l2c_le_eq [symmetric] by (simp add: u32toLE_def HOST_l2c_le_def ucast_and_ff)

lemma l2n_eq: "l2n n = be_bytes 4 (unat n)"
  unfolding HOST_l2c_be_eq [symmetric] by (simp add: l2n_def HOST_l2c_be_def)

lemma l2n8_eq: "l2n8 n = be_bytes 8 (unat n)"
  unfolding u64_to_bytes_eq [symmetric] by (simp add: l2n8_def u64_to_bytes_def ucast_and_ff)

lemma bits_bytes:
  assumes "v < 2 ^ 32"
  shows "[ucast (drop_bit 24 (of_nat v :: u32)), ucast (drop_bit 16 (of_nat v :: u32)), ucast (drop_bit 8 (of_nat v :: u32)), ucast (of_nat v :: u32)] = be_bytes 4 v"
proof -
  have "unat (of_nat v :: u32) = v"
    using assms by (simp add: unat_of_nat take_bit_nat_eq_self)
  then show ?thesis
    using HOST_l2c_be_eq [of "of_nat v"] by (simp add: HOST_l2c_be_def ucast_and_ff)
qed

lemma be_bytes_small: "v < 256 ^ n \<Longrightarrow> be_bytes (m + n) v = replicate m 0 @ be_bytes n v"
proof -
  assume v: "v < 256 ^ n"
  have "be_bytes m 0 = replicate m 0"
    by (induction m) (simp_all add: replicate_append_same)
  then show ?thesis
    using v by (simp add: be_bytes_add)
qed

lemma cbc_length_bytes_eq:
  assumes "8 * n < 2 ^ 32"
  shows "cbc_length_bytes True 8 (of_nat (8 * n)) = md32_len True n"
    "cbc_length_bytes True 16 (of_nat (8 * n)) = be_bytes 16 (8 * n)"
    "cbc_length_bytes False 8 (of_nat (8 * n)) = md32_len False n"
proof -
  let ?b = "of_nat (8 * n) :: u32"
  have b4: "[ucast (drop_bit 24 ?b), ucast (drop_bit 16 ?b), ucast (drop_bit 8 ?b), ucast ?b] = be_bytes 4 (8 * n)"
    by (rule bits_bytes [OF assms])
  have 8: "be_bytes 8 (8 * n) = replicate 4 0 @ be_bytes 4 (8 * n)" and 16: "be_bytes 16 (8 * n) = replicate 12 0 @ be_bytes 4 (8 * n)"
    using be_bytes_small [of "8 * n" 4 4] be_bytes_small [of "8 * n" 4 12] assms by simp_all
  show "cbc_length_bytes True 8 ?b = md32_len True n"
    unfolding cbc_length_bytes_def md32_len_def 8 b4 by simp
  show "cbc_length_bytes True 16 ?b = be_bytes 16 (8 * n)"
    unfolding cbc_length_bytes_def 16 b4 by simp
  have r: "replicate 8 (0 :: byte) = [0, 0, 0, 0, 0, 0, 0, 0]" "replicate 4 (0 :: byte) = [0, 0, 0, 0]"
    by (simp_all add: numeral_eq_Suc)
  show "cbc_length_bytes False 8 ?b = md32_len False n"
    unfolding cbc_length_bytes_def md32_len_def 8 b4 [symmetric] r by simp
qed

section \<open>The interface of the raw functions\<close>

text \<open>
  What the constant-time loop needs of a digest: its value is the head of the state after the blocks of
  the padded message.
\<close>

locale cbc_hash = evp_digest md dg for md :: "md_state evp_md" and dg +
  fixes M :: cbc_md
  assumes raw_digest: "8 * length msg < 2 ^ 32 \<Longrightarrow> m = md_pad (md_block_size md) (cbc_length_bytes (cm_big_endian M) (unat (cm_length_size M)) (of_nat (8 * length msg))) msg \<Longrightarrow>
      dg msg = take (md_size md) (cm_final_raw M (block_data_order (md_block_size md) (cm_transform M) (cm_init M) m (length m div md_block_size md)))"
    and raw_sizes: "unat (cm_size M) = md_size md" "unat (cm_block_size M) = md_block_size md"
      "md_block_size md = 64 \<and> unat (cm_length_size M) = 8 \<or> md_block_size md = 128 \<and> unat (cm_length_size M) = 16"

lemma cbc_hash_md5:
  assumes "cbc_md_of mem (md_type EVP_md5) = Some M"
  shows "cbc_hash EVP_md5 rfc_md5 M"
proof unfold_locales
  fix msg m :: "byte list"
  assume "8 * length msg < 2 ^ 32"
    and "m = md_pad (md_block_size EVP_md5) (cbc_length_bytes (cm_big_endian M) (unat (cm_length_size M)) (of_nat (8 * length msg))) msg"
  then have "m = md_pad 64 (md32_len False (length msg)) msg"
    using assms cbc_length_bytes_eq(3) by (auto simp: cbc_md_of_def EVP_md5_def)
  then have "md32_hash False rfc_md5_block (hc_h MD5_Init) msg = block_data_order 64 md5_block (hc_h MD5_Init) m (length m div 64)"
    using md32_hash_cong [OF md5_block_rfc, where be = False and ?h0.0 = "hc_h MD5_Init" and msg = msg] by (simp add: md32_hash_eq Let_def)
  then show "rfc_md5 msg = take (md_size EVP_md5) (cm_final_raw M (block_data_order (md_block_size EVP_md5) (cm_transform M) (cm_init M) m (length m div md_block_size EVP_md5)))"
    using assms by (auto simp: cbc_md_of_def EVP_md5_def md5_transform_blocks rfc_md5_eq u32toLE_eq split: prod.split)
qed (use assms in \<open>auto simp: cbc_md_of_def EVP_md5_def\<close>)

lemma cbc_hash_sha1:
  assumes "cbc_md_of mem (md_type EVP_sha1) = Some M"
  shows "cbc_hash EVP_sha1 fips_sha1 M"
proof unfold_locales
  fix msg m :: "byte list"
  assume "8 * length msg < 2 ^ 32"
    and "m = md_pad (md_block_size EVP_sha1) (cbc_length_bytes (cm_big_endian M) (unat (cm_length_size M)) (of_nat (8 * length msg))) msg"
  then have "m = md_pad 64 (md32_len True (length msg)) msg"
    using assms cbc_length_bytes_eq(1) by (auto simp: cbc_md_of_def EVP_sha1_def)
  then have "md32_hash True fips_sha1_block (hc_h SHA1_Init) msg = block_data_order 64 sha1_block (hc_h SHA1_Init) m (length m div 64)"
    using md32_hash_cong [OF sha1_block_fips, where be = True and ?h0.0 = "hc_h SHA1_Init" and msg = msg] by (simp add: md32_hash_eq Let_def)
  then show "fips_sha1 msg = take (md_size EVP_sha1) (cm_final_raw M (block_data_order (md_block_size EVP_sha1) (cm_transform M) (cm_init M) m (length m div md_block_size EVP_sha1)))"
    using assms by (auto simp: cbc_md_of_def EVP_sha1_def sha1_transform_blocks fips_sha1_eq l2n_eq split: prod.split)
qed (use assms in \<open>auto simp: cbc_md_of_def EVP_sha1_def\<close>)

lemma take_concat_words:
  "\<forall>w. length (f w) = k \<Longrightarrow> take (n * k) (concat (map f ws)) = concat (map f (take n ws))"
proof (induction n arbitrary: ws)
  case (Suc n)
  then show ?case
    by (cases ws) simp_all
qed simp

lemma sha2_32_raw: "take (n * 4) (concat (map l2n ws)) = concat (map (\<lambda>w. be_bytes 4 (unat w)) (take n ws))"
  using take_concat_words [of "\<lambda>w. be_bytes 4 (unat (w :: u32))" 4 n ws] by (simp add: l2n_eq [abs_def])

lemma cbc_hash_sha2_32:
  assumes m: "m = md_pad 64 (md32_len True (length msg)) msg" and n: "n \<le> 8"
  shows "fips_sha2_32 (hc_h c) n msg = take (n * 4) (tls1_sha256_final_raw (block_data_order 64 sha256_transform (St_sha256 c) m (length m div 64)))"
proof -
  let ?h = "block_data_order 64 sha256_block (hc_h c) m (length m div 64)"
  have h: "md32_hash True fips_sha256_block (hc_h c) msg = ?h"
    using md32_hash_cong [OF sha256_block_fips, where be = True and ?h0.0 = "hc_h c" and msg = msg] m by (simp add: md32_hash_eq Let_def)
  have "length (md32_hash True fips_sha256_block (hc_h c) msg) = 8"
    using md32_hash_nonempty [of True fips_sha256_block "hc_h c" msg] by auto
  then show ?thesis
    using n unfolding h fips_sha2_32_def by (simp add: sha256_transform_blocks sha2_32_raw)
qed

lemma cbc_hash_sha256:
  assumes "cbc_md_of mem (md_type EVP_sha256) = Some M"
  shows "cbc_hash EVP_sha256 fips_sha256 M"
proof unfold_locales
  fix msg m :: "byte list"
  assume "8 * length msg < 2 ^ 32"
    and "m = md_pad (md_block_size EVP_sha256) (cbc_length_bytes (cm_big_endian M) (unat (cm_length_size M)) (of_nat (8 * length msg))) msg"
  then have "m = md_pad 64 (md32_len True (length msg)) msg"
    using assms cbc_length_bytes_eq(1) by (auto simp: cbc_md_of_def EVP_sha256_def)
  from cbc_hash_sha2_32 [OF this, of 8 SHA256_Init]
  show "fips_sha256 msg = take (md_size EVP_sha256) (cm_final_raw M (block_data_order (md_block_size EVP_sha256) (cm_transform M) (cm_init M) m (length m div md_block_size EVP_sha256)))"
    using assms by (auto simp: cbc_md_of_def EVP_sha256_def fips_sha256_eq)
qed (use assms in \<open>auto simp: cbc_md_of_def EVP_sha256_def\<close>)

lemma cbc_hash_sha224:
  assumes "cbc_md_of mem (md_type EVP_sha224) = Some M"
  shows "cbc_hash EVP_sha224 fips_sha224 M"
proof unfold_locales
  fix msg m :: "byte list"
  assume "8 * length msg < 2 ^ 32"
    and "m = md_pad (md_block_size EVP_sha224) (cbc_length_bytes (cm_big_endian M) (unat (cm_length_size M)) (of_nat (8 * length msg))) msg"
  then have "m = md_pad 64 (md32_len True (length msg)) msg"
    using assms cbc_length_bytes_eq(1) by (auto simp: cbc_md_of_def EVP_sha224_def)
  from cbc_hash_sha2_32 [OF this, of 7 SHA224_Init]
  show "fips_sha224 msg = take (md_size EVP_sha224) (cm_final_raw M (block_data_order (md_block_size EVP_sha224) (cm_transform M) (cm_init M) m (length m div md_block_size EVP_sha224)))"
    using assms by (auto simp: cbc_md_of_def EVP_sha224_def fips_sha224_eq)
qed (use assms in \<open>auto simp: cbc_md_of_def EVP_sha224_def\<close>)

lemma cbc_hash_sha2_64:
  assumes m: "m = md_pad 128 (be_bytes 16 (8 * length msg)) msg" and n: "n \<le> 8"
  shows "fips_sha2_64 (s5_h c) n msg = take (n * 8) (tls1_sha512_final_raw (block_data_order 128 sha512_transform (St_sha512 c) m (length m div 128)))"
proof -
  let ?h = "block_data_order 128 sha512_block (s5_h c) m (length m div 128)"
  have h: "block_data_order 128 fips_sha512_block (s5_h c) m (length m div 128) = ?h"
    by (rule block_data_order_cong) (simp_all add: sha512_block_fips)
  have "length (fips_sha2_64 (s5_h c) 8 msg) = 64"
    by (simp add: fips_sha2_64_length)
  then have "length ?h \<ge> 8"
    unfolding fips_sha2_64_eq Let_def m [symmetric] h by (simp add: length_concat comp_def sum_list_triv)
  then show ?thesis
    using n take_concat_words [of "\<lambda>w. be_bytes 8 (unat (w :: u64))" 8 n "take 8 ?h"] unfolding fips_sha2_64_eq Let_def m [symmetric] h
    by (simp add: sha512_transform_blocks l2n8_eq [abs_def])
qed

lemma cbc_hash_sha384:
  assumes "cbc_md_of mem (md_type EVP_sha384) = Some M"
  shows "cbc_hash EVP_sha384 fips_sha384 M"
proof unfold_locales
  fix msg m :: "byte list"
  assume "8 * length msg < 2 ^ 32"
    and "m = md_pad (md_block_size EVP_sha384) (cbc_length_bytes (cm_big_endian M) (unat (cm_length_size M)) (of_nat (8 * length msg))) msg"
  then have "m = md_pad 128 (be_bytes 16 (8 * length msg)) msg"
    using assms cbc_length_bytes_eq(2) by (auto simp: cbc_md_of_def EVP_sha384_def)
  from cbc_hash_sha2_64 [OF this, of 6 "SHA384_Init mem"]
  show "fips_sha384 msg = take (md_size EVP_sha384) (cm_final_raw M (block_data_order (md_block_size EVP_sha384) (cm_transform M) (cm_init M) m (length m div md_block_size EVP_sha384)))"
    using assms by (auto simp: cbc_md_of_def EVP_sha384_def fips_sha384_eq SHA384_Init_def)
qed (use assms in \<open>auto simp: cbc_md_of_def EVP_sha384_def\<close>)

lemma cbc_hash_sha512:
  assumes "cbc_md_of mem (md_type EVP_sha512) = Some M"
  shows "cbc_hash EVP_sha512 fips_sha512 M"
proof unfold_locales
  fix msg m :: "byte list"
  assume "8 * length msg < 2 ^ 32"
    and "m = md_pad (md_block_size EVP_sha512) (cbc_length_bytes (cm_big_endian M) (unat (cm_length_size M)) (of_nat (8 * length msg))) msg"
  then have "m = md_pad 128 (be_bytes 16 (8 * length msg)) msg"
    using assms cbc_length_bytes_eq(2) by (auto simp: cbc_md_of_def EVP_sha512_def)
  from cbc_hash_sha2_64 [OF this, of 8 "SHA512_Init mem"]
  show "fips_sha512 msg = take (md_size EVP_sha512) (cm_final_raw M (block_data_order (md_block_size EVP_sha512) (cm_transform M) (cm_init M) m (length m div md_block_size EVP_sha512)))"
    using assms by (auto simp: cbc_md_of_def EVP_sha512_def fips_sha512_eq SHA512_Init_def)
qed (use assms in \<open>auto simp: cbc_md_of_def EVP_sha512_def\<close>)

section \<open>The blocks of the loop are the blocks of the padded record\<close>

lemma length_md_pad_eq:
  assumes "length lb + 1 \<le> B"
  shows "length (md_pad B lb msg) = ((length msg + length lb) div B + 1) * B"
proof -
  let ?E = "length msg" and ?L = "length lb" and ?Q = "length (md_pad B lb msg)"
  let ?z = "(2 * B - 1 - ?L - ?E mod B) mod B"
  have "?z < B"
    using assms by (intro mod_less_divisor) linarith
  moreover have Q: "?Q = ?E + 1 + ?z + ?L"
    by (simp add: md_pad_def)
  obtain q where q: "?Q = q * B"
    using length_md_pad [OF assms] by (metis dvdE mult.commute)
  ultimately have "(q - 1) * B \<le> ?E + ?L" "?E + ?L < q * B"
    using Q by (simp_all add: diff_mult_distrib)
  moreover have "0 < q"
    using q Q by (cases q) simp_all
  ultimately have "(?E + ?L) div B = q - 1"
    by (intro div_nat_eqI) (simp_all add: mult.commute)
  then show ?thesis
    using q \<open>0 < q\<close> by simp
qed

lemma md_pad_nth:
  assumes "length lb + 1 \<le> B" "q < length (md_pad B lb msg)"
  shows "md_pad B lb msg ! q =
    (if q < length msg then msg ! q else if q = length msg then 0x80
     else if length (md_pad B lb msg) \<le> q + length lb then lb ! (q + length lb - length (md_pad B lb msg)) else 0)"
  using assms by (auto simp: md_pad_def nth_append nth_Cons' not_less)

lemma md_pad_block:
  assumes "length p = B"
  shows "md_pad B lb (p @ msg) = p @ md_pad B lb msg"
  using assms by (simp add: md_pad_def)

lemma cbc_block_byte_eq:
  assumes "j < 2 ^ 31" "c < 2 ^ 31"
  shows "cbc_block_byte B L (of_nat c) (if a then - 1 else 0) (if b then - 1 else 0) lb x j =
    (if b \<and> B - L \<le> j then lb ! (j - (B - L))
     else if a then (if j < c then x else if j = c then 0x80 else 0) else if b then 0 else x)"
proof -
  have u: "unat (of_nat v :: u32) = v" if "v \<le> 2 ^ 31" for v
    using that by (simp add: unat_of_nat take_bit_nat_eq_self)
  have c1: "of_nat c + 1 = (of_nat (Suc c) :: u32)"
    by simp
  have ge: "constant_time_ge_8 (of_nat j) (of_nat c) = (if c \<le> j then - 1 else 0)"
    "constant_time_ge_8 (of_nat j) (of_nat c + 1) = (if c < j then - 1 else 0)"
    unfolding c1 constant_time_8_eq word_le_nat_alt using assms u [of c] u [of j] u [of "Suc c"]
    by (simp_all only: Suc_le_eq less_imp_le)
  show ?thesis
    unfolding cbc_block_byte_def Let_def ge
    by (cases a; cases b; cases "c \<le> j"; cases "c < j")
      (simp_all add: ct_mask constant_time_select_8_if [of True, simplified] constant_time_select_8_if [of False, simplified])
qed


text \<open>
  Byte \<open>j\<close> of block \<open>i\<close>, by the position of the block: \<open>a\<close> is the block of the 0x80 byte and \<open>b\<close> the
  block of the length, of \<open>L\<close> bytes.
\<close>

lemma cbc_byte_cases:
  fixes E B L :: nat
  defines "a \<equiv> E div B" and "b \<equiv> (E + L) div B"
  assumes "L + 1 \<le> B" "i \<le> b" "j < B" and inp: "i * B + j < E \<Longrightarrow> x = y"
  shows "(if i = b \<and> B - L \<le> j then lb (j - (B - L)) else if i = a then (if j < E mod B then x else if j = E mod B then z else w)
      else if i = b then w else x) =
    (if i * B + j < E then y else if i * B + j = E then z
     else if (b + 1) * B \<le> i * B + j + L then lb (i * B + j + L - (b + 1) * B) else w)"
proof -
  let ?q = "i * B + j"
  have B0: "0 < B"
    using assms by simp
  have Ea: "E = a * B + E mod B" "E mod B < B"
    using B0 by (simp_all add: a_def)
  have lt: "i * B + B \<le> k * B" if "i < k" for k
    using that by (metis Suc_leI add.commute mult_Suc mult_le_mono1)
  have "b \<le> (E + B) div B"
    unfolding b_def using assms(3) by (intro div_le_mono) linarith
  then have "a \<le> b" "b \<le> a + 1"
    using B0 div_add_self2 [of B E] by (simp_all add: a_def b_def div_le_mono)
  then consider "i < a" "a \<le> b" | "i = a" "i < b" | "i = a" "i = b" | "i \<noteq> a" "i = b" "b = a + 1"
    using assms(4) by linarith
  then show ?thesis
  proof cases
    case 1
    then show ?thesis
      using lt [of a] Ea assms(5) inp by auto
  next
    case 2
    then show ?thesis
      using lt [of b] Ea assms(3,5) inp by auto
  next
    case 3
    then have eqs: "(b + 1) * B \<le> ?q + L \<longleftrightarrow> B - L \<le> j" "?q + L - (b + 1) * B = j - (B - L)"
      "?q < E \<longleftrightarrow> j < E mod B" "?q = E \<longleftrightarrow> j = E mod B"
      using assms(3) Ea by auto
    have "E + L < b * B + B"
      unfolding b_def using B0 by (metis add.commute dividend_less_times_div mult.commute mult_Suc_right)
    moreover have "a * B = b * B"
      using 3 by simp
    ultimately have lb: "\<not> B - L \<le> j" if "j \<le> E mod B"
      using that Ea(1) by linarith
    show ?thesis
      unfolding eqs using 3 inp [unfolded eqs] lb by (cases "j \<le> E mod B") simp_all
  next
    case 4
    then have eqs: "(b + 1) * B \<le> ?q + L \<longleftrightarrow> B - L \<le> j" "?q + L - (b + 1) * B = j - (B - L)"
      using assms(3) by auto
    have "\<not> ?q < E" "?q \<noteq> E"
      using 4 Ea by simp_all
    then show ?thesis
      unfolding eqs using 4(1,2) by (simp only: if_False if_True simp_thms)
  qed
qed

text \<open>Block \<open>i\<close> of the loop, for a message of \<open>E\<close> bytes.\<close>

lemma cbc_block_eq:
  fixes header data lb :: "byte list" and E B :: nat
  defines "a \<equiv> E div B" and "b \<equiv> (E + length lb) div B" and "m \<equiv> header @ take (E - 13) data"
  assumes sz: "length lb + 1 \<le> B" "B \<le> 128" "13 \<le> E" "E - 13 \<le> length data" "E - 13 \<le> n" "length header = 13"
    and i: "i \<le> b"
  shows "map (\<lambda>j. cbc_block_byte B (length lb) (of_nat (E mod B)) (if i = a then - 1 else 0) (if i = b then - 1 else 0) lb
      (cbc_input_byte header data n (i * B + j)) j) [0..<B] = take B (drop (i * B) (md_pad B lb m))"
    (is "?l = ?r")
proof (rule nth_equalityI)
  have E: "length m = E"
    using sz by (simp add: m_def)
  have lenQ: "length (md_pad B lb m) = (b + 1) * B"
    using length_md_pad_eq [OF sz(1), of m] by (simp add: E b_def)
  have iB: "i * B + B \<le> (b + 1) * B"
    using i by (metis Suc_eq_plus1 add.commute mult_Suc mult_le_mono1 Suc_le_mono)
  show "length ?l = length ?r"
    using diff_le_mono [OF iB, of "i * B"] by (simp only: length_map length_upt length_take length_drop lenQ min_absorb2 diff_add_inverse diff_zero)
  fix j assume "j < length ?l"
  then have j: "j < B" and B0: "E mod B < B"
    by simp_all
  let ?q = "i * B + j"
  have q: "?q < length (md_pad B lb m)"
    using iB j lenQ by linarith
  have inp: "cbc_input_byte header data n ?q = m ! ?q" if "?q < E"
    using that sz by (auto simp: cbc_input_byte_def m_def nth_append)
  have small: "x < 2 ^ 31" if "x < B" for x
    using that sz(2) by simp
  have "?l ! j = (if i = b \<and> B - length lb \<le> j then lb ! (j - (B - length lb))
     else if i = a then (if j < E mod B then cbc_input_byte header data n ?q else if j = E mod B then 0x80 else 0)
     else if i = b then 0 else cbc_input_byte header data n ?q)"
    using j cbc_block_byte_eq [OF small [OF j] small [OF B0], of B "length lb" "i = a" "i = b" lb "cbc_input_byte header data n ?q"]
    by (simp only: nth_map length_upt nth_upt diff_zero add_0)
  also have "\<dots> = (if ?q < E then m ! ?q else if ?q = E then 0x80
     else if (b + 1) * B \<le> ?q + length lb then lb ! (?q + length lb - (b + 1) * B) else 0)"
    unfolding a_def b_def by (rule cbc_byte_cases [OF sz(1) i [unfolded b_def] j inp])
  also have "\<dots> = ?r ! j"
    unfolding nth_take [OF j] using q lenQ by (simp only: md_pad_nth [OF sz(1) q] E lenQ nth_drop add_leD1 less_imp_le)
  finally show "?l ! j = ?r ! j" .
qed

lemma eq_8_nat:
  assumes "i < 2 ^ 31" "x < 2 ^ 31"
  shows "constant_time_eq_8 (of_nat i) (of_nat x) = (if i = x then - 1 else 0)"
proof -
  have "(of_nat i = (of_nat x :: u32)) \<longleftrightarrow> i = x"
    using assms by (simp add: word_of_nat_eq_iff take_bit_nat_eq_self)
  then show ?thesis
    by (simp only: constant_time_8_eq)
qed

lemma foldl_upt_Suc: "m \<le> n \<Longrightarrow> foldl f s [m..<Suc n] = f (foldl f s [m..<n]) n"
  by simp

text \<open>The blocks before the loop.\<close>

lemma cbc_starting_blocks:
  assumes "length header = 13" "13 \<le> B" "0 < k" "k * B \<le> 13 + length data"
  shows "foldl (\<lambda>s i. T s (take B (drop (B * i - 13) data))) (T s (take 13 header @ take (B - 13) data)) [1..<k] =
    block_data_order B T s (header @ data) k"
  using assms(3,4)
proof (induction k)
  case (Suc k)
  show ?case
  proof (cases "k = 0")
    case True
    then show ?thesis
      using assms(1,2) by simp
  next
    case False
    have "take B (drop (B * k - 13) data) = take B (drop (k * B) (header @ data))"
    proof -
      have "13 \<le> k * B"
        using False assms(2) by (cases k) simp_all
      then show ?thesis
        using assms(1) by (simp add: mult.commute)
    qed
    then show ?thesis
      using Suc False by (simp only: foldl_upt_Suc block_data_order_snoc One_nat_def Suc_leI neq0_conv) simp
  qed
qed simp

lemma block_data_order_take: "n * B \<le> k \<Longrightarrow> block_data_order B T s (take k xs) n = block_data_order B T s xs n"
proof (cases "k \<le> length xs")
  case True
  then show "n * B \<le> k \<Longrightarrow> ?thesis"
    using block_data_order_append [of n B "take k xs" T s "drop k xs"] by simp
qed simp

context cbc_hash
begin

text \<open>The rounds of the loop, from block \<open>ns\<close>.\<close>

lemma cbc_rounds:
  fixes E n ns :: nat and header data lb :: "byte list" and s :: md_state
  defines "b \<equiv> (E + length lb) div md_block_size md" and "Q \<equiv> md_pad (md_block_size md) lb (header @ take (E - 13) data)"
  defines "S \<equiv> block_data_order (md_block_size md) (cm_transform M) s Q"
  assumes sz: "length lb = unat (cm_length_size M)" "13 \<le> E" "E - 13 \<le> length data" "E - 13 \<le> n" "length header = 13" "E < 2 ^ 22" "ns + t < 2 ^ 22"
  shows "case foldl (cbc_last_block M header data n (of_nat (E mod md_block_size md)) (of_nat (E div md_block_size md)) (of_nat b) lb)
        (S ns, replicate 64 0, ns * md_block_size md) [ns..<ns + t] of (s', out, k) \<Rightarrow>
      (ns + t \<le> b + 1 \<longrightarrow> s' = S (ns + t)) \<and> k = (ns + t) * md_block_size md \<and>
      (\<forall>j<md_size md. out ! j = (if b < ns + t \<and> ns \<le> b then cm_final_raw M (S (b + 1)) ! j else 0)) \<and> (0 < t \<longrightarrow> length out = md_size md)"
  using sz(7)
proof (induction t)
  case 0
  then show ?case
    using sizes(1) by auto
next
  case (Suc t)
  let ?B = "md_block_size md" and ?i = "ns + t"
  let ?f = "cbc_last_block M header data n (of_nat (E mod ?B)) (of_nat (E div ?B)) (of_nat b) lb"
  obtain s' out k where st: "foldl ?f (S ns, replicate 64 0, ns * ?B) [ns..<ns + t] = (s', out, k)"
    by (metis prod_cases3)
  have ih: "?i \<le> b + 1 \<longrightarrow> s' = S ?i" "k = ?i * ?B"
    "\<forall>j<md_size md. out ! j = (if b < ?i \<and> ns \<le> b then cm_final_raw M (S (b + 1)) ! j else 0)"
    using Suc st by simp_all
  have "?i < 2 ^ 31"
    using Suc.prems by simp
  note eq8 = eq_8_nat [OF this]
  have "E div ?B \<le> E" "b \<le> E + length lb"
    by (simp_all add: b_def)
  then have ab: "E div ?B < 2 ^ 31" "b < 2 ^ 31"
    using sz(1,6) raw_sizes(3) by auto
  have step: "?f (s', out, k) ?i = (let blk = map (\<lambda>j. cbc_block_byte ?B (length lb) (of_nat (E mod ?B)) (if ?i = E div ?B then - 1 else 0) (if ?i = b then - 1 else 0) lb
      (cbc_input_byte header data n (?i * ?B + j)) j) [0..<?B];
      s'' = cm_transform M s' blk in (s'', map (\<lambda>j. out ! j OR (cm_final_raw M s'' ! j AND (if ?i = b then - 1 else 0))) [0..<md_size md], ?i * ?B + ?B))"
    by (simp only: cbc_last_block_def prod.case Let_def raw_sizes(1,2) ih(2) eq8 [OF ab(1)] eq8 [OF ab(2)] sz(1))
  have S: "cm_transform M s' (map (\<lambda>j. cbc_block_byte ?B (length lb) (of_nat (E mod ?B)) (if ?i = E div ?B then - 1 else 0) (if ?i = b then - 1 else 0) lb
      (cbc_input_byte header data n (?i * ?B + j)) j) [0..<?B]) = S (Suc ?i)" if "?i \<le> b"
    using that ih(1) cbc_block_eq [of lb ?B E data n header ?i] sz(1-5) sizes(3) raw_sizes(3)
    by (auto simp: S_def Q_def b_def block_data_order_snoc simp del: block_data_order.simps)
  show ?case
    unfolding add_Suc_right foldl_upt_Suc [OF le_add1] st step Let_def prod.case
    using S ih(3) by (auto simp: not_less_eq)
qed

end

section \<open>The sizes of a record\<close>

lemma u32_of_nat: "k < 2 ^ 32 \<Longrightarrow> unat (of_nat k :: u32) = k"
  by (simp add: unat_of_nat take_bit_nat_eq_self)

lemma of_nat_div_mod_u32:
  assumes "x < 2 ^ 32" "y < 2 ^ 32"
  shows "of_nat x div of_nat y = (of_nat (x div y) :: u32)" "of_nat x mod of_nat y = (of_nat (x mod y) :: u32)"
proof -
  have "x div y < 2 ^ 32" "x mod y < 2 ^ 32"
    using assms div_le_dividend [of x y] mod_less_eq_dividend [of x y] by (metis order.strict_trans1)+
  then show "of_nat x div of_nat y = (of_nat (x div y) :: u32)" "of_nat x mod of_nat y = (of_nat (x mod y) :: u32)"
    using assms by (simp_all only: word_unat_eq_iff unat_div_distrib unat_mod_distrib u32_of_nat)
qed

lemma ucast_of_nat_small: "k < 2 ^ 64 \<Longrightarrow> (ucast (of_nat k :: size_t) :: u32) = of_nat k"
  by (simp add: unsigned_of_nat take_bit_nat_eq_self)

lemma cbc_words:
  fixes N D :: size_t and s B L :: nat
  defines "n \<equiv> unat N" and "d \<equiv> unat D"
  assumes "n < 2 ^ 20" "d \<le> n" "s \<le> d" "0 < B" "B \<le> 128" "L \<le> 16"
  shows "(ucast (N + 13) - of_nat s - 1 + 1 + of_nat L + of_nat B - 1 :: u32) div of_nat B = of_nat ((n + 12 - s + L + B) div B)"
    "(ucast (D + 13 - ucast (of_nat s :: u32)) :: u32) = of_nat (d + 13 - s)"
    "(of_nat (d + 13 - s) + of_nat L :: u32) div of_nat B = of_nat ((d + 13 - s + L) div B)"
    "(of_nat (d + 13 - s) :: u32) div of_nat B = of_nat ((d + 13 - s) div B)"
    "(of_nat (d + 13 - s) :: u32) mod of_nat B = of_nat ((d + 13 - s) mod B)"
    "8 * of_nat (d + 13 - s) + 8 * of_nat B = (of_nat (8 * (B + (d + 13 - s))) :: u32)"
proof -
  have N: "N = of_nat n" and D: "D = of_nat d"
    by (simp_all add: n_def d_def)
  have "(ucast (N + 13) :: u32) = of_nat (n + 13)"
    using ucast_of_nat_small [of "n + 13"] assms(3) by (simp add: N)
  moreover have "(of_nat (n + 13) - of_nat s - 1 + 1 + of_nat L + of_nat B - 1 :: u32) = of_nat (n + 12 - s + L + B)"
    using assms(4,5) by (simp add: of_nat_diff)
  moreover have "n + 12 - s + L + B < 2 ^ 32"
    using assms by simp
  ultimately show "(ucast (N + 13) - of_nat s - 1 + 1 + of_nat L + of_nat B - 1 :: u32) div of_nat B = of_nat ((n + 12 - s + L + B) div B)"
    using assms(7) by (simp only: of_nat_div_mod_u32)
  have "(ucast (of_nat s :: u32) :: size_t) = of_nat s"
    using assms by (simp add: unsigned_of_nat take_bit_nat_eq_self)
  then have "D + 13 - ucast (of_nat s :: u32) = of_nat (d + 13 - s)"
    using assms(5) by (simp add: D of_nat_diff)
  then show "(ucast (D + 13 - ucast (of_nat s :: u32)) :: u32) = of_nat (d + 13 - s)"
    using ucast_of_nat_small [of "d + 13 - s"] assms by (simp only:) simp
  have "d + 13 - s + L < 2 ^ 32" "d + 13 - s < 2 ^ 32" "B < 2 ^ 32"
    using assms(3-8) by simp_all
  then show "(of_nat (d + 13 - s) + of_nat L :: u32) div of_nat B = of_nat ((d + 13 - s + L) div B)"
    "(of_nat (d + 13 - s) :: u32) div of_nat B = of_nat ((d + 13 - s) div B)"
    "(of_nat (d + 13 - s) :: u32) mod of_nat B = of_nat ((d + 13 - s) mod B)"
    by (simp_all only: of_nat_add [symmetric] of_nat_div_mod_u32)
  show "8 * of_nat (d + 13 - s) + 8 * of_nat B = (of_nat (8 * (B + (d + 13 - s))) :: u32)"
    by (simp only: of_nat_mult of_nat_add of_nat_numeral) (simp add: algebra_simps)
qed

text \<open>The seven blocks of the loop contain the last one, and the blocks before it are full of message.\<close>

lemma cbc_window:
  fixes n d s B L :: nat
  defines "nb \<equiv> (n + 12 - s + L + B) div B" and "E \<equiv> d + 13 - s"
  assumes "d \<le> n" "n \<le> d + 256" "s \<le> d" "B = 64 \<and> L = 8 \<or> B = 128 \<and> L = 16"
  shows "(nb - 6) * B \<le> E" "(E + L) div B < nb - 6 + 7"
proof -
  have "nb * B \<le> n + 12 - s + L + B"
    unfolding nb_def by simp
  then show "(nb - 6) * B \<le> E"
    using assms(3-6) by (auto simp: E_def diff_mult_distrib)
  have "(E + L) div B \<le> nb"
    unfolding nb_def E_def using assms(3,5,6) by (intro div_le_mono) auto
  then show "(E + L) div B < nb - 6 + 7"
    by linarith
qed

section \<open>The digest of a record\<close>

context cbc_hash
begin

lemma length_cbc_length_bytes: "length (cbc_length_bytes be (unat (cm_length_size M)) bits) = unat (cm_length_size M)"
  using raw_sizes(3) by (auto simp: cbc_length_bytes_def)

text \<open>The state after the last block of the padded message holds the inner digest.\<close>

lemma cbc_inner:
  fixes p m :: "byte list"
  defines "lb \<equiv> cbc_length_bytes (cm_big_endian M) (unat (cm_length_size M)) (of_nat (8 * (md_block_size md + length m)))"
  assumes "length p = md_block_size md" "length m < 2 ^ 22"
  shows "dg (p @ m) = take (md_size md) (cm_final_raw M
    (block_data_order (md_block_size md) (cm_transform M) (cm_transform M (cm_init M) p) (md_pad (md_block_size md) lb m)
      ((length m + length lb) div md_block_size md + 1)))"
proof -
  let ?B = "md_block_size md" and ?Q = "md_pad (md_block_size md) lb m"
  have lb: "length lb + 1 \<le> ?B" and B0: "0 < ?B" and B1: "?B \<le> 128"
    using raw_sizes(3) by (auto simp: lb_def length_cbc_length_bytes)
  have "8 * length (p @ m) < 2 ^ 32"
    using assms(2,3) B1 by simp
  moreover have "length (p @ ?Q) div ?B = Suc ((length m + length lb) div ?B + 1)"
    using length_md_pad_eq [OF lb, of m] assms(2) B0 by simp
  moreover have "md_pad ?B (cbc_length_bytes (cm_big_endian M) (unat (cm_length_size M)) (of_nat (8 * length (p @ m)))) (p @ m) = p @ ?Q"
    using assms(2) md_pad_block by (simp add: lb_def)
  ultimately show ?thesis
    using raw_digest [of "p @ m" "p @ ?Q"] assms(2) by simp
qed

lemma cbc_outer:
  assumes "length mem = 128" "length p = md_block_size md" "length x = md_size md"
  shows "(case EVP_DigestInit_ex True mem EVP_MD_CTX_init (Some md) of
      None \<Rightarrow> None
    | Some (_, ctx) \<Rightarrow>
        (case EVP_DigestUpdate ctx p of
           None \<Rightarrow> None
         | Some (_, ctx) \<Rightarrow>
             (case EVP_DigestUpdate ctx x of
                None \<Rightarrow> None
              | Some (_, ctx) \<Rightarrow> map_option (\<lambda>(md, n, ctx). (md, n)) (EVP_DigestFinal ctx)))) = Some (Some (dg (p @ x)), md_size md)"
proof -
  have "length p < 2 ^ 64" "length x < 2 ^ 64"
    using assms(2,3) sizes by simp_all
  then obtain c1 c2 c3 where c1: "EVP_DigestInit_ex True mem EVP_MD_CTX_init (Some md) = Some (True, c1)"
    and c2: "EVP_DigestUpdate c1 p = Some (True, c2)" and c3: "EVP_DigestUpdate c2 x = Some (True, c3)" "evp_rep c3 (p @ x)"
    using init_rep [OF evp_usable_init assms(1)] update_rep by (metis append_Nil)
  show ?thesis
    using final_rep [OF c3(2)] by (auto simp: c1 c2 c3(1) EVP_DigestFinal_def)
qed

lemma cbc_loop:
  fixes n d :: nat and header data lb :: "byte list" and s :: md_state
  defines "B \<equiv> md_block_size md" and "L \<equiv> unat (cm_length_size M)" and "E \<equiv> d + 13 - md_size md"
  defines "ns \<equiv> (n + 12 - md_size md + L + B) div B - 6"
  defines "Q \<equiv> md_pad B lb (header @ take (d - md_size md) data)"
  assumes sz: "n < 2 ^ 20" "n \<le> length data" "d \<le> n" "n \<le> d + 256" "md_size md \<le> d" "length header = 13" "length lb = L"
    and fin: "md_size md \<le> length (cm_final_raw M (block_data_order B (cm_transform M) s Q ((E + L) div B + 1)))"
  shows "\<exists>s' k. foldl (cbc_last_block M header data n (of_nat (E mod B)) (of_nat (E div B)) (of_nat ((E + L) div B)) lb)
      (if 0 < ns then
         foldl (\<lambda>s i. cm_transform M s (take B (drop (B * i - 13) data)))
           (cm_transform M s (take 13 header @ take (B - 13) data)) [1..<ns]
       else s, replicate 64 0, ns * B) [ns..<ns + 7] =
    (s', take (md_size md) (cm_final_raw M (block_data_order B (cm_transform M) s Q ((E + L) div B + 1))), k)"
proof -
  have BL: "B = 64 \<and> L = 8 \<or> B = 128 \<and> L = 16"
    using raw_sizes(3) by (simp add: B_def L_def)
  have w: "ns * B \<le> E" "(E + L) div B < ns + 7"
    unfolding ns_def E_def by (rule cbc_window [OF sz(3-5) BL])+
  have le: "ns \<le> (E + L) div B"
    using w(1) BL by (intro iffD2 [OF less_eq_div_iff_mult_less_eq]) auto
  have m: "header @ take (d - md_size md) data = take E (header @ data)" and E: "13 \<le> E" "E - 13 = d - md_size md" "E < 2 ^ 22"
    using sz by (auto simp: E_def)
  have lenE: "length (take E (header @ data)) = E"
    using sz by (simp add: E_def)
  have S: "(if 0 < ns then
         foldl (\<lambda>s i. cm_transform M s (take B (drop (B * i - 13) data)))
           (cm_transform M s (take 13 header @ take (B - 13) data)) [1..<ns]
       else s) = block_data_order B (cm_transform M) s Q ns"
  proof (cases "0 < ns")
    case True
    have "block_data_order B (cm_transform M) s Q ns = block_data_order B (cm_transform M) s (take E (header @ data)) ns"
      unfolding Q_def m md_pad_def using w(1) lenE by (intro block_data_order_append) simp
    also have "\<dots> = block_data_order B (cm_transform M) s (header @ data) ns"
      by (rule block_data_order_take [OF w(1)])
    also have "\<dots> = foldl (\<lambda>s i. cm_transform M s (take B (drop (B * i - 13) data)))
           (cm_transform M s (take 13 header @ take (B - 13) data)) [1..<ns]"
      using w(1) lenE BL True sz(6) by (intro cbc_starting_blocks [symmetric]) auto
    finally show ?thesis
      using True by simp
  qed simp
  have "ns + 7 < 2 ^ 22"
    using w(1) E(3) BL by auto
  moreover have "E - 13 \<le> n" "E - 13 \<le> length data"
    using sz by (simp_all add: E_def)
  moreover obtain s' out k where st: "foldl (cbc_last_block M header data n (of_nat (E mod B)) (of_nat (E div B)) (of_nat ((E + L) div B)) lb)
      (block_data_order B (cm_transform M) s Q ns, replicate 64 0, ns * B) [ns..<ns + 7] = (s', out, k)"
    by (metis prod_cases3)
  ultimately have out: "\<forall>j<md_size md. out ! j = cm_final_raw M (block_data_order B (cm_transform M) s Q ((E + L) div B + 1)) ! j"
      "length out = md_size md"
    using cbc_rounds [of lb E data n header ns 7 s, folded B_def, unfolded sz(7) E(2), folded Q_def] sz(6,7) E(1,3) le w(2)
    by (simp_all add: st L_def E(2) del: block_data_order.simps)
  have "out = take (md_size md) (cm_final_raw M (block_data_order B (cm_transform M) s Q ((E + L) div B + 1)))"
    using out fin by (intro nth_equalityI) (simp_all del: block_data_order.simps)
  then show ?thesis
    unfolding S st by blast
qed

end

lemma of_nat_unat_u32: "of_nat (unat w) = (w :: u32)"
  by simp

lemma cbc_starts:
  fixes nb B :: nat
  assumes "nb < 2 ^ 22" "0 < B" "B \<le> 128"
  shows "(if 6 < (of_nat nb :: u32) then of_nat nb - 6 else 0) = (of_nat (nb - 6) :: u32)"
    "(if 6 < (of_nat nb :: u32) then of_nat B * of_nat (nb - 6) else 0) = (of_nat ((nb - 6) * B) :: u32)"
    "0 < (of_nat ((nb - 6) * B) :: u32) \<longleftrightarrow> 0 < nb - 6"
    "unat (of_nat ((nb - 6) * B) :: u32) = (nb - 6) * B" "(nb - 6) * B div B = nb - 6"
    "unat (of_nat (nb - 6) :: u32) = nb - 6"
proof -
  have "(nb - 6) * B \<le> (nb - 6) * 128"
    using assms(3) by simp
  moreover have "(nb - 6) * 128 < 2 ^ 32" "nb < 2 ^ 32"
    using assms(1) by auto
  ultimately have le: "(nb - 6) * B < 2 ^ 32" "nb < 2 ^ 32"
    by (simp_all only: order.strict_trans1)
  show u: "unat (of_nat ((nb - 6) * B) :: u32) = (nb - 6) * B"
    by (rule u32_of_nat [OF le(1)])
  have nb: "6 < (of_nat nb :: u32) \<longleftrightarrow> 6 < nb"
    unfolding word_less_nat_alt u32_of_nat [OF le(2)] by simp
  show "(if 6 < (of_nat nb :: u32) then of_nat nb - 6 else 0) = (of_nat (nb - 6) :: u32)"
    unfolding nb by (auto simp: of_nat_diff)
  show "(if 6 < (of_nat nb :: u32) then of_nat B * of_nat (nb - 6) else 0) = (of_nat ((nb - 6) * B) :: u32)"
    unfolding nb by auto
  show "0 < (of_nat ((nb - 6) * B) :: u32) \<longleftrightarrow> 0 < nb - 6"
    unfolding word_less_nat_alt u using assms(2) by simp
  show "(nb - 6) * B div B = nb - 6" "unat (of_nat (nb - 6) :: u32) = nb - 6"
    using assms(2) le(2) by (simp_all add: u32_of_nat)
qed

context cbc_hash
begin

lemma secret_pad:
  assumes "length key \<le> md_block_size md"
  shows "map (\<lambda>x. x XOR 0x36) (take (md_block_size md) (put_at 0 (take (length key) key) (replicate (md_block_size md) 0))) =
      map (\<lambda>b. 0x36 XOR b) (hmac_key dg (md_block_size md) key)"
    "map (\<lambda>x. x XOR 0x6a) (map (\<lambda>b. 0x36 XOR b) ks) = map (\<lambda>b. 0x5c XOR b) (ks :: byte list)"
proof -
  show "map (\<lambda>x. x XOR 0x36) (take (md_block_size md) (put_at 0 (take (length key) key) (replicate (md_block_size md) 0))) =
      map (\<lambda>b. 0x36 XOR b) (hmac_key dg (md_block_size md) key)"
    using assms by (simp add: put_at_def hmac_key_def Let_def xor.commute)
  have "(0x36 XOR b) XOR 0x6a = 0x5c XOR b" for b :: byte
    by (simp add: xor.commute xor.left_commute)
  then show "map (\<lambda>x. x XOR 0x6a) (map (\<lambda>b. 0x36 XOR b) ks) = map (\<lambda>b. 0x5c XOR b) (ks :: byte list)"
    by simp
qed

lemma digest_record:
  assumes M: "cbc_md_of mem (md_type md) = Some M" and mem: "length mem = 128"
    and sz: "unat N < 2 ^ 20" "unat N \<le> length data" "unat D \<le> unat N" "unat N \<le> unat D + 256" "md_size md \<le> unat D" "length header = 13"
    and key: "length key \<le> md_block_size md"
  shows "ssl3_cbc_digest_record True mem md header data D N key (of_nat (length key)) =
    Some (Some (rfc_hmac dg (md_block_size md) key (header @ take (unat D - md_size md) data)), md_size md)"
proof -
  let ?B = "md_block_size md" and ?L = "unat (cm_length_size M)" and ?E = "unat D + 13 - md_size md"
  let ?m = "header @ take (unat D - md_size md) data"
  let ?k = "hmac_key dg ?B key" and ?nb = "(unat N + 12 - md_size md + ?L + ?B) div ?B"
  let ?p = "map (\<lambda>b. 0x36 XOR b) ?k"
  let ?lb = "cbc_length_bytes (cm_big_endian M) ?L (of_nat (8 * (?B + ?E)))"
  let ?s = "cm_transform M (cm_init M) ?p"
  have BL: "?B = 64 \<and> ?L = 8 \<or> ?B = 128 \<and> ?L = 16" and E: "length ?m = ?E" "?E < 2 ^ 22"
    using raw_sizes(3) sz by auto
  have p: "length ?p = ?B"
    using key by (simp add: hmac_key_def Let_def)
  have lb: "length ?lb = ?L"
    by (rule length_cbc_length_bytes)
  have inner: "dg (?p @ ?m) = take (md_size md) (cm_final_raw M
      (block_data_order ?B (cm_transform M) ?s (md_pad ?B ?lb ?m) ((?E + ?L) div ?B + 1)))"
    using cbc_inner [OF p, of ?m, unfolded E(1), OF E(2), unfolded lb] .
  then have "md_size md \<le> length (cm_final_raw M (block_data_order ?B (cm_transform M) ?s (md_pad ?B ?lb ?m) ((?E + ?L) div ?B + 1)))"
    using digest_size [of "?p @ ?m"] by (metis length_take min.cobounded1)
  from cbc_loop [OF sz lb this] obtain s' k where loop:
    "foldl (cbc_last_block M header data (unat N) (of_nat (?E mod ?B)) (of_nat (?E div ?B)) (of_nat ((?E + ?L) div ?B)) ?lb)
      (if 0 < ?nb - 6 then
         foldl (\<lambda>s i. cm_transform M s (take ?B (drop (?B * i - 13) data)))
           (cm_transform M ?s (take 13 header @ take (?B - 13) data)) [1..<?nb - 6]
       else ?s, replicate 64 0, (?nb - 6) * ?B) [?nb - 6..<?nb - 6 + 7] = (s', dg (?p @ ?m), k)"
    unfolding inner [symmetric] by blast
  have cm: "cm_size M = of_nat (md_size md)" "cm_block_size M = of_nat ?B" "cm_length_size M = of_nat ?L"
    using raw_sizes(1,2) by (metis of_nat_unat_u32)+
  have szs: "?B < 2 ^ 32" "md_size md < 2 ^ 32" "0 < ?B" "?B \<le> 128" "?L \<le> 16" "length key < 2 ^ 32" "length key \<le> 128"
    using BL sizes key by auto
  note words = cbc_words [OF sz(1,3,5) szs(3-5), unfolded of_nat_unat_u32, folded cm(1,2)]
  have "unat N + 12 - md_size md + ?L + ?B < 2 ^ 22"
    using sz(1) szs(4,5) by simp
  with div_le_dividend have "?nb < 2 ^ 22"
    by (rule order.strict_trans1)
  note starts = cbc_starts [OF this szs(3,4), folded cm(2)]
  have "6 + (1 :: nat) = 7"
    by simp
  note seven = add.assoc [of "?nb - 6" 6 1, unfolded this]
  have guards: "N < 1024 * 1024" "of_nat (length key) \<le> (128 :: u32)"
    using sz(1) szs(7) u32_of_nat [OF szs(6)] by (simp_all add: word_less_nat_alt word_le_nat_alt)
  have dg: "take (md_size md) (dg x) = dg x" for x
    by (simp add: digest_size)
  have "ssl3_cbc_digest_record True mem md header data D N key (of_nat (length key)) =
    Some (Some (dg (map (\<lambda>b. 0x5c XOR b) ?k @ dg (?p @ ?m))), md_size md)"
    using szs(6) M guards cbc_outer [OF mem, of "map (\<lambda>b. 0x5c XOR b) ?k" "dg (?p @ ?m)"] p
    by (simp only: ssl3_cbc_digest_record_def EVP_MD_type_def option.case Let_def words starts u32_of_nat raw_sizes(1,2) secret_pad [OF key] seven loop prod.case
      dg digest_size length_map not_not if_False simp_thms)
  then show ?thesis
    by (simp add: rfc_hmac_def hmac_padded_def)
qed

end

lemma cbc_hashes:
  assumes "(md, dg) \<in> set evp_digests"
  shows "\<exists>M. cbc_md_of mem (md_type md) = Some M \<and> cbc_hash md dg M"
  using assms cbc_hash_md5 [of mem] cbc_hash_sha1 [of mem] cbc_hash_sha224 [of mem] cbc_hash_sha256 [of mem] cbc_hash_sha384 [of mem] cbc_hash_sha512 [of mem]
  by (auto simp: evp_digests_def EVP_md5_def EVP_sha1_def EVP_sha224_def EVP_sha256_def EVP_sha384_def EVP_sha512_def cbc_md_of_def)

interpretation cbc_md5: cbc_hash EVP_md5 rfc_md5 "the (cbc_md_of (replicate 128 0) (md_type EVP_md5))"
  by (rule cbc_hash_md5 [of "replicate 128 0"]) (simp add: cbc_md_of_def EVP_md5_def)

interpretation cbc_sha1: cbc_hash EVP_sha1 fips_sha1 "the (cbc_md_of (replicate 128 0) (md_type EVP_sha1))"
  by (rule cbc_hash_sha1 [of "replicate 128 0"]) (simp add: cbc_md_of_def EVP_sha1_def)

interpretation cbc_sha224: cbc_hash EVP_sha224 fips_sha224 "the (cbc_md_of (replicate 128 0) (md_type EVP_sha224))"
  by (rule cbc_hash_sha224 [of "replicate 128 0"]) (simp add: cbc_md_of_def EVP_sha224_def)

interpretation cbc_sha256: cbc_hash EVP_sha256 fips_sha256 "the (cbc_md_of (replicate 128 0) (md_type EVP_sha256))"
  by (rule cbc_hash_sha256 [of "replicate 128 0"]) (simp add: cbc_md_of_def EVP_sha256_def)

interpretation cbc_sha384: cbc_hash EVP_sha384 fips_sha384 "the (cbc_md_of (replicate 128 0) (md_type EVP_sha384))"
  by (rule cbc_hash_sha384 [of "replicate 128 0"]) (simp add: cbc_md_of_def EVP_sha384_def)

interpretation cbc_sha512: cbc_hash EVP_sha512 fips_sha512 "the (cbc_md_of (replicate 128 0) (md_type EVP_sha512))"
  by (rule cbc_hash_sha512 [of "replicate 128 0"]) (simp add: cbc_md_of_def EVP_sha512_def)

text \<open>
  C4. For every supported digest, \<^verbatim>\<open>ssl3_cbc_digest_record\<close> writes the HMAC of RFC 2104 of the header and the
  data without MAC and padding, whatever the secret length of the padding: the masks, the padding
  and the length in the last blocks, and the choice among the seven states, agree with hashing the
  message alone. The record is shorter than 2^20 bytes and has at most 256 bytes of padding; the MAC key
  is not longer than a block.
\<close>

theorem ssl3_cbc_digest_record_correct:
  assumes "(md, dg) \<in> set evp_digests" "length mem = 128" "length header = 13" "length key \<le> md_block_size md"
    "unat N < 2 ^ 20" "unat N \<le> length data" "unat D \<le> unat N" "unat N \<le> unat D + 256" "md_size md \<le> unat D"
  shows "ssl3_cbc_record_digest_supported (EVP_MD_type md) \<and>
    ssl3_cbc_digest_record True mem md header data D N key (of_nat (length key)) =
      Some (Some (rfc_hmac dg (md_block_size md) key (header @ take (unat D - md_size md) data)), md_size md)"
proof
  obtain M where "cbc_md_of mem (md_type md) = Some M" "cbc_hash md dg M"
    using cbc_hashes [OF assms(1)] by blast
  from cbc_hash.digest_record [OF this(2,1) assms(2,5-9,3,4)]
  show "ssl3_cbc_digest_record True mem md header data D N key (of_nat (length key)) =
      Some (Some (rfc_hmac dg (md_block_size md) key (header @ take (unat D - md_size md) data)), md_size md)" .
  show "ssl3_cbc_record_digest_supported (EVP_MD_type md)"
    using assms(1) by (auto simp: evp_digests_def ssl3_cbc_record_digest_supported_def EVP_MD_type_def EVP_md5_def EVP_sha1_def EVP_sha224_def EVP_sha256_def EVP_sha384_def EVP_sha512_def)
qed

theorem ssl3_cbc_digest_record_correct_witness:
  "ssl3_cbc_digest_record True (replicate 128 0) EVP_sha1 (replicate 13 7) (replicate 64 9) 40 64 [1, 2, 3] 3 =
    Some (Some (rfc_hmac fips_sha1 64 [1, 2, 3] (replicate 13 7 @ replicate 20 9)), 20)"
  using ssl3_cbc_digest_record_correct [of EVP_sha1 fips_sha1 "replicate 128 0" "replicate 13 7" "[1, 2, 3]" 64 "replicate 64 9" 40]
  by (simp add: evp_digests_def evp_md_sizes)


end
