(* ===== verification/Lhash.thy ===== *)
theory Lhash
  imports Prelude
begin

unbundle bit_operations_syntax

text \<open>
  The dynamic hash tables of \<^verbatim>\<open>crypto/lhash/lhash.c\<close>: linear hashing, with one bucket split or merged at a
  time. The chains of nodes are lists, and a pointer into a chain is the number of nodes before it.
  Sizes and counts of items are natural numbers; the buckets of a table fit in memory, so that
  the 32-bit fields of the source do not overflow. The statistics wrap.
\<close>

section \<open>Definitions\<close>

type_synonym 'd node = "'d \<times> u64"

record 'd lhash =
  lh_b :: "'d node list list"
  lh_comp :: "'d \<Rightarrow> 'd \<Rightarrow> int"
  lh_hash :: "'d \<Rightarrow> u64"
  lh_num_nodes :: nat
  lh_num_alloc_nodes :: nat
  lh_p :: nat
  lh_pmax :: nat
  lh_up_load :: nat
  lh_down_load :: nat
  lh_items :: nat
  lh_num_expands :: u64
  lh_num_expand_reallocs :: u64
  lh_num_contracts :: u64
  lh_num_contract_reallocs :: u64
  lh_num_hash_calls :: u64
  lh_num_comp_calls :: u64
  lh_num_insert :: u64
  lh_num_replace :: u64
  lh_num_delete :: u64
  lh_num_no_delete :: u64
  lh_num_retrieve :: u64
  lh_num_retrieve_miss :: u64
  lh_num_hash_comps :: u64
  lh_error :: int

definition MIN_NODES :: nat where
  "MIN_NODES = 16"

definition LH_LOAD_MULT :: nat where
  "LH_LOAD_MULT = 256"

text \<open>The first argument of an operation tells for each of its allocations whether it succeeds.\<close>

definition lh_new :: "bool \<times> bool \<Rightarrow> ('d \<Rightarrow> u64) \<Rightarrow> ('d \<Rightarrow> 'd \<Rightarrow> int) \<Rightarrow> 'd lhash option" where
  "lh_new ok h c =
     (if \<not> fst ok \<or> \<not> snd ok then None
      else
        Some \<lparr>lh_b = replicate MIN_NODES [], lh_comp = c, lh_hash = h, lh_num_nodes = MIN_NODES div 2, lh_num_alloc_nodes = MIN_NODES,
          lh_p = 0, lh_pmax = MIN_NODES div 2, lh_up_load = 2 * LH_LOAD_MULT, lh_down_load = LH_LOAD_MULT, lh_items = 0,
          lh_num_expands = 0, lh_num_expand_reallocs = 0, lh_num_contracts = 0, lh_num_contract_reallocs = 0,
          lh_num_hash_calls = 0, lh_num_comp_calls = 0, lh_num_insert = 0, lh_num_replace = 0, lh_num_delete = 0,
          lh_num_no_delete = 0, lh_num_retrieve = 0, lh_num_retrieve_miss = 0, lh_num_hash_comps = 0, lh_error = 0\<rparr>)"

text \<open>The search in a chain: the position of the match, or the length, and what the two counters of comparisons add up.\<close>

fun chain_pos :: "('d \<Rightarrow> 'd \<Rightarrow> int) \<Rightarrow> u64 \<Rightarrow> 'd \<Rightarrow> 'd node list \<Rightarrow> nat \<times> u64 \<times> u64" where
  "chain_pos cf hash data [] = (0, 0, 0)"
| "chain_pos cf hash data (n1 # ns) =
     (if snd n1 \<noteq> hash then (case chain_pos cf hash data ns of (k, comps, calls) \<Rightarrow> (Suc k, comps + 1, calls))
      else if cf (fst n1) data = 0 then (0, 1, 1)
      else (case chain_pos cf hash data ns of (k, comps, calls) \<Rightarrow> (Suc k, comps + 1, calls + 1)))"

definition getrn :: "'d lhash \<Rightarrow> 'd \<Rightarrow> (nat \<times> nat) \<times> u64 \<times> 'd lhash" where
  "getrn lh data =
     (let hash = lh_hash lh data;
          nn = unat hash mod lh_pmax lh;
          nn = (if nn < lh_p lh then unat hash mod lh_num_alloc_nodes lh else nn);
          (k, comps, calls) = chain_pos (lh_comp lh) hash data (lh_b lh ! nn)
      in ((nn, k), hash,
          lh\<lparr>lh_num_hash_calls := lh_num_hash_calls lh + 1, lh_num_hash_comps := lh_num_hash_comps lh + comps,
             lh_num_comp_calls := lh_num_comp_calls lh + calls\<rparr>))"

text \<open>The loop of \<^verbatim>\<open>expand\<close>: what stays in the chain and what is moved to the front of the new one.\<close>

fun expand_move :: "nat \<Rightarrow> nat \<Rightarrow> 'd node list \<Rightarrow> 'd node list \<Rightarrow> 'd node list \<times> 'd node list" where
  "expand_move nni p [] n2 = ([], n2)"
| "expand_move nni p (np # ns) n2 =
     (if unat (snd np) mod nni \<noteq> p then expand_move nni p ns (np # n2)
      else (case expand_move nni p ns n2 of (n1, n2) \<Rightarrow> (np # n1, n2)))"

definition expand :: "bool \<Rightarrow> 'd lhash \<Rightarrow> 'd lhash" where
  "expand ok lh =
     (let p = lh_p lh;
          lh = lh\<lparr>lh_num_nodes := lh_num_nodes lh + 1, lh_num_expands := lh_num_expands lh + 1, lh_p := lh_p lh + 1\<rparr>;
          (n1, n2) = expand_move (lh_num_alloc_nodes lh) p (lh_b lh ! p) [];
          lh = lh\<lparr>lh_b := (lh_b lh)[p + lh_pmax lh := n2, p := n1]\<rparr>
      in
      if lh_pmax lh \<le> lh_p lh then
        let j = lh_num_alloc_nodes lh * 2 in
        if \<not> ok then lh\<lparr>lh_error := lh_error lh + 1, lh_p := 0\<rparr>
        else lh\<lparr>lh_pmax := lh_num_alloc_nodes lh, lh_num_alloc_nodes := j, lh_num_expand_reallocs := lh_num_expand_reallocs lh + 1,
                lh_p := 0, lh_b := lh_b lh @ replicate (j - lh_num_alloc_nodes lh) []\<rparr>
      else lh)"

definition contract_merge :: "'d node list \<Rightarrow> 'd lhash \<Rightarrow> 'd lhash" where
  "contract_merge np lh =
     (let lh = lh\<lparr>lh_num_nodes := lh_num_nodes lh - 1, lh_num_contracts := lh_num_contracts lh + 1\<rparr>;
          n1 = lh_b lh ! lh_p lh
      in if n1 = [] then lh\<lparr>lh_b := (lh_b lh)[lh_p lh := np]\<rparr> else lh\<lparr>lh_b := (lh_b lh)[lh_p lh := n1 @ np]\<rparr>)"

definition contract :: "bool \<Rightarrow> 'd lhash \<Rightarrow> 'd lhash" where
  "contract ok lh =
     (let np = lh_b lh ! (lh_p lh + lh_pmax lh - 1);
          lh = lh\<lparr>lh_b := (lh_b lh)[lh_p lh + lh_pmax lh - 1 := []]\<rparr>
      in
      if lh_p lh = 0 then
        if \<not> ok then lh\<lparr>lh_error := lh_error lh + 1\<rparr>
        else
          contract_merge np
            (lh\<lparr>lh_num_contract_reallocs := lh_num_contract_reallocs lh + 1, lh_num_alloc_nodes := lh_num_alloc_nodes lh div 2,
               lh_pmax := lh_pmax lh div 2, lh_p := lh_pmax lh div 2 - 1, lh_b := take (lh_pmax lh) (lh_b lh)\<rparr>)
      else contract_merge np (lh\<lparr>lh_p := lh_p lh - 1\<rparr>))"

text \<open>The operations return the data pointer, \<open>None\<close> for null.\<close>

definition insert_room :: "bool \<Rightarrow> 'd lhash \<Rightarrow> 'd lhash" where
  "insert_room ok lh = (if lh_up_load lh \<le> lh_items lh * LH_LOAD_MULT div lh_num_nodes lh then expand ok lh else lh)"

definition lh_insert :: "bool \<times> bool \<Rightarrow> 'd \<Rightarrow> 'd lhash \<Rightarrow> 'd option \<times> 'd lhash" where
  "lh_insert ok data lh =
     (let lh = lh\<lparr>lh_error := 0\<rparr>;
          lh = insert_room (fst ok) lh;
          ((nn, k), hash, lh) = getrn lh data;
          chain = lh_b lh ! nn
      in
      if k = length chain then
        if \<not> snd ok then (None, lh\<lparr>lh_error := lh_error lh + 1\<rparr>)
        else (None, lh\<lparr>lh_b := (lh_b lh)[nn := chain @ [(data, hash)]], lh_num_insert := lh_num_insert lh + 1, lh_items := lh_items lh + 1\<rparr>)
      else
        (Some (fst (chain ! k)),
         lh\<lparr>lh_b := (lh_b lh)[nn := chain[k := (data, snd (chain ! k))]], lh_num_replace := lh_num_replace lh + 1\<rparr>))"

definition delete_room :: "bool \<Rightarrow> 'd lhash \<Rightarrow> 'd lhash" where
  "delete_room ok lh =
     (if MIN_NODES < lh_num_nodes lh \<and> lh_items lh * LH_LOAD_MULT div lh_num_nodes lh \<le> lh_down_load lh then contract ok lh else lh)"

definition lh_delete :: "bool \<Rightarrow> 'd \<Rightarrow> 'd lhash \<Rightarrow> 'd option \<times> 'd lhash" where
  "lh_delete ok data lh =
     (let lh = lh\<lparr>lh_error := 0\<rparr>;
          ((nn, k), hash, lh) = getrn lh data;
          chain = lh_b lh ! nn
      in
      if k = length chain then (None, lh\<lparr>lh_num_no_delete := lh_num_no_delete lh + 1\<rparr>)
      else
        let lh = lh\<lparr>lh_b := (lh_b lh)[nn := take k chain @ drop (Suc k) chain], lh_num_delete := lh_num_delete lh + 1,
                   lh_items := lh_items lh - 1\<rparr>
        in (Some (fst (chain ! k)), delete_room ok lh))"

definition lh_retrieve :: "'d \<Rightarrow> 'd lhash \<Rightarrow> 'd option \<times> 'd lhash" where
  "lh_retrieve data lh =
     (let lh = lh\<lparr>lh_error := 0\<rparr>;
          ((nn, k), hash, lh) = getrn lh data;
          chain = lh_b lh ! nn
      in
      if k = length chain then (None, lh\<lparr>lh_num_retrieve_miss := lh_num_retrieve_miss lh + 1\<rparr>)
      else (Some (fst (chain ! k)), lh\<lparr>lh_num_retrieve := lh_num_retrieve lh + 1\<rparr>))"

text \<open>
  The callbacks of \<^verbatim>\<open>lh_doall\<close>, which do not change the table, act on a state of their own.
\<close>

definition doall_util_fn :: "'d lhash option \<Rightarrow> ('d \<Rightarrow> 's \<Rightarrow> 's) \<Rightarrow> 's \<Rightarrow> 's" where
  "doall_util_fn lh func s =
     (case lh of None \<Rightarrow> s
      | Some lh \<Rightarrow> foldl (\<lambda>s i. foldl (\<lambda>s a. func (fst a) s) s (lh_b lh ! i)) s (rev [0..<lh_num_nodes lh]))"

definition lh_doall :: "'d lhash option \<Rightarrow> ('d \<Rightarrow> 's \<Rightarrow> 's) \<Rightarrow> 's \<Rightarrow> 's" where
  "lh_doall lh func s = doall_util_fn lh func s"

definition lh_doall_arg :: "'d lhash option \<Rightarrow> ('d \<Rightarrow> 'a \<Rightarrow> 's \<Rightarrow> 's) \<Rightarrow> 'a \<Rightarrow> 's \<Rightarrow> 's" where
  "lh_doall_arg lh func arg s = doall_util_fn lh (\<lambda>d. func d arg) s"

definition lh_num_items :: "'d lhash option \<Rightarrow> nat" where
  "lh_num_items lh = (case lh of None \<Rightarrow> 0 | Some lh \<Rightarrow> lh_items lh)"

text \<open>\<^verbatim>\<open>lh_strhash\<close> on the characters of a C string; \<^verbatim>\<open>char\<close> is signed.\<close>

fun strhash_loop :: "u64 \<Rightarrow> u64 \<Rightarrow> byte list \<Rightarrow> u64" where
  "strhash_loop ret n [] = ret"
| "strhash_loop ret n (c # cs) =
     (let v = n OR scast c;
          n = n + 0x100;
          r = unat ((drop_bit 2 v XOR v) AND 0x0f);
          ret = push_bit r ret OR drop_bit (32 - r) ret;
          ret = ret AND 0xFFFFFFFF;
          ret = ret XOR (v * v)
      in strhash_loop ret n cs)"

definition lh_strhash :: "byte list option \<Rightarrow> u64" where
  "lh_strhash c =
     (case c of None \<Rightarrow> 0
      | Some c \<Rightarrow> if c = [] then 0 else let ret = strhash_loop 0 0x100 c in drop_bit 16 ret XOR ret)"

text \<open>\<^verbatim>\<open>strcmp\<close> of the C library, the default comparison, on the characters before the terminating null.\<close>

fun strcmp :: "byte list \<Rightarrow> byte list \<Rightarrow> int" where
  "strcmp [] [] = 0"
| "strcmp [] (y # ys) = - 1"
| "strcmp (x # xs) [] = 1"
| "strcmp (x # xs) (y # ys) = (if x = y then strcmp xs ys else int (unat x) - int (unat y))"


section \<open>Buckets\<close>

definition bucket_of :: "nat \<Rightarrow> nat \<Rightarrow> u64 \<Rightarrow> nat" where
  "bucket_of p pmax h = (if unat h mod pmax < p then unat h mod (2 * pmax) else unat h mod pmax)"

lemma bucket_cases:
  assumes "0 < M"
  obtains a b where "a < M" "b = a \<or> b = a + M" "unat h mod (2 * M) = b" "\<And>p. bucket_of p M h = (if a < p then b else a)"
proof
  show "unat h mod M < M"
    using assms by simp
  have "unat h div M mod 2 = 0 \<or> unat h div M mod 2 = 1"
    by linarith
  then show "unat h mod (2 * M) = unat h mod M \<or> unat h mod (2 * M) = unat h mod M + M"
    using mod_mult2_eq [of "unat h" M 2] by (auto simp: mult.commute)
qed (simp_all add: bucket_of_def)

lemma bucket_full:
  assumes "0 < M"
  shows "bucket_of M M h = bucket_of 0 (2 * M) h"
  using bucket_cases [OF assms, of h] by (metis bucket_of_def not_less_zero)

lemma bucket_lt:
  assumes "p \<le> M" "0 < M"
  shows "bucket_of p M h < M + p"
  using assms by (cases rule: bucket_cases [OF assms(2), of h]) auto

lemma bucket_Suc:
  assumes "q < M"
  shows "bucket_of q M h = (if bucket_of (Suc q) M h = q + M then q else bucket_of (Suc q) M h)"
proof -
  have "0 < M"
    using assms by simp
  then show ?thesis
    using assms by (cases rule: bucket_cases [of M h]) auto
qed

lemma bucket_Suc_split:
  assumes "q < M" "bucket_of q M h = q"
  shows "bucket_of (Suc q) M h = (if unat h mod (2 * M) = q then q else q + M)"
proof -
  have "0 < M"
    using assms by simp
  then show ?thesis
    using assms by (cases rule: bucket_cases [of M h]) (auto split: if_splits)
qed

lemma bucket_Suc_same: "q < M \<Longrightarrow> bucket_of q M h \<noteq> q \<Longrightarrow> bucket_of (Suc q) M h = bucket_of q M h"
  using bucket_Suc [of q M h] by (auto split: if_splits)

lemma expand_move_eq:
  "expand_move nni p ns n2 = (filter (\<lambda>n. unat (snd n) mod nni = p) ns, rev (filter (\<lambda>n. unat (snd n) mod nni \<noteq> p) ns) @ n2)"
  by (induction ns arbitrary: n2) auto

section \<open>The table as a map\<close>

text \<open>
  What the table asks of its callbacks: the comparison is an equality up to which the data are
  keys, and the hash depends on the key only.
\<close>

locale lhash_keys =
  fixes comp :: "'d \<Rightarrow> 'd \<Rightarrow> int" and hash :: "'d \<Rightarrow> u64"
  assumes comp_refl: "comp a a = 0"
    and comp_sym: "comp a b = 0 \<Longrightarrow> comp b a = 0"
    and comp_trans: "comp a b = 0 \<Longrightarrow> comp b c = 0 \<Longrightarrow> comp a c = 0"
    and hash_key: "comp a b = 0 \<Longrightarrow> hash a = hash b"
begin

definition chain_inv :: "nat \<Rightarrow> nat \<Rightarrow> nat \<Rightarrow> 'd node list \<Rightarrow> bool" where
  "chain_inv p pmax i c \<longleftrightarrow> (\<forall>n\<in>set c. snd n = hash (fst n) \<and> bucket_of p pmax (hash (fst n)) = i) \<and>
     sorted_wrt (\<lambda>m n. comp (fst m) (fst n) \<noteq> 0) c"

definition table_inv :: "nat \<Rightarrow> nat \<Rightarrow> 'd node list list \<Rightarrow> bool" where
  "table_inv p pmax b \<longleftrightarrow> length b = 2 * pmax \<and> (\<forall>i<length b. chain_inv p pmax i (b ! i))"

definition lh_inv :: "'d lhash \<Rightarrow> bool" where
  "lh_inv lh \<longleftrightarrow>
     lh_comp lh = comp \<and> lh_hash lh = hash \<and> lh_p lh < lh_pmax lh \<and> (\<exists>k. lh_pmax lh = 8 * 2 ^ k) \<and>
     lh_num_alloc_nodes lh = 2 * lh_pmax lh \<and> lh_num_nodes lh = lh_pmax lh + lh_p lh \<and>
     table_inv (lh_p lh) (lh_pmax lh) (lh_b lh) \<and> lh_items lh = sum_list (map length (lh_b lh))"

definition nodes :: "'d node list list \<Rightarrow> 'd node set" where
  "nodes b = set (concat b)"

lemma nodes_iff: "n \<in> nodes b \<longleftrightarrow> (\<exists>i<length b. n \<in> set (b ! i))"
  unfolding nodes_def set_concat UN_iff by (metis in_set_conv_nth)

lemma nodes_two:
  "i < length b \<Longrightarrow> j < length b \<Longrightarrow> nodes b = set (b ! i) \<union> set (b ! j) \<union> (\<Union>k\<in>{..<length b} - {i, j}. set (b ! k))"
  by (auto simp: set_eq_iff nodes_iff)

lemma nodes_update2:
  assumes "i < length b" "j < length b" "i \<noteq> j"
  shows "nodes (b[j := d, i := c]) = set c \<union> set d \<union> (\<Union>k\<in>{..<length b} - {i, j}. set (b ! k))"
  using assms nodes_two [of i "b[j := d, i := c]" j] by auto

definition lookup :: "'d node list list \<Rightarrow> 'd \<Rightarrow> 'd option" where
  "lookup b x = map_option fst (find (\<lambda>n. comp (fst n) x = 0) (concat b))"

lemma comp_cong:
  assumes "comp a b = 0"
  shows "comp a c = 0 \<longleftrightarrow> comp b c = 0" "comp c a = 0 \<longleftrightarrow> comp c b = 0"
  using assms comp_sym comp_trans by blast+

lemma find_chain:
  assumes "sorted_wrt (\<lambda>m n. comp (fst m) (fst n) \<noteq> 0) c" "n \<in> set c" "comp (fst n) x = 0"
  shows "find (\<lambda>n. comp (fst n) x = 0) c = Some n"
  using assms by (induction c) (auto dest: comp_trans [OF _ comp_sym])

lemma chain_eq:
  assumes "sorted_wrt (\<lambda>m n. comp (fst m) (fst n) \<noteq> 0) c" "m \<in> set c" "n \<in> set c" "comp (fst m) (fst n) = 0"
  shows "m = n"
  using find_chain [OF assms(1,2,4)] find_chain [OF assms(1,3) comp_refl] by simp

lemma table_bucket:
  assumes "table_inv p pmax b" "p \<le> pmax" "0 < pmax" "n \<in> nodes b"
  shows "n \<in> set (b ! bucket_of p pmax (hash (fst n)))" "snd n = hash (fst n)"
proof -
  obtain i where "i < length b" "n \<in> set (b ! i)"
    using assms(4) nodes_iff by blast
  then show "n \<in> set (b ! bucket_of p pmax (hash (fst n)))" "snd n = hash (fst n)"
    using assms(1) unfolding table_inv_def chain_inv_def by metis+
qed

lemma nodes_eq:
  assumes "table_inv p pmax b" "p \<le> pmax" "0 < pmax" "m \<in> nodes b" "n \<in> nodes b" "comp (fst m) (fst n) = 0"
  shows "m = n"
proof -
  let ?i = "bucket_of p pmax (hash (fst m))"
  have "?i < length b"
    using bucket_lt [OF assms(2,3), of "hash (fst m)"] assms(1,2) by (simp add: table_inv_def)
  then have "sorted_wrt (\<lambda>m n. comp (fst m) (fst n) \<noteq> 0) (b ! ?i)"
    using assms(1) by (simp add: table_inv_def chain_inv_def)
  then show ?thesis
    using chain_eq table_bucket(1) [OF assms(1-3)] assms(4-6) hash_key [OF assms(6)] by metis
qed

text \<open>What is found is the node of the key, wherever it is.\<close>

lemma lookup_iff:
  assumes "table_inv p pmax b" "p \<le> pmax" "0 < pmax"
  shows "lookup b x = Some d \<longleftrightarrow> (\<exists>h. (d, h) \<in> nodes b) \<and> comp d x = 0"
proof
  assume "lookup b x = Some d"
  then show "(\<exists>h. (d, h) \<in> nodes b) \<and> comp d x = 0"
    unfolding lookup_def nodes_def map_option_eq_Some find_Some_iff by (metis nth_mem prod.collapse)
next
  assume "(\<exists>h. (d, h) \<in> nodes b) \<and> comp d x = 0"
  then obtain h where d: "(d, h) \<in> nodes b" "comp d x = 0"
    by blast
  then obtain n where n: "find (\<lambda>n. comp (fst n) x = 0) (concat b) = Some n"
    by (cases "find (\<lambda>n. comp (fst n) x = 0) (concat b)") (auto simp: find_None_iff nodes_def simp del: set_concat)
  then have "n \<in> nodes b" "comp (fst n) x = 0"
    by (auto simp: find_Some_iff nodes_def simp del: set_concat)
  then have "n = (d, h)"
    using nodes_eq [OF assms, of n "(d, h)"] d(1) comp_trans [OF _ comp_sym [OF d(2)], of "fst n"] by simp
  then show "lookup b x = Some d"
    using n by (simp add: lookup_def)
qed

lemma lookup_cong:
  assumes "table_inv p pmax b" "p \<le> pmax" "0 < pmax" "table_inv p' pmax' b'" "p' \<le> pmax'" "0 < pmax'" "nodes b' = nodes b"
  shows "lookup b' = lookup b"
proof
  fix x
  have "lookup b' x = Some d \<longleftrightarrow> lookup b x = Some d" for d
    unfolding lookup_iff [OF assms(1-3)] lookup_iff [OF assms(4-6)] assms(7) ..
  then show "lookup b' x = lookup b x"
    by (metis not_Some_eq)
qed

lemma chain_pos_eq:
  "\<forall>n\<in>set c. snd n = hash (fst n) \<Longrightarrow> fst (chain_pos comp (hash x) x c) = length (takeWhile (\<lambda>n. comp (fst n) x \<noteq> 0) c)"
  by (induction c) (auto split: prod.splits dest: hash_key)

lemma takeWhile_find:
  "find P c = (if length (takeWhile (\<lambda>n. \<not> P n) c) = length c then None else Some (c ! length (takeWhile (\<lambda>n. \<not> P n) c)))"
  by (induction c) auto

lemma lookup_bucket:
  assumes "table_inv p pmax b" "p \<le> pmax" "0 < pmax"
  shows "lookup b x = map_option fst (find (\<lambda>n. comp (fst n) x = 0) (b ! bucket_of p pmax (hash x)))"
proof (cases "find (\<lambda>n. comp (fst n) x = 0) (b ! bucket_of p pmax (hash x))")
  case None
  have "lookup b x \<noteq> Some d" for d
  proof
    assume "lookup b x = Some d"
    then obtain h where h: "(d, h) \<in> nodes b" "comp d x = 0"
      unfolding lookup_iff [OF assms] by blast
    from table_bucket(1) [OF assms h(1)] have "(d, h) \<in> set (b ! bucket_of p pmax (hash x))"
      using hash_key [OF h(2)] by simp
    then show False
      using None h(2) by (auto simp: find_None_iff)
  qed
  then show ?thesis
    using None by (cases "lookup b x") auto
next
  case (Some n)
  have "bucket_of p pmax (hash x) < length b"
    using bucket_lt [OF assms(2,3), of "hash x"] assms by (simp add: table_inv_def)
  moreover have "n \<in> set (b ! bucket_of p pmax (hash x))" "comp (fst n) x = 0"
    using Some by (auto simp: find_Some_iff)
  ultimately have "(fst n, snd n) \<in> nodes b"
    unfolding nodes_iff by auto
  then have "lookup b x = Some (fst n)"
    unfolding lookup_iff [OF assms] using \<open>comp (fst n) x = 0\<close> by blast
  then show ?thesis
    using Some by simp
qed

lemma lh_inv_table: "lh_inv lh \<Longrightarrow> table_inv (lh_p lh) (lh_pmax lh) (lh_b lh) \<and> lh_p lh \<le> lh_pmax lh \<and> 0 < lh_pmax lh"
  by (auto simp: lh_inv_def)

text \<open>The search, on a table whose counters it changes only.\<close>

definition found :: "'d lhash \<Rightarrow> 'd \<Rightarrow> nat \<Rightarrow> nat \<Rightarrow> bool" where
  "found lh x nn k \<longleftrightarrow>
     nn < length (lh_b lh) \<and> nn = bucket_of (lh_p lh) (lh_pmax lh) (hash x) \<and> chain_inv (lh_p lh) (lh_pmax lh) nn (lh_b lh ! nn) \<and>
     k \<le> length (lh_b lh ! nn) \<and> lookup (lh_b lh) x = (if k = length (lh_b lh ! nn) then None else Some (fst (lh_b lh ! nn ! k))) \<and>
     (k < length (lh_b lh ! nn) \<longrightarrow> comp (fst (lh_b lh ! nn ! k)) x = 0) \<and> (\<forall>j<k. comp (fst (lh_b lh ! nn ! j)) x \<noteq> 0)"

lemma getrn_inv:
  assumes inv: "lh_inv lh"
  shows "\<exists>nn k a s c. getrn lh x = ((nn, k), hash x, lh\<lparr>lh_num_hash_calls := a, lh_num_hash_comps := s, lh_num_comp_calls := c\<rparr>) \<and> found lh x nn k"
proof -
  let ?nn = "bucket_of (lh_p lh) (lh_pmax lh) (hash x)" and ?P = "\<lambda>n. comp (fst n) x = 0"
  let ?c = "lh_b lh ! ?nn"
  let ?k = "length (takeWhile (\<lambda>n. \<not> ?P n) ?c)"
  note t = lh_inv_table [OF inv]
  have nn: "?nn < length (lh_b lh)"
    using bucket_lt [of "lh_p lh" "lh_pmax lh" "hash x"] t by (simp add: table_inv_def)
  then have c: "chain_inv (lh_p lh) (lh_pmax lh) ?nn ?c"
    using t by (simp add: table_inv_def)
  then have k: "fst (chain_pos comp (hash x) x ?c) = ?k"
    by (intro chain_pos_eq) (simp add: chain_inv_def)
  have "(if unat (hash x) mod lh_pmax lh < lh_p lh then unat (hash x) mod lh_num_alloc_nodes lh else unat (hash x) mod lh_pmax lh) = ?nn"
    using inv by (simp add: lh_inv_def bucket_of_def)
  note idx = this
  have h: "lh_hash lh = hash" "lh_comp lh = comp"
    using inv by (simp_all add: lh_inv_def)
  have g: "getrn lh x = ((?nn, ?k), hash x, lh\<lparr>lh_num_hash_calls := lh_num_hash_calls lh + 1,
      lh_num_hash_comps := lh_num_hash_comps lh + fst (snd (chain_pos comp (hash x) x ?c)),
      lh_num_comp_calls := lh_num_comp_calls lh + snd (snd (chain_pos comp (hash x) x ?c))\<rparr>)"
    using k unfolding getrn_def Let_def h idx by (cases "chain_pos comp (hash x) x ?c") simp
  have l: "lookup (lh_b lh) x = (if ?k = length ?c then None else Some (fst (?c ! ?k)))"
    using lookup_bucket [of "lh_p lh" "lh_pmax lh" "lh_b lh" x] t by (simp add: takeWhile_find)
  have m: "comp (fst (?c ! ?k)) x = 0" if "?k < length ?c"
    using nth_length_takeWhile [OF that] by simp
  have j: "comp (fst (?c ! j)) x \<noteq> 0" if "j < ?k" for j
    using set_takeWhileD [OF nth_mem [OF that]] takeWhile_nth [OF that] by simp
  have "found lh x ?nn ?k"
    unfolding found_def using nn c length_takeWhile_le l m j by blast
  then show ?thesis
    using g by blast
qed

lemma chain_inv_filter: "chain_inv p pmax i c \<Longrightarrow> \<forall>n\<in>set c. Q n \<longrightarrow> bucket_of p' pmax (hash (fst n)) = j \<Longrightarrow> chain_inv p' pmax j (filter Q c)"
  by (auto simp: chain_inv_def sorted_wrt_filter)

lemma chain_inv_rev: "chain_inv p pmax i c \<Longrightarrow> chain_inv p pmax i (rev c)"
proof -
  have "sorted_wrt (\<lambda>m n. comp (fst m) (fst n) \<noteq> 0) c \<Longrightarrow> sorted_wrt (\<lambda>m n. comp (fst n) (fst m) \<noteq> 0) c"
    by (rule sorted_wrt_mono_rel) (auto dest: comp_sym)
  then show "chain_inv p pmax i c \<Longrightarrow> chain_inv p pmax i (rev c)"
    by (simp add: chain_inv_def sorted_wrt_rev)
qed

text \<open>Splitting bucket \<open>p\<close>.\<close>

lemma split_table:
  assumes t: "table_inv p pmax b" and p: "p < pmax" and m: "expand_move (2 * pmax) p (b ! p) [] = (n1, n2)"
  defines "b' \<equiv> b[p + pmax := n2, p := n1]"
  shows "table_inv (Suc p) pmax b'" "nodes b' = nodes b" "sum_list (map length b') = sum_list (map length b)"
proof -
  let ?Q = "\<lambda>n. unat (hash (fst n)) mod (2 * pmax) = p"
  have len: "length b = 2 * pmax" and c: "\<And>i. i < length b \<Longrightarrow> chain_inv p pmax i (b ! i)"
    using t by (auto simp: table_inv_def)
  have cp: "chain_inv p pmax p (b ! p)"
    using c len p by simp
  then have "filter (\<lambda>n. unat (snd n) mod (2 * pmax) = p) (b ! p) = filter ?Q (b ! p)"
      "filter (\<lambda>n. unat (snd n) mod (2 * pmax) \<noteq> p) (b ! p) = filter (\<lambda>n. \<not> ?Q n) (b ! p)"
    by (auto simp: chain_inv_def intro!: filter_cong)
  then have n: "n1 = filter ?Q (b ! p)" "n2 = rev (filter (\<lambda>n. \<not> ?Q n) (b ! p))"
    using m by (auto simp: expand_move_eq)
  have split: "bucket_of (Suc p) pmax (hash (fst n)) = (if ?Q n then p else p + pmax)" if "n \<in> set (b ! p)" for n
    using bucket_Suc_split [OF p, of "hash (fst n)"] cp that by (simp add: chain_inv_def)
  have empty: "b ! (p + pmax) = []"
    using c [of "p + pmax"] bucket_lt [of p pmax "hash (fst (hd (b ! (p + pmax))))"] p len
    by (cases "b ! (p + pmax)") (auto simp: chain_inv_def)
  have "chain_inv (Suc p) pmax i (b' ! i)" if i: "i < length b" for i
  proof -
    consider "i = p" | "i = p + pmax" | "i \<noteq> p" "i \<noteq> p + pmax"
      by blast
    then show ?thesis
    proof cases
      case 1
      then show ?thesis
        using i chain_inv_filter [OF cp, of ?Q "Suc p" p] split by (simp add: b'_def n)
    next
      case 2
      then show ?thesis
        using i p chain_inv_rev [OF chain_inv_filter [OF cp, of "\<lambda>n. \<not> ?Q n" "Suc p" "p + pmax"]] split by (simp add: b'_def n)
    next
      case 3
      then show ?thesis
        using c [OF i] bucket_Suc_same [OF p] by (auto simp: b'_def chain_inv_def)
    qed
  qed
  then show "table_inv (Suc p) pmax b'"
    by (simp add: table_inv_def b'_def len)
  have "set n1 \<union> set n2 = set (b ! p)" and lens: "length n1 + length n2 = length (b ! p)"
    using sum_length_filter_compl [of ?Q "b ! p"] by (auto simp: n)
  then show "nodes b' = nodes b"
    using empty p len nodes_update2 [of p b "p + pmax" n2 n1] nodes_two [of p b "p + pmax"] by (simp add: b'_def)
  show "sum_list (map length b') = sum_list (map length b)"
    using empty p len lens by (simp add: b'_def map_update sum_list_update)
qed

text \<open>Merging the last bucket into its partner.\<close>

lemma merge_table:
  assumes t: "table_inv (Suc q) M b" and q: "q < M"
  defines "b' \<equiv> b[q + M := [], q := b ! q @ b ! (q + M)]"
  shows "table_inv q M b'" "nodes b' = nodes b" "sum_list (map length b') = sum_list (map length b)"
proof -
  have len: "length b = 2 * M" and c: "\<And>i. i < length b \<Longrightarrow> chain_inv (Suc q) M i (b ! i)"
    using t by (auto simp: table_inv_def)
  have cq: "chain_inv (Suc q) M q (b ! q)" "chain_inv (Suc q) M (q + M) (b ! (q + M))"
    using c len q by simp_all
  have "comp (fst m) (fst n) \<noteq> 0" if "m \<in> set (b ! q)" "n \<in> set (b ! (q + M))" for m n
    using cq that q hash_key [of "fst m" "fst n"] by (auto simp: chain_inv_def)
  then have "chain_inv q M q (b ! q @ b ! (q + M))"
    using cq bucket_Suc [OF q] q by (auto simp: chain_inv_def sorted_wrt_append)
  moreover have "chain_inv q M i (b ! i)" if "i < length b" "i \<noteq> q" "i \<noteq> q + M" for i
    using c [OF that(1)] that(3) bucket_Suc [OF q] by (auto simp: chain_inv_def)
  moreover have "chain_inv q M (q + M) []"
    by (simp add: chain_inv_def)
  ultimately show "table_inv q M b'"
    using q len by (auto simp: table_inv_def b'_def nth_list_update)
  show "nodes b' = nodes b"
    using q len nodes_update2 [of q b "q + M" "[]" "b ! q @ b ! (q + M)"] nodes_two [of q b "q + M"] by (simp add: b'_def)
  have "length (b ! (q + M)) \<le> sum_list (map length b)" "length (b ! q) + length (b ! (q + M)) \<le> sum_list (map length b)"
    using q len elem_le_sum_list [of "q + M" "map length b"] elem_le_sum_list [of q "(map length b)[q + M := 0]"]
    by (simp_all add: sum_list_update)
  then show "sum_list (map length b') = sum_list (map length b)"
    using q len by (simp add: b'_def map_update sum_list_update)
qed

text \<open>The table at the end of a round of splits is the next larger one at its start.\<close>

lemma chain_inv_full: "0 < M \<Longrightarrow> chain_inv M M i c = chain_inv 0 (2 * M) i c"
  by (simp add: chain_inv_def bucket_full)

lemma grow_table:
  assumes "table_inv M M b" "0 < M"
  shows "table_inv 0 (2 * M) (b @ replicate (2 * M) [])" "nodes (b @ replicate (2 * M) []) = nodes b"
  using assms by (auto simp: table_inv_def chain_inv_def nodes_def nth_append bucket_full)

lemma table_upper_empty:
  assumes "table_inv 0 M b" "0 < M"
  shows "drop M b = replicate M []"
proof (rule nth_equalityI)
  show "length (drop M b) = length (replicate M [])"
    using assms by (simp add: table_inv_def)
  fix i assume "i < length (drop M b)"
  then have "chain_inv 0 M (M + i) (b ! (M + i))" "i < M"
    using assms by (auto simp: table_inv_def)
  then have "b ! (M + i) = []"
    using bucket_lt [of 0 M "hash (fst (hd (b ! (M + i))))"] assms(2) by (cases "b ! (M + i)") (auto simp: chain_inv_def)
  then show "drop M b ! i = replicate M [] ! i"
    using \<open>i < M\<close> assms(1) by (simp add: table_inv_def)
qed

lemma shrink_table:
  assumes "table_inv 0 (2 * M) b" "0 < M"
  shows "table_inv M M (take (2 * M) b)" "nodes (take (2 * M) b) = nodes b" "sum_list (map length (take (2 * M) b)) = sum_list (map length b)"
proof -
  have "drop (2 * M) b = replicate (2 * M) []"
    using table_upper_empty [OF assms(1)] assms(2) by simp
  then have b: "b = take (2 * M) b @ replicate (2 * M) []"
    by (metis append_take_drop_id)
  show "table_inv M M (take (2 * M) b)"
    using assms by (simp add: table_inv_def chain_inv_full)
  show "nodes (take (2 * M) b) = nodes b"
    by (subst (2) b) (simp add: nodes_def)
  show "sum_list (map length (take (2 * M) b)) = sum_list (map length b)"
    by (subst (2) b) (simp add: sum_list_replicate)
qed

lemma expand_inv:
  assumes inv: "lh_inv lh"
  shows "lh_inv (expand True lh)" "nodes (lh_b (expand True lh)) = nodes (lh_b lh)"
proof -
  let ?p = "lh_p lh" and ?M = "lh_pmax lh"
  obtain n1 n2 where m: "expand_move (2 * ?M) ?p (lh_b lh ! ?p) [] = (n1, n2)"
    by fastforce
  have p: "?p < ?M" and t: "table_inv ?p ?M (lh_b lh)" and na: "lh_num_alloc_nodes lh = 2 * ?M"
    using inv by (simp_all add: lh_inv_def)
  note s = split_table [OF t p m]
  show "lh_inv (expand True lh)"
  proof (cases "Suc ?p = ?M")
    case True
    then have "table_inv 0 (2 * ?M) ((lh_b lh)[?p + ?M := n2, ?p := n1] @ replicate (2 * ?M) [])"
      using grow_table [of ?M "(lh_b lh)[?p + ?M := n2, ?p := n1]"] s(1) p by simp
    moreover obtain k where "?M = 8 * 2 ^ k"
      using inv by (auto simp: lh_inv_def)
    then have "\<exists>k. 2 * ?M = 8 * 2 ^ k"
      by (intro exI [of _ "Suc k"]) simp
    ultimately show ?thesis
      using inv True m s(3) p by (simp add: lh_inv_def expand_def na Let_def sum_list_replicate)
  next
    case False
    then show ?thesis
      using inv m s(1,3) p by (simp add: lh_inv_def expand_def na Let_def)
  qed
  show "nodes (lh_b (expand True lh)) = nodes (lh_b lh)"
  proof (cases "Suc ?p = ?M")
    case True
    then have "nodes ((lh_b lh)[?p + ?M := n2, ?p := n1] @ replicate (2 * ?M) []) = nodes (lh_b lh)"
      using grow_table(2) [of ?M "(lh_b lh)[?p + ?M := n2, ?p := n1]"] s(1,2) p by simp
    then show ?thesis
      using True m by (simp add: expand_def na Let_def)
  next
    case False
    then show ?thesis
      using m s(2) p by (simp add: expand_def na Let_def)
  qed
qed

lemma contract_merge_inv:
  assumes t: "table_inv (Suc q) M b" and q: "q < M" and M: "M = 8 * 2 ^ k"
    and lh: "lh_comp lh = comp" "lh_hash lh = hash" "lh_p lh = q" "lh_pmax lh = M" "lh_num_alloc_nodes lh = 2 * M" "lh_num_nodes lh = Suc (M + q)"
      "lh_b lh = b[q + M := []]" "lh_items lh = sum_list (map length b)"
  shows "lh_inv (contract_merge (b ! (q + M)) lh) \<and> nodes (lh_b (contract_merge (b ! (q + M)) lh)) = nodes b"
proof -
  have "q < length b" "b[q + M := []] ! q = b ! q"
    using t q by (simp_all add: table_inv_def)
  then have b: "lh_b (contract_merge (b ! (q + M)) lh) = b[q + M := [], q := b ! q @ b ! (q + M)]"
    using lh(3,7) by (simp add: contract_merge_def Let_def)
  have rest: "lh_comp (contract_merge np lh) = comp" "lh_hash (contract_merge np lh) = hash" "lh_p (contract_merge np lh) = q"
    "lh_pmax (contract_merge np lh) = M" "lh_num_alloc_nodes (contract_merge np lh) = 2 * M" "lh_num_nodes (contract_merge np lh) = M + q"
    "lh_items (contract_merge np lh) = sum_list (map length b)" for np
    using lh by (simp_all add: contract_merge_def Let_def)
  show ?thesis
    unfolding lh_inv_def b rest using merge_table [OF t q] q M by auto
qed

lemma contract_inv:
  assumes inv: "lh_inv lh" and n: "MIN_NODES < lh_num_nodes lh"
  shows "lh_inv (contract True lh) \<and> nodes (lh_b (contract True lh)) = nodes (lh_b lh)"
proof -
  let ?p = "lh_p lh" and ?M = "lh_pmax lh"
  have p: "?p < ?M" and t: "table_inv ?p ?M (lh_b lh)" and rest: "lh_comp lh = comp" "lh_hash lh = hash"
      "lh_num_alloc_nodes lh = 2 * ?M" "lh_num_nodes lh = ?M + ?p" "lh_items lh = sum_list (map length (lh_b lh))"
    using inv by (simp_all add: lh_inv_def)
  obtain k where k: "?M = 8 * 2 ^ k"
    using inv by (auto simp: lh_inv_def)
  then obtain k' where k': "k = Suc k'"
    using n p rest(4) by (cases k) (auto simp: MIN_NODES_def)
  show ?thesis
  proof (cases "?p = 0")
    case True
    define q where "q = 8 * 2 ^ k' - (1 :: nat)"
    have H: "Suc q = 8 * 2 ^ k'" and M: "?M = 2 * Suc q"
      using k k' by (simp_all add: q_def)
    then have idx: "?M - Suc 0 = q + Suc q" "?M div 2 = Suc q" "lh_num_alloc_nodes lh div 2 = 2 * Suc q"
      using True rest(3) by simp_all
    note s = shrink_table [OF t [unfolded True M] zero_less_Suc, folded M]
    have b: "take ?M ((lh_b lh)[Suc (q + q) := []]) = (take ?M (lh_b lh))[Suc (q + q) := []]" "take ?M (lh_b lh) ! Suc (q + q) = lh_b lh ! Suc (q + q)"
      using M by (simp_all add: take_update_swap)
    let ?lh = "lh\<lparr>lh_num_contract_reallocs := lh_num_contract_reallocs lh + 1, lh_num_alloc_nodes := 2 * Suc q, lh_pmax := Suc q, lh_p := q,
      lh_b := (take ?M (lh_b lh))[q + Suc q := []]\<rparr>"
    have "contract True lh = contract_merge (take ?M (lh_b lh) ! (q + Suc q)) ?lh"
      using True by (simp add: contract_def Let_def idx b)
    moreover have "lh_inv (contract_merge (take ?M (lh_b lh) ! (q + Suc q)) ?lh) \<and> nodes (lh_b (contract_merge (take ?M (lh_b lh) ! (q + Suc q)) ?lh)) = nodes (take ?M (lh_b lh))"
      using rest True M s(3) by (intro contract_merge_inv [OF s(1) lessI H]) simp_all
    ultimately show ?thesis
      by (simp only: s(2) simp_thms)
  next
    case False
    then obtain q where q: "?p = Suc q"
      by (cases ?p) auto
    then have "contract True lh = contract_merge (lh_b lh ! (q + ?M)) (lh\<lparr>lh_b := (lh_b lh)[q + ?M := []], lh_p := q\<rparr>)"
      by (simp add: contract_def)
    then show ?thesis
      using contract_merge_inv [of q ?M "lh_b lh" k "lh\<lparr>lh_b := (lh_b lh)[q + ?M := []], lh_p := q\<rparr>"] t p q k rest by simp
  qed
qed

text \<open>
  The table abstractly: a function from keys to the data stored for them. Data that compare equal
  are the same key.
\<close>

definition spec_insert :: "'d \<Rightarrow> ('d \<Rightarrow> 'd option) \<Rightarrow> 'd \<Rightarrow> 'd option" where
  "spec_insert d m = (\<lambda>x. if comp d x = 0 then Some d else m x)"

definition spec_delete :: "'d \<Rightarrow> ('d \<Rightarrow> 'd option) \<Rightarrow> 'd \<Rightarrow> 'd option" where
  "spec_delete d m = (\<lambda>x. if comp d x = 0 then None else m x)"

lemma find_chain_iff:
  assumes "sorted_wrt (\<lambda>m n. comp (fst m) (fst n) \<noteq> 0) c"
  shows "map_option fst (find (\<lambda>n. comp (fst n) x = 0) c) = Some d \<longleftrightarrow> (\<exists>h. (d, h) \<in> set c) \<and> comp d x = 0"
proof
  assume "map_option fst (find (\<lambda>n. comp (fst n) x = 0) c) = Some d"
  then obtain h where "find (\<lambda>n. comp (fst n) x = 0) c = Some (d, h)"
    by auto
  then show "(\<exists>h. (d, h) \<in> set c) \<and> comp d x = 0"
    unfolding find_Some_iff by (metis fst_conv nth_mem)
next
  assume "(\<exists>h. (d, h) \<in> set c) \<and> comp d x = 0"
  then obtain h where "(d, h) \<in> set c" "comp d x = 0"
    by blast
  then show "map_option fst (find (\<lambda>n. comp (fst n) x = 0) c) = Some d"
    using find_chain [OF assms, of "(d, h)" x] by simp
qed

lemma lookup_eqI:
  assumes "table_inv p pmax b" "p \<le> pmax" "0 < pmax"
    and "\<And>x d. m x = Some d \<longleftrightarrow> (\<exists>h. (d, h) \<in> nodes b) \<and> comp d x = 0"
  shows "lookup b = m"
proof
  fix x
  have "lookup b x = Some d \<longleftrightarrow> m x = Some d" for d
    unfolding lookup_iff [OF assms(1-3)] assms(4) ..
  then show "lookup b x = m x"
    by (metis not_Some_eq)
qed

lemma nodes_update:
  assumes "i < length b"
  shows "nodes (b[i := c]) = set c \<union> (\<Union>k\<in>{..<length b} - {i}. set (b ! k))" "nodes b = set (b ! i) \<union> (\<Union>k\<in>{..<length b} - {i}. set (b ! k))"
  using assms by (auto simp: set_eq_iff nodes_iff nth_list_update split: if_splits)

lemma table_update:
  assumes "table_inv p pmax b" "i < length b" "chain_inv p pmax i c"
  shows "table_inv p pmax (b[i := c])" "sum_list (map length (b[i := c])) + length (b ! i) = sum_list (map length b) + length c"
proof -
  show "table_inv p pmax (b[i := c])"
    using assms by (simp add: table_inv_def nth_list_update)
  have "length (b ! i) \<le> sum_list (map length b)"
    using assms(2) elem_le_sum_list [of i "map length b"] by simp
  then show "sum_list (map length (b[i := c])) + length (b ! i) = sum_list (map length b) + length c"
    using assms(2) by (simp add: map_update sum_list_update)
qed

text \<open>A key that is in the table is in the chain of its bucket only.\<close>

lemma lookup_other:
  assumes t: "table_inv p pmax b" "p \<le> pmax" "0 < pmax" and i: "i = bucket_of p pmax (hash x)" "i < length b"
    and c: "chain_inv p pmax i c" and keep: "\<And>n. comp (fst n) x \<noteq> 0 \<Longrightarrow> n \<in> set c \<longleftrightarrow> n \<in> set (b ! i)"
    and r: "map_option fst (find (\<lambda>n. comp (fst n) x = 0) c) = r"
  shows "lookup (b[i := c]) = (\<lambda>y. if comp x y = 0 then r else lookup b y)"
proof (rule lookup_eqI [OF table_update(1) [OF t(1) i(2) c] t(2,3)])
  fix y d
  have nodes: "(d, h) \<in> nodes (b[i := c]) \<longleftrightarrow> (d, h) \<in> nodes b" if "comp d x \<noteq> 0" for h
    using keep [of "(d, h)"] that unfolding nodes_update [OF i(2)] by simp
  have here: "(d, h) \<in> nodes (b[i := c]) \<longleftrightarrow> (d, h) \<in> set c" if "comp d x = 0" for h
  proof
    assume "(d, h) \<in> nodes (b[i := c])"
    from table_bucket(1) [OF table_update(1) [OF t(1) i(2) c] t(2,3) this] show "(d, h) \<in> set c"
      using i hash_key [OF that] by simp
  qed (simp add: nodes_update [OF i(2)])
  show "(if comp x y = 0 then r else lookup b y) = Some d \<longleftrightarrow>
      (\<exists>h. (d, h) \<in> nodes (b[i := c])) \<and> comp d y = 0"
  proof (cases "comp x y = 0")
    case True
    then have "comp d y = 0 \<longleftrightarrow> comp d x = 0"
      using comp_trans comp_sym by blast
    moreover have "r = Some d \<longleftrightarrow> (\<exists>h. (d, h) \<in> set c) \<and> comp d x = 0"
      using c find_chain_iff unfolding chain_inv_def r [symmetric] by blast
    ultimately show ?thesis
      using True here by auto
  next
    case False
    then have "comp d y = 0 \<Longrightarrow> comp d x \<noteq> 0"
      using comp_trans comp_sym by blast
    then show ?thesis
      using False nodes lookup_iff [OF t] by auto
  qed
qed

text \<open>The three ways in which an operation changes a chain.\<close>

lemma chain_append:
  assumes c: "chain_inv p pmax i c" and x: "bucket_of p pmax (hash x) = i" "\<And>j. j < length c \<Longrightarrow> comp (fst (c ! j)) x \<noteq> 0"
  shows "chain_inv p pmax i (c @ [(x, hash x)])" "find (\<lambda>n. comp (fst n) x = 0) (c @ [(x, hash x)]) = Some (x, hash x)"
proof -
  have "comp (fst n) x \<noteq> 0" if "n \<in> set c" for n
    using that x(2) by (auto simp: in_set_conv_nth)
  then show inv: "chain_inv p pmax i (c @ [(x, hash x)])"
    using c x(1) by (auto simp: chain_inv_def sorted_wrt_append)
  show "find (\<lambda>n. comp (fst n) x = 0) (c @ [(x, hash x)]) = Some (x, hash x)"
    using inv comp_refl by (intro find_chain) (auto simp: chain_inv_def)
qed

lemma chain_replace:
  assumes c: "chain_inv p pmax i c" and k: "k < length c" "comp (fst (c ! k)) x = 0"
  shows "chain_inv p pmax i (c[k := (x, snd (c ! k))])" "find (\<lambda>n. comp (fst n) x = 0) (c[k := (x, snd (c ! k))]) = Some (x, snd (c ! k))"
    "comp (fst n) x \<noteq> 0 \<Longrightarrow> n \<in> set (c[k := (x, snd (c ! k))]) \<longleftrightarrow> n \<in> set c"
proof -
  let ?c = "c[k := (x, snd (c ! k))]"
  have s: "comp (fst (c ! a)) (fst (c ! b)) \<noteq> 0" if "a < b" "b < length c" for a b
    using c that by (simp add: chain_inv_def sorted_wrt_iff_nth_less)
  have "comp (fst (?c ! a)) (fst (?c ! b)) \<noteq> 0" if "a < b" "b < length c" for a b
    using s [OF that] that k(1) comp_cong [OF k(2)] by (auto simp: nth_list_update)
  then have "sorted_wrt (\<lambda>m n. comp (fst m) (fst n) \<noteq> 0) ?c"
    by (simp add: sorted_wrt_iff_nth_less)
  moreover have "snd (c ! k) = hash x" "bucket_of p pmax (hash x) = i"
    using c nth_mem [OF k(1)] hash_key [OF k(2)] by (metis chain_inv_def)+
  ultimately show inv: "chain_inv p pmax i ?c"
    using c unfolding chain_inv_def by (auto dest!: set_update_subset_insert [THEN subsetD])
  show "find (\<lambda>n. comp (fst n) x = 0) ?c = Some (x, snd (c ! k))"
    using inv comp_refl k(1) by (intro find_chain) (auto simp: chain_inv_def set_update_memI)
  show "comp (fst n) x \<noteq> 0 \<Longrightarrow> n \<in> set ?c \<longleftrightarrow> n \<in> set c"
    using k comp_refl [of x] by (auto simp: in_set_conv_nth nth_list_update)
qed

lemma chain_delete:
  assumes c: "chain_inv p pmax i c" and k: "k < length c" "comp (fst (c ! k)) x = 0"
  shows "chain_inv p pmax i (take k c @ drop (Suc k) c)" "find (\<lambda>n. comp (fst n) x = 0) (take k c @ drop (Suc k) c) = None"
    "comp (fst n) x \<noteq> 0 \<Longrightarrow> n \<in> set (take k c @ drop (Suc k) c) \<longleftrightarrow> n \<in> set c"
proof -
  obtain xs ys where xs: "c = xs @ c ! k # ys" "take k c = xs" "drop (Suc k) c = ys"
    using id_take_nth_drop [OF k(1)] by blast
  have inv: "chain_inv p pmax i (xs @ c ! k # ys)"
    using c xs(1) by simp
  then show "chain_inv p pmax i (take k c @ drop (Suc k) c)"
    unfolding xs(2,3) by (auto simp: chain_inv_def sorted_wrt_append)
  have "comp (fst m) x \<noteq> 0" if "m \<in> set (xs @ ys)" for m
    using inv that comp_cong(2) [OF k(2), of "fst m"] comp_sym [of "fst m" "fst (c ! k)"]
    by (auto simp: chain_inv_def sorted_wrt_append)
  then show "find (\<lambda>n. comp (fst n) x = 0) (take k c @ drop (Suc k) c) = None"
    unfolding xs(2,3) find_None_iff by blast
  show "comp (fst n) x \<noteq> 0 \<Longrightarrow> n \<in> set (take k c @ drop (Suc k) c) \<longleftrightarrow> n \<in> set c"
    unfolding xs(2,3) using k(2) by (subst xs(1)) auto
qed

lemma lh_inv_frame [simp]:
  "lh_inv (lh\<lparr>lh_error := e\<rparr>) = lh_inv lh" "lh_inv (lh\<lparr>lh_num_hash_calls := a, lh_num_hash_comps := s, lh_num_comp_calls := c\<rparr>) = lh_inv lh"
  by (simp_all add: lh_inv_def)

lemma lh_inv_update:
  assumes "lh_inv lh" "i < length (lh_b lh)" "chain_inv (lh_p lh) (lh_pmax lh) i c" "n + length (lh_b lh ! i) = lh_items lh + length c"
  shows "lh_inv (lh\<lparr>lh_b := (lh_b lh)[i := c], lh_items := n\<rparr>)"
  using assms table_update [of "lh_p lh" "lh_pmax lh" "lh_b lh" i c] by (auto simp: lh_inv_def)

lemma retrieve_spec:
  assumes "lh_inv lh" "lh_retrieve x lh = (r, lh')"
  shows "lh_inv lh'" "r = lookup (lh_b lh) x" "lh_b lh' = lh_b lh"
proof -
  let ?lh = "lh\<lparr>lh_error := 0\<rparr>"
  have "lh_inv ?lh"
    using assms(1) by simp
  from getrn_inv [OF this, of x] obtain nn k a s c where
    get: "getrn ?lh x = ((nn, k), hash x, ?lh\<lparr>lh_num_hash_calls := a, lh_num_hash_comps := s, lh_num_comp_calls := c\<rparr>)" and f: "found ?lh x nn k"
    by blast
  show "lh_inv lh'" "r = lookup (lh_b lh) x" "lh_b lh' = lh_b lh"
    using assms get f by (auto simp: lh_retrieve_def lh_inv_def found_def split: if_splits)
qed

lemma insert_room_inv:
  assumes inv: "lh_inv lh"
  shows "lh_inv (insert_room True lh)" "lookup (lh_b (insert_room True lh)) = lookup (lh_b lh)"
proof -
  show 1: "lh_inv (insert_room True lh)"
    using inv expand_inv(1) [OF inv] by (simp add: insert_room_def)
  have "nodes (lh_b (insert_room True lh)) = nodes (lh_b lh)"
    using expand_inv(2) [OF inv] by (simp add: insert_room_def)
  then show "lookup (lh_b (insert_room True lh)) = lookup (lh_b lh)"
    using lh_inv_table [OF inv] lh_inv_table [OF 1] by (intro lookup_cong) auto
qed

lemma insert_spec:
  assumes inv: "lh_inv lh" and r: "lh_insert (True, ok) d lh = (r, lh')"
  shows "lh_inv lh'" "r = lookup (lh_b lh) d"
    "lookup (lh_b lh') = (if ok \<or> lookup (lh_b lh) d \<noteq> None then spec_insert d (lookup (lh_b lh)) else lookup (lh_b lh))"
proof -
  define lh1 where "lh1 = insert_room True (lh\<lparr>lh_error := 0\<rparr>)"
  have g: "lh_inv lh1" "lookup (lh_b lh1) = lookup (lh_b lh)"
    using insert_room_inv [of "lh\<lparr>lh_error := 0\<rparr>"] inv by (simp_all add: lh1_def)
  obtain nn k a s c where get: "getrn lh1 d = ((nn, k), hash d, lh1\<lparr>lh_num_hash_calls := a, lh_num_hash_comps := s, lh_num_comp_calls := c\<rparr>)" and f: "found lh1 d nn k"
    using getrn_inv [OF g(1), of d] by blast
  let ?c = "lh_b lh1 ! nn" and ?lh = "lh1\<lparr>lh_num_hash_calls := a, lh_num_hash_comps := s, lh_num_comp_calls := c\<rparr>"
  note t = lh_inv_table [OF g(1)]
  have nn: "nn < length (lh_b lh1)" "nn = bucket_of (lh_p lh1) (lh_pmax lh1) (hash d)" and ch: "chain_inv (lh_p lh1) (lh_pmax lh1) nn ?c"
    and k: "k \<le> length ?c" "lookup (lh_b lh1) d = (if k = length ?c then None else Some (fst (?c ! k)))"
      "k < length ?c \<Longrightarrow> comp (fst (?c ! k)) d = 0" "\<And>j. j < k \<Longrightarrow> comp (fst (?c ! j)) d \<noteq> 0"
    using f unfolding found_def by blast+
  have ins: "lh_insert (True, ok) d lh =
      (if k = length ?c then
        if \<not> ok then (None, ?lh\<lparr>lh_error := lh_error ?lh + 1\<rparr>)
        else (None, ?lh\<lparr>lh_b := (lh_b lh1)[nn := ?c @ [(d, hash d)]], lh_num_insert := lh_num_insert ?lh + 1, lh_items := lh_items lh1 + 1\<rparr>)
      else (Some (fst (?c ! k)), ?lh\<lparr>lh_b := (lh_b lh1)[nn := ?c[k := (d, snd (?c ! k))]], lh_num_replace := lh_num_replace ?lh + 1\<rparr>))"
    using get by (simp add: lh_insert_def lh1_def [symmetric] Let_def)
  have "lh_inv lh' \<and> r = lookup (lh_b lh1) d \<and>
      lookup (lh_b lh') = (if ok \<or> lookup (lh_b lh1) d \<noteq> None then spec_insert d (lookup (lh_b lh1)) else lookup (lh_b lh1))"
  proof (cases "k = length ?c")
    case True
    note a = chain_append [OF ch nn(2) [symmetric], unfolded True [symmetric], OF k(4)]
    have "lh_inv (lh1\<lparr>lh_b := (lh_b lh1)[nn := ?c @ [(d, hash d)]], lh_items := lh_items lh1 + 1\<rparr>)"
      using lh_inv_update [OF g(1) nn(1) a(1)] by simp
    moreover have "lookup ((lh_b lh1)[nn := ?c @ [(d, hash d)]]) = spec_insert d (lookup (lh_b lh1))"
    proof -
      have "n \<in> set (?c @ [(d, hash d)]) \<longleftrightarrow> n \<in> set ?c" if "comp (fst n) d \<noteq> 0" for n
        using that comp_refl [of d] by auto
      from lookup_other [OF _ _ _ nn(2,1) a(1) this] t a(2) show ?thesis
        by (simp add: spec_insert_def)
    qed
    ultimately show ?thesis
      using True k(2) g(1) r ins by (auto simp: lh_inv_def)
  next
    case False
    then have lt: "k < length ?c"
      using k(1) by simp
    note a = chain_replace [OF ch lt k(3) [OF lt]]
    have "lh_inv (lh1\<lparr>lh_b := (lh_b lh1)[nn := ?c[k := (d, snd (?c ! k))]], lh_items := lh_items lh1\<rparr>)"
      using lh_inv_update [OF g(1) nn(1) a(1)] by simp
    moreover have "lookup ((lh_b lh1)[nn := ?c[k := (d, snd (?c ! k))]]) = spec_insert d (lookup (lh_b lh1))"
      using lookup_other [OF _ _ _ nn(2,1) a(1,3)] a(2) t by (simp add: spec_insert_def)
    ultimately show ?thesis
      using False k(2) r ins by (auto simp: lh_inv_def)
  qed
  then show "lh_inv lh'" "r = lookup (lh_b lh) d"
    "lookup (lh_b lh') = (if ok \<or> lookup (lh_b lh) d \<noteq> None then spec_insert d (lookup (lh_b lh)) else lookup (lh_b lh))"
    unfolding g(2) by blast+
qed

lemma delete_room_inv:
  assumes inv: "lh_inv lh"
  shows "lh_inv (delete_room True lh)" "lookup (lh_b (delete_room True lh)) = lookup (lh_b lh)"
proof -
  have "lh_inv (delete_room True lh) \<and> nodes (lh_b (delete_room True lh)) = nodes (lh_b lh)"
    using inv contract_inv [OF inv] by (simp add: delete_room_def)
  then show 1: "lh_inv (delete_room True lh)" and "lookup (lh_b (delete_room True lh)) = lookup (lh_b lh)"
    using lh_inv_table [OF inv] lh_inv_table [of "delete_room True lh"] by (auto intro!: lookup_cong)
qed

lemma delete_spec:
  assumes inv: "lh_inv lh" and r: "lh_delete True d lh = (r, lh')"
  shows "lh_inv lh'" "r = lookup (lh_b lh) d" "lookup (lh_b lh') = spec_delete d (lookup (lh_b lh))"
proof -
  let ?lh0 = "lh\<lparr>lh_error := 0\<rparr>"
  have g: "lh_inv ?lh0"
    using inv by simp
  obtain nn k a s c where get: "getrn ?lh0 d = ((nn, k), hash d, ?lh0\<lparr>lh_num_hash_calls := a, lh_num_hash_comps := s, lh_num_comp_calls := c\<rparr>)"
    and f: "found ?lh0 d nn k"
    using getrn_inv [OF g, of d] by blast
  let ?c = "lh_b lh ! nn" and ?lh = "?lh0\<lparr>lh_num_hash_calls := a, lh_num_hash_comps := s, lh_num_comp_calls := c\<rparr>"
  note t = lh_inv_table [OF inv]
  have nn: "nn < length (lh_b lh)" "nn = bucket_of (lh_p lh) (lh_pmax lh) (hash d)" and ch: "chain_inv (lh_p lh) (lh_pmax lh) nn ?c"
    and k: "k \<le> length ?c" "lookup (lh_b lh) d = (if k = length ?c then None else Some (fst (?c ! k)))"
      "k < length ?c \<Longrightarrow> comp (fst (?c ! k)) d = 0"
    using f unfolding found_def by auto
  show "lh_inv lh'" "r = lookup (lh_b lh) d" "lookup (lh_b lh') = spec_delete d (lookup (lh_b lh))"
  proof (atomize (full), cases "k = length ?c")
    case True
    have "lookup (lh_b lh) y = None" if "comp d y = 0" for y
      using True k(2) that lookup_iff [of "lh_p lh" "lh_pmax lh" "lh_b lh"] t comp_cong(2) [OF that] by (metis not_Some_eq)
    then show "lh_inv lh' \<and> r = lookup (lh_b lh) d \<and> lookup (lh_b lh') = spec_delete d (lookup (lh_b lh))"
      using True r get k(2) inv by (auto simp: lh_delete_def lh_inv_def spec_delete_def)
  next
    case False
    then have lt: "k < length ?c"
      using k(1) by simp
    let ?d = "take k ?c @ drop (Suc k) ?c"
    let ?lh1 = "?lh\<lparr>lh_b := (lh_b lh)[nn := ?d], lh_num_delete := lh_num_delete lh + 1, lh_items := lh_items lh - 1\<rparr>"
    note a = chain_delete [OF ch lt k(3) [OF lt]]
    have "0 < lh_items lh"
      using inv nn(1) lt elem_le_sum_list [of nn "map length (lh_b lh)"] by (auto simp: lh_inv_def)
    then have "lh_inv (lh\<lparr>lh_b := (lh_b lh)[nn := ?d], lh_items := lh_items lh - 1\<rparr>)"
      using lt by (intro lh_inv_update [OF inv nn(1) a(1)]) auto
    then have 1: "lh_inv ?lh1"
      by (simp add: lh_inv_def)
    have "lookup ((lh_b lh)[nn := ?d]) = spec_delete d (lookup (lh_b lh))"
      using lookup_other [OF _ _ _ nn(2,1) a(1,3)] a(2) t by (simp add: spec_delete_def)
    moreover have "r = lookup (lh_b lh) d" "lh' = delete_room True ?lh1"
      using False r get k(2) by (auto simp: lh_delete_def Let_def)
    ultimately show "lh_inv lh' \<and> r = lookup (lh_b lh) d \<and> lookup (lh_b lh') = spec_delete d (lookup (lh_b lh))"
      using delete_room_inv [OF 1] by simp
  qed
qed

lemma new_inv:
  assumes "lh_new ok hash comp = Some lh"
  shows "lh_inv lh" "lookup (lh_b lh) = (\<lambda>x. None)"
proof -
  have "\<exists>k. 8 = 8 * (2 :: nat) ^ k"
    by (rule exI [of _ 0]) simp
  then show "lh_inv lh"
    using assms by (auto simp: lh_new_def lh_inv_def table_inv_def chain_inv_def MIN_NODES_def sum_list_replicate split: if_splits)
  show "lookup (lh_b lh) = (\<lambda>x. None)"
    using assms by (auto simp: lh_new_def lookup_def fun_eq_iff find_None_iff split: if_splits)
qed
end

section \<open>Sequences of operations\<close>

datatype 'd lh_op = Op_insert 'd | Op_delete 'd | Op_retrieve 'd

fun lh_step :: "'d lh_op \<Rightarrow> 'd lhash \<Rightarrow> 'd option \<times> 'd lhash" where
  "lh_step (Op_insert d) lh = lh_insert (True, True) d lh"
| "lh_step (Op_delete d) lh = lh_delete True d lh"
| "lh_step (Op_retrieve d) lh = lh_retrieve d lh"

fun lh_run :: "'d lh_op list \<Rightarrow> 'd lhash \<Rightarrow> 'd option list \<times> 'd lhash" where
  "lh_run [] lh = ([], lh)"
| "lh_run (c # cs) lh = (case lh_step c lh of (r, lh) \<Rightarrow> case lh_run cs lh of (rs, lh) \<Rightarrow> (r # rs, lh))"

fun map_step :: "('d \<Rightarrow> 'd \<Rightarrow> int) \<Rightarrow> 'd lh_op \<Rightarrow> ('d \<Rightarrow> 'd option) \<Rightarrow> 'd option \<times> ('d \<Rightarrow> 'd option)" where
  "map_step cf (Op_insert d) m = (m d, \<lambda>x. if cf d x = 0 then Some d else m x)"
| "map_step cf (Op_delete d) m = (m d, \<lambda>x. if cf d x = 0 then None else m x)"
| "map_step cf (Op_retrieve d) m = (m d, m)"

fun map_run :: "('d \<Rightarrow> 'd \<Rightarrow> int) \<Rightarrow> 'd lh_op list \<Rightarrow> ('d \<Rightarrow> 'd option) \<Rightarrow> 'd option list" where
  "map_run cf [] m = []"
| "map_run cf (c # cs) m = (case map_step cf c m of (r, m) \<Rightarrow> r # map_run cf cs m)"

context lhash_keys
begin

lemma step_spec:
  assumes "lh_inv lh" "lh_step c lh = (r, lh')"
  shows "lh_inv lh' \<and> map_step comp c (lookup (lh_b lh)) = (r, lookup (lh_b lh'))"
proof (cases c)
  case (Op_insert d)
  then show ?thesis
    using insert_spec [OF assms(1), of True d r lh'] assms(2) by (simp add: spec_insert_def)
next
  case (Op_delete d)
  then show ?thesis
    using delete_spec [OF assms(1), of d r lh'] assms(2) by (simp add: spec_delete_def)
next
  case (Op_retrieve d)
  then show ?thesis
    using retrieve_spec [OF assms(1), of d r lh'] assms(2) by simp
qed

lemma run_spec:
  assumes "lh_inv lh"
  shows "lh_inv (snd (lh_run cs lh)) \<and> fst (lh_run cs lh) = map_run comp cs (lookup (lh_b lh))"
  using assms
proof (induction cs arbitrary: lh)
  case (Cons c cs)
  obtain r lh' where s: "lh_step c lh = (r, lh')"
    by fastforce
  then show ?case
    using step_spec [OF Cons.prems s] Cons.IH [of lh'] by (auto split: prod.splits)
qed simp

text \<open>
  When the array cannot be enlarged, \<^verbatim>\<open>expand\<close> has moved nodes to the upper half, but sets \<^verbatim>\<open>p\<close> to 0, after
  which the upper half is not searched.
\<close>

lemma expand_failure:
  assumes inv: "lh_inv lh" and p: "Suc (lh_p lh) = lh_pmax lh" and d: "lookup (lh_b lh) d = Some d" "lh_pmax lh \<le> unat (hash d) mod (2 * lh_pmax lh)"
  shows "fst (lh_retrieve d (expand False lh)) = None"
proof -
  let ?M = "lh_pmax lh" and ?p = "lh_p lh"
  obtain n1 n2 where m: "expand_move (2 * ?M) ?p (lh_b lh ! ?p) [] = (n1, n2)"
    by fastforce
  have t: "table_inv ?p ?M (lh_b lh)" and p': "?p < ?M" and rest: "lh_num_alloc_nodes lh = 2 * ?M" "lh_hash lh = hash" "lh_comp lh = comp"
    using inv by (auto simp: lh_inv_def)
  let ?b = "(lh_b lh)[?p + ?M := n2, ?p := n1]" and ?i = "unat (hash d) mod ?M"
  have t': "table_inv ?M ?M ?b"
    using split_table(1) [OF t p' m] p by simp
  have i: "?i < ?M"
    using p' by (intro mod_less_divisor) simp
  then have ch: "chain_inv ?M ?M ?i (?b ! ?i)"
    using t' by (auto simp: table_inv_def)
  have "comp (fst n) d \<noteq> 0" if "n \<in> set (?b ! ?i)" for n
  proof
    assume "comp (fst n) d = 0"
    then have "bucket_of ?M ?M (hash d) = ?i"
      using ch that hash_key by (metis chain_inv_def)
    then show False
      using d(2) i by (simp add: bucket_of_def)
  qed
  then have "takeWhile (\<lambda>n. comp (fst n) d \<noteq> 0) (?b ! ?i) = ?b ! ?i"
    unfolding takeWhile_eq_all_conv by blast
  then have k: "fst (chain_pos comp (hash d) d (?b ! ?i)) = length (?b ! ?i)"
    using chain_pos_eq [of "?b ! ?i" d] ch unfolding chain_inv_def by metis
  have e: "lh_b (expand False lh) = ?b" "lh_p (expand False lh) = 0" "lh_pmax (expand False lh) = ?M" "lh_hash (expand False lh) = hash"
      "lh_comp (expand False lh) = comp"
    using m p rest by (simp_all add: expand_def Let_def)
  have "getrn ((expand False lh)\<lparr>lh_error := 0\<rparr>) d = ((?i, length (?b ! ?i)), r) \<Longrightarrow> ?thesis" for r
    using e(1) by (cases r) (auto simp: lh_retrieve_def getrn_def e Let_def split: prod.splits)
  moreover have "fst (getrn ((expand False lh)\<lparr>lh_error := 0\<rparr>) d) = (?i, length (?b ! ?i))"
    using k by (cases "chain_pos comp (hash d) d (?b ! ?i)") (simp add: getrn_def e Let_def)
  ultimately show ?thesis
    by (metis prod.collapse)
qed

lemma contract_failure:
  assumes inv: "lh_inv lh" and p: "lh_p lh = 0" and d: "unat (hash d) mod lh_pmax lh = lh_pmax lh - 1"
  shows "fst (lh_retrieve d (contract False lh)) = None"
proof -
  have "lh_pmax lh - 1 < length (lh_b lh)" "lh_hash lh = hash" "lh_comp lh = comp"
    using inv by (auto simp: lh_inv_def table_inv_def)
  then show ?thesis
    using p d by (simp add: lh_retrieve_def getrn_def contract_def Let_def)
qed
end

text \<open>The default table, of C strings.\<close>

lemma strcmp_0: "strcmp a b = 0 \<longleftrightarrow> a = b"
  by (induction a b rule: strcmp.induct) (auto intro: unsigned_word_eqI)

interpretation str_keys: lhash_keys strcmp "\<lambda>s. lh_strhash (Some s)"
  by unfold_locales (simp_all add: strcmp_0)

text \<open>Keys that are numbers, as the tests of the interface use them.\<close>

definition num_comp :: "u64 \<Rightarrow> u64 \<Rightarrow> int" where
  "num_comp a b = (if a = b then 0 else 1)"

interpretation num_keys: lhash_keys num_comp "\<lambda>n. n"
  by unfold_locales (simp_all add: num_comp_def split: if_splits)

section \<open>Properties\<close>

text \<open>
  C3. A new table with any comparison that is an equivalence, and any hash that respects it, behaves
  like a map from keys to data under any sequence of \<^verbatim>\<open>lh_insert\<close>, \<^verbatim>\<open>lh_delete\<close> and \<^verbatim>\<open>lh_retrieve\<close>, as long as
  memory is available: each call returns what the map holds for the key, through all splits and merges
  of buckets.
\<close>

theorem lhash_refines_map:
  assumes "lhash_keys cf hash" "lh_new (True, True) hash cf = Some lh"
  shows "fst (lh_run cs lh) = map_run cf cs (\<lambda>x. None)"
  using lhash_keys.run_spec [OF assms(1) lhash_keys.new_inv(1) [OF assms]] lhash_keys.new_inv(2) [OF assms] by simp

theorem lhash_refines_map_witness:
  "\<exists>lh. lh_new (True, True) (\<lambda>s. lh_strhash (Some s)) strcmp = Some lh \<and>
    fst (lh_run [Op_insert [1, 2], Op_retrieve [1, 2], Op_delete [1, 2], Op_retrieve [1, 2]] lh) = [None, Some [1, 2], Some [1, 2], None]"
proof -
  obtain lh where "lh_new (True, True) (\<lambda>s. lh_strhash (Some s)) strcmp = Some lh"
    by (simp add: lh_new_def)
  then show ?thesis
    using lhash_refines_map [OF str_keys.lhash_keys_axioms, of lh] by (simp add: strcmp_0 del: lh_run.simps)
qed



text \<open>
  C31. When the array of a table cannot be reallocated, data get lost. \<^verbatim>\<open>expand\<close> has moved nodes to the upper
  half of the array when the allocation fails, and then resets \<^verbatim>\<open>p\<close>, so that the upper half is no longer
  searched; \<^verbatim>\<open>contract\<close> has emptied the last bucket and returns without its nodes.
\<close>

theorem lhash_realloc_failure_loses_data:
  assumes "lhash_keys cf hash" "lhash_keys.lh_inv cf hash lh" "fst (lh_retrieve d lh) = Some d"
  shows "(Suc (lh_p lh) = lh_pmax lh \<and> lh_pmax lh \<le> unat (hash d) mod (2 * lh_pmax lh) \<longrightarrow> fst (lh_retrieve d (expand False lh)) = None) \<and>
    (lh_p lh = 0 \<and> unat (hash d) mod lh_pmax lh = lh_pmax lh - 1 \<longrightarrow> fst (lh_retrieve d (contract False lh)) = None)"
proof -
  have "lhash_keys.lookup cf (lh_b lh) d = Some d"
    using lhash_keys.retrieve_spec(2) [OF assms(1,2), of d] assms(3) by (metis prod.collapse)
  then show ?thesis
    using lhash_keys.expand_failure [OF assms(1,2)] lhash_keys.contract_failure [OF assms(1,2)] by blast
qed

text \<open>A table just before its first enlargement, with one key left.\<close>

definition num_table :: "u64 lhash" where
  "num_table = (the (lh_new (True, True) (\<lambda>n. n) num_comp))
     \<lparr>lh_b := (replicate 16 [])[7 := [(15, 15)]], lh_p := 7, lh_num_nodes := 15, lh_items := 1\<rparr>"

lemma num_table_inv: "num_keys.lh_inv num_table"
proof -
  have "\<exists>k. 8 = 8 * (2 :: nat) ^ k"
    by (rule exI [of _ 0]) simp
  moreover have "num_keys.chain_inv 7 8 i ((replicate 16 [])[7 := [(15, 15)]] ! i)" if "i < 16" for i
    using that by (cases "i = 7") (simp_all add: num_keys.chain_inv_def bucket_of_def)
  ultimately show ?thesis
    by (simp add: num_table_def lh_new_def num_keys.lh_inv_def num_keys.table_inv_def MIN_NODES_def map_update sum_list_update sum_list_replicate)
qed

lemma num_table_15: "fst (lh_retrieve 15 num_table) = Some 15" "lh_p num_table = 7" "lh_pmax num_table = 8"
  by (simp_all add: num_table_def lh_new_def MIN_NODES_def lh_retrieve_def getrn_def num_comp_def)

theorem lhash_realloc_failure_loses_data_witness:
  "fst (lh_retrieve 15 num_table) = Some 15 \<and> fst (lh_retrieve 15 (expand False num_table)) = None"
  using lhash_realloc_failure_loses_data [OF num_keys.lhash_keys_axioms num_table_inv, of 15] num_table_15 by simp

end
