(* ===== verification/Stack.thy ===== *)
theory Stack
  imports Prelude "HOL-Library.Multiset"
begin

unbundle bit_operations_syntax

text \<open>
  The stacks of \<^verbatim>\<open>crypto/stack/stack.c\<close>, which are arrays of pointers that grow, and the binary search of
  \<^verbatim>\<open>crypto/objects/obj_dat.c\<close> that \<^verbatim>\<open>sk_find\<close> uses. A null pointer is \<open>None\<close>. The array has \<^verbatim>\<open>num_alloc\<close> elements,
  of which the first \<^verbatim>\<open>num\<close> are in use; \<open>mem\<close> is what fresh memory holds. Counts are natural numbers: a
  stack holds fewer than 2^30 pointers.
\<close>

section \<open>Definitions\<close>

type_synonym 'a ptr = "'a option"

record 'a stack =
  st_num :: nat
  st_data :: "'a ptr list"
  st_sorted :: bool
  st_num_alloc :: nat
  st_comp :: "('a ptr \<Rightarrow> 'a ptr \<Rightarrow> int) option"

definition SK_MIN_NODES :: nat where
  "SK_MIN_NODES = 4"

text \<open>Most functions return at once when the stack is the null pointer.\<close>

definition null_guard :: "'r \<Rightarrow> ('s \<Rightarrow> 'r \<times> 's) \<Rightarrow> 's option \<Rightarrow> 'r \<times> 's option" where
  "null_guard d f st = (case st of None \<Rightarrow> (d, None) | Some st \<Rightarrow> map_prod (\<lambda>r. r) Some (f st))"

text \<open>\<^verbatim>\<open>reallocarray\<close> to \<open>n\<close> pointers.\<close>

definition regrow :: "(nat \<Rightarrow> 'a ptr) \<Rightarrow> nat \<Rightarrow> 'a ptr list \<Rightarrow> 'a ptr list" where
  "regrow mem n xs = take n xs @ map mem [length xs..<n]"

definition sk_set_cmp_func :: "('a ptr \<Rightarrow> 'a ptr \<Rightarrow> int) option \<Rightarrow> bool \<Rightarrow> 'a stack \<Rightarrow> ('a ptr \<Rightarrow> 'a ptr \<Rightarrow> int) option \<times> 'a stack" where
  "sk_set_cmp_func c same sk = (st_comp sk, sk\<lparr>st_sorted := (if \<not> same then False else st_sorted sk), st_comp := c\<rparr>)"

definition sk_new :: "bool \<times> bool \<Rightarrow> ('a ptr \<Rightarrow> 'a ptr \<Rightarrow> int) option \<Rightarrow> 'a stack option" where
  "sk_new ok c =
     (if \<not> fst ok then None
      else if \<not> snd ok then None
      else Some \<lparr>st_num = 0, st_data = replicate SK_MIN_NODES None, st_sorted = False, st_num_alloc = SK_MIN_NODES, st_comp = c\<rparr>)"

definition sk_new_null :: "bool \<times> bool \<Rightarrow> 'a stack option" where
  "sk_new_null ok = sk_new ok None"

definition sk_dup :: "bool \<times> bool \<times> bool \<Rightarrow> (nat \<Rightarrow> 'a ptr) \<Rightarrow> 'a stack \<Rightarrow> 'a stack option" where
  "sk_dup ok mem sk =
     (case sk_new (fst ok, fst (snd ok)) (st_comp sk) of
        None \<Rightarrow> None
      | Some ret \<Rightarrow>
          if \<not> snd (snd ok) then None
          else
            let s = regrow mem (st_num_alloc sk) (st_data ret) in
            Some (ret\<lparr>st_num := st_num sk, st_data := take (st_num sk) (st_data sk) @ drop (st_num sk) s, st_sorted := st_sorted sk,
                  st_num_alloc := st_num_alloc sk, st_comp := st_comp sk\<rparr>))"

text \<open>The copies, or the pointers that are freed again when one copy fails.\<close>

fun copy_items :: "('a \<Rightarrow> 'a ptr) \<Rightarrow> 'a ptr list \<Rightarrow> 'a ptr list \<Rightarrow> 'a list + 'a ptr list" where
  "copy_items copy_func done [] = Inr done"
| "copy_items copy_func done (x # xs) =
     (case x of
        None \<Rightarrow> copy_items copy_func (done @ [None]) xs
      | Some v \<Rightarrow>
          (case copy_func v of
             None \<Rightarrow> Inl (map the (filter (\<lambda>p. p \<noteq> None) (rev done)))
           | Some w \<Rightarrow> copy_items copy_func (done @ [Some w]) xs))"

definition sk_deep_copy :: "bool \<times> bool \<Rightarrow> ('a \<Rightarrow> 'a ptr) \<Rightarrow> 'a stack \<Rightarrow> 'a stack option" where
  "sk_deep_copy ok copy_func sk =
     (if \<not> fst ok then None
      else
        let num_alloc = (if SK_MIN_NODES < st_num sk then st_num sk else SK_MIN_NODES) in
        if \<not> snd ok then None
        else
          case copy_items copy_func [] (take (st_num sk) (st_data sk)) of
            Inl freed \<Rightarrow> None
          | Inr xs \<Rightarrow>
              Some \<lparr>st_num = st_num sk, st_data = xs @ replicate (num_alloc - st_num sk) None, st_sorted = st_sorted sk, st_num_alloc = num_alloc,
                st_comp = st_comp sk\<rparr>)"

text \<open>The \<^verbatim>\<open>memmove\<close> and the store of \<^verbatim>\<open>sk_insert\<close>, and the \<^verbatim>\<open>memmove\<close> of \<^verbatim>\<open>sk_delete\<close>, in an array with \<open>n\<close> pointers in use.\<close>

definition array_insert :: "nat \<Rightarrow> int \<Rightarrow> 'a ptr \<Rightarrow> 'a ptr list \<Rightarrow> 'a ptr list" where
  "array_insert n loc data xs =
     (if int n \<le> loc \<or> loc < 0 then xs[n := data]
      else let l = nat loc in (take (l + 1) xs @ take (n - l) (drop l xs) @ drop (n + 1) xs)[l := data])"

definition array_delete :: "nat \<Rightarrow> nat \<Rightarrow> 'a ptr list \<Rightarrow> 'a ptr list" where
  "array_delete n l xs = (if l \<noteq> n - 1 then take l xs @ take (n - 1 - l) (drop (l + 1) xs) @ drop (n - 1) xs else xs)"

definition sk_insert :: "bool \<Rightarrow> (nat \<Rightarrow> 'a ptr) \<Rightarrow> 'a ptr \<Rightarrow> int \<Rightarrow> 'a stack option \<Rightarrow> nat \<times> 'a stack option" where
  "sk_insert ok mem data loc =
     null_guard 0 (\<lambda>st.
       let grow = st_num_alloc st \<le> st_num st + 1 in
       if grow \<and> \<not> ok then (0, st)
       else
         let st = (if grow then st\<lparr>st_data := regrow mem (st_num_alloc st * 2) (st_data st), st_num_alloc := st_num_alloc st * 2\<rparr> else st);
             n = st_num st
         in (n + 1, st\<lparr>st_data := array_insert n loc data (st_data st), st_num := n + 1, st_sorted := False\<rparr>))"

definition sk_delete :: "int \<Rightarrow> 'a stack option \<Rightarrow> 'a ptr \<times> 'a stack option" where
  "sk_delete loc =
     null_guard None (\<lambda>st.
       if loc < 0 \<or> int (st_num st) \<le> loc then (None, st)
       else
         let l = nat loc; n = st_num st
         in (st_data st ! l, st\<lparr>st_data := array_delete n l (st_data st), st_num := n - 1\<rparr>))"

text \<open>The first position with a property.\<close>

definition first_index :: "('b \<Rightarrow> bool) \<Rightarrow> 'b list \<Rightarrow> nat option" where
  "first_index P xs = find (\<lambda>i. P (xs ! i)) [0..<length xs]"

definition sk_delete_ptr :: "'a ptr \<Rightarrow> 'a stack \<Rightarrow> 'a ptr \<times> 'a stack option" where
  "sk_delete_ptr p st =
     (if p = None then (None, Some st)
      else
        case first_index (\<lambda>x. x = p) (take (st_num st) (st_data st)) of
          None \<Rightarrow> (None, Some st)
        | Some i \<Rightarrow> sk_delete (int i) (Some st))"

text \<open>
  The binary search: \<open>cmp i\<close> compares the key with element \<open>i\<close>. The loop gives the last position looked at
  and the last result.
\<close>

function bsearch_loop :: "(nat \<Rightarrow> int) \<Rightarrow> nat \<Rightarrow> nat \<Rightarrow> nat \<Rightarrow> int \<Rightarrow> nat \<times> int" where
  "bsearch_loop cmp l h i c =
     (if l < h then
        let i = (l + h) div 2; c = cmp i
        in if c < 0 then bsearch_loop cmp l i i c
           else if 0 < c then bsearch_loop cmp (i + 1) h i c
           else (i, c)
      else (i, c))"
  by pat_completeness auto

termination bsearch_loop
  by (relation "measure (\<lambda>(cmp, l, h, i, c). h - l)") auto

fun bsearch_first :: "(nat \<Rightarrow> int) \<Rightarrow> nat \<Rightarrow> nat" where
  "bsearch_first cmp 0 = 0"
| "bsearch_first cmp (Suc i) = (if cmp i = 0 then bsearch_first cmp i else Suc i)"

definition OBJ_BSEARCH_VALUE_ON_NOMATCH :: nat where
  "OBJ_BSEARCH_VALUE_ON_NOMATCH = 1"

definition OBJ_BSEARCH_FIRST_VALUE_ON_MATCH :: nat where
  "OBJ_BSEARCH_FIRST_VALUE_ON_MATCH = 2"

definition OBJ_bsearch_ex :: "(nat \<Rightarrow> int) \<Rightarrow> nat \<Rightarrow> nat \<Rightarrow> nat option" where
  "OBJ_bsearch_ex cmp num flags =
     (if num = 0 then None
      else
        let (i, c) = bsearch_loop cmp 0 num 0 0 in
        if c \<noteq> 0 \<and> flags AND OBJ_BSEARCH_VALUE_ON_NOMATCH = 0 then None
        else if c = 0 \<and> flags AND OBJ_BSEARCH_FIRST_VALUE_ON_MATCH \<noteq> 0 then Some (bsearch_first cmp i)
        else Some i)"

definition OBJ_bsearch :: "(nat \<Rightarrow> int) \<Rightarrow> nat \<Rightarrow> nat option" where
  "OBJ_bsearch cmp num = OBJ_bsearch_ex cmp num 0"

text \<open>\<open>qsort\<close> is the function of the C library.\<close>

definition sk_sort :: "(('a ptr \<Rightarrow> 'a ptr \<Rightarrow> int) \<Rightarrow> 'a ptr list \<Rightarrow> 'a ptr list) \<Rightarrow> 'a stack \<Rightarrow> 'a stack" where
  "sk_sort qsort st =
     (case st_comp st of
        None \<Rightarrow> st
      | Some comp_func \<Rightarrow>
          if st_sorted st then st
          else st\<lparr>st_data := qsort comp_func (take (st_num st) (st_data st)) @ drop (st_num st) (st_data st), st_sorted := True\<rparr>)"

definition internal_find ::
  "(('a ptr \<Rightarrow> 'a ptr \<Rightarrow> int) \<Rightarrow> 'a ptr list \<Rightarrow> 'a ptr list) \<Rightarrow> 'a ptr \<Rightarrow> nat \<Rightarrow> 'a stack option \<Rightarrow> int \<times> 'a stack option" where
  "internal_find qsort data ret_val_options =
     null_guard (- 1) (\<lambda>st.
       case st_comp st of
         None \<Rightarrow>
           (case first_index (\<lambda>x. x = data) (take (st_num st) (st_data st)) of None \<Rightarrow> (- 1, st) | Some i \<Rightarrow> (int i, st))
       | Some comp_func \<Rightarrow>
           let st = sk_sort qsort st in
           if data = None then (- 1, st)
           else
             case OBJ_bsearch_ex (\<lambda>i. comp_func data (st_data st ! i)) (st_num st) ret_val_options of
               None \<Rightarrow> (- 1, st)
             | Some r \<Rightarrow> (int r, st))"

definition sk_find :: "(('a ptr \<Rightarrow> 'a ptr \<Rightarrow> int) \<Rightarrow> 'a ptr list \<Rightarrow> 'a ptr list) \<Rightarrow> 'a ptr \<Rightarrow> 'a stack option \<Rightarrow> int \<times> 'a stack option" where
  "sk_find qsort data st = internal_find qsort data OBJ_BSEARCH_FIRST_VALUE_ON_MATCH st"

definition sk_find_ex :: "(('a ptr \<Rightarrow> 'a ptr \<Rightarrow> int) \<Rightarrow> 'a ptr list \<Rightarrow> 'a ptr list) \<Rightarrow> 'a ptr \<Rightarrow> 'a stack option \<Rightarrow> int \<times> 'a stack option" where
  "sk_find_ex qsort data st = internal_find qsort data OBJ_BSEARCH_VALUE_ON_NOMATCH st"

definition sk_push :: "bool \<Rightarrow> (nat \<Rightarrow> 'a ptr) \<Rightarrow> 'a ptr \<Rightarrow> 'a stack \<Rightarrow> nat \<times> 'a stack option" where
  "sk_push ok mem data st = sk_insert ok mem data (int (st_num st)) (Some st)"

definition sk_unshift :: "bool \<Rightarrow> (nat \<Rightarrow> 'a ptr) \<Rightarrow> 'a ptr \<Rightarrow> 'a stack option \<Rightarrow> nat \<times> 'a stack option" where
  "sk_unshift ok mem data st = sk_insert ok mem data 0 st"

definition sk_shift :: "'a stack option \<Rightarrow> 'a ptr \<times> 'a stack option" where
  "sk_shift st = (case st of None \<Rightarrow> (None, None) | Some s \<Rightarrow> if st_num s \<le> 0 then (None, st) else sk_delete 0 st)"

definition sk_pop :: "'a stack option \<Rightarrow> 'a ptr \<times> 'a stack option" where
  "sk_pop st = (case st of None \<Rightarrow> (None, None) | Some s \<Rightarrow> if st_num s \<le> 0 then (None, st) else sk_delete (int (st_num s) - 1) st)"

definition sk_zero :: "'a stack option \<Rightarrow> 'a stack option" where
  "sk_zero st =
     (case st of None \<Rightarrow> None
      | Some s \<Rightarrow>
          if st_num s \<le> 0 then st else Some (s\<lparr>st_data := replicate (st_num s) None @ drop (st_num s) (st_data s), st_num := 0\<rparr>))"

text \<open>The pointers that \<^verbatim>\<open>sk_pop_free\<close> hands to the callback, in order.\<close>

definition sk_pop_free :: "'a stack option \<Rightarrow> 'a list" where
  "sk_pop_free st = (case st of None \<Rightarrow> [] | Some s \<Rightarrow> map the (filter (\<lambda>p. p \<noteq> None) (take (st_num s) (st_data s))))"

definition sk_num :: "'a stack option \<Rightarrow> int" where
  "sk_num st = (case st of None \<Rightarrow> - 1 | Some s \<Rightarrow> int (st_num s))"

definition sk_value :: "'a stack option \<Rightarrow> int \<Rightarrow> 'a ptr" where
  "sk_value st i = (case st of None \<Rightarrow> None | Some s \<Rightarrow> if i < 0 \<or> int (st_num s) \<le> i then None else st_data s ! nat i)"

definition sk_set :: "int \<Rightarrow> 'a ptr \<Rightarrow> 'a stack option \<Rightarrow> 'a ptr \<times> 'a stack option" where
  "sk_set i v =
     null_guard None (\<lambda>st. if i < 0 \<or> int (st_num st) \<le> i then (None, st) else (v, st\<lparr>st_data := (st_data st)[nat i := v]\<rparr>))"

definition sk_is_sorted :: "'a stack option \<Rightarrow> bool" where
  "sk_is_sorted st = (case st of None \<Rightarrow> True | Some s \<Rightarrow> st_sorted s)"

section \<open>The stack as a list\<close>

definition sk_wf :: "'a stack \<Rightarrow> bool" where
  "sk_wf st \<longleftrightarrow> st_num st \<le> st_num_alloc st \<and> SK_MIN_NODES \<le> st_num_alloc st \<and> length (st_data st) = st_num_alloc st"

definition sk_list :: "'a stack \<Rightarrow> 'a ptr list" where
  "sk_list st = take (st_num st) (st_data st)"

lemma length_sk_list [simp]: "sk_wf st \<Longrightarrow> length (sk_list st) = st_num st"
  by (simp add: sk_wf_def sk_list_def)

lemma null_guard_Some [simp]: "null_guard d f (Some st) = (fst (f st), Some (snd (f st)))"
  by (simp add: null_guard_def map_prod_def split: prod.splits)

lemma null_guard_None [simp]: "null_guard d f None = (d, None)"
  by (simp add: null_guard_def)

lemma sk_new_wf: "sk_new ok c = Some st \<Longrightarrow> sk_wf st \<and> sk_list st = [] \<and> st_comp st = c"
  by (auto simp: sk_new_def sk_wf_def sk_list_def split: if_splits)

text \<open>Where \<^verbatim>\<open>sk_insert\<close> puts its argument.\<close>

definition ins_pos :: "int \<Rightarrow> nat \<Rightarrow> nat" where
  "ins_pos loc n = (if int n \<le> loc \<or> loc < 0 then n else nat loc)"

lemma array_insert_list:
  assumes "n < length xs"
  shows "length (array_insert n loc d xs) = length xs \<and>
    take (n + 1) (array_insert n loc d xs) = take (ins_pos loc n) (take n xs) @ d # drop (ins_pos loc n) (take n xs)"
proof -
  consider "int n \<le> loc \<or> loc < 0" | l where "loc = int l" "l < n"
    by (metis linorder_not_le nat_int_comparison(2) nonneg_int_cases)
  then show ?thesis
  proof cases
    case 1
    then show ?thesis
      using assms by (simp add: array_insert_def ins_pos_def take_Suc_conv_app_nth)
  next
    case 2
    define as bs where "as = take l xs" and "bs = take (n - l) (drop l xs)"
    obtain z cs where cs: "drop n xs = z # cs"
      using assms by (cases "drop n xs") auto
    have xs: "xs = as @ bs @ z # cs" and len: "length as = l" "length bs = n - l"
      using 2 assms cs by (simp_all add: as_def bs_def) (metis append_take_drop_id drop_drop le_add_diff_inverse2 less_imp_le)
    show ?thesis
      using 2 len by (cases bs) (auto simp: xs array_insert_def ins_pos_def list_update_append Suc_diff_le)
  qed
qed

lemma array_delete_list:
  assumes "l < n" "n \<le> length xs"
  shows "length (array_delete n l xs) = length xs \<and> take (n - 1) (array_delete n l xs) = take l (take n xs) @ drop (l + 1) (take n xs)"
proof -
  define as bs cs where "as = take l xs" and "bs = take (n - Suc l) (drop (Suc l) xs)" and "cs = drop n xs"
  have xs: "xs = as @ xs ! l # bs @ cs" and len: "length as = l" "length bs = n - Suc l"
    using assms id_take_nth_drop [of l xs] append_take_drop_id [of "n - Suc l" "drop (Suc l) xs"]
    by (auto simp: as_def bs_def cs_def)
  then obtain z where "xs = as @ z # bs @ cs"
    by blast
  moreover have "n = Suc (l + length bs)"
    using assms(1) len by simp
  ultimately show ?thesis
    using len(1) by (cases bs) (auto simp: array_delete_def)
qed

lemma sk_insert_list:
  assumes "sk_wf st" "sk_insert True mem d loc (Some st) = (r, st1)"
  shows "\<exists>st'. st1 = Some st' \<and> sk_wf st' \<and> r = st_num st' \<and> st_comp st' = st_comp st \<and> \<not> st_sorted st' \<and>
    sk_list st' = take (ins_pos loc (st_num st)) (sk_list st) @ d # drop (ins_pos loc (st_num st)) (sk_list st)"
proof -
  let ?g = "st_num_alloc st \<le> st_num st + 1"
  let ?a = "if ?g then st_num_alloc st * 2 else st_num_alloc st"
  let ?xs = "if ?g then regrow mem ?a (st_data st) else st_data st"
  have n: "length ?xs = ?a" "st_num st < ?a" "take (st_num st) ?xs = sk_list st"
    using assms(1) by (auto simp: sk_wf_def regrow_def sk_list_def SK_MIN_NODES_def)
  then have lt: "st_num st < length ?xs"
    by (simp only:)
  have "st1 = Some (st\<lparr>st_data := array_insert (st_num st) loc d ?xs, st_num_alloc := ?a, st_num := st_num st + 1, st_sorted := False\<rparr>)"
    and "r = st_num st + 1"
    using assms(2) by (auto simp: sk_insert_def Let_def)
  then show ?thesis
    using array_insert_list [OF lt, of loc d, unfolded n] n(2) assms(1) by (auto simp: sk_wf_def sk_list_def)
qed

lemma sk_delete_list:
  assumes "sk_wf st" "sk_delete loc (Some st) = (r, st1)"
  shows "\<exists>st'. st1 = Some st' \<and> sk_wf st' \<and> st_comp st' = st_comp st \<and> st_sorted st' = st_sorted st \<and>
    (if 0 \<le> loc \<and> loc < int (st_num st) then r = sk_list st ! nat loc \<and> sk_list st' = take (nat loc) (sk_list st) @ drop (nat loc + 1) (sk_list st)
     else r = None \<and> st' = st)"
proof (cases "0 \<le> loc \<and> loc < int (st_num st)")
  case True
  then have l: "nat loc < st_num st" "st_num st \<le> length (st_data st)"
    using assms(1) by (auto simp: sk_wf_def)
  show ?thesis
    using True assms array_delete_list [OF l] l by (auto simp: sk_delete_def Let_def sk_wf_def sk_list_def)
next
  case False
  then show ?thesis
    using assms by (auto simp: sk_delete_def)
qed

section \<open>The binary search\<close>

text \<open>The results of a comparison with the elements of a sorted array: positive, then zero, then negative.\<close>

definition bsearch_order :: "(nat \<Rightarrow> int) \<Rightarrow> nat \<Rightarrow> bool" where
  "bsearch_order cmp num \<longleftrightarrow> (\<forall>i j. i < j \<and> j < num \<longrightarrow> (cmp i < 0 \<longrightarrow> cmp j < 0) \<and> (0 < cmp j \<longrightarrow> 0 < cmp i))"

lemma bsearch_loop_correct:
  assumes "bsearch_order cmp num" "l \<le> h" "h \<le> num" "\<forall>k<l. 0 < cmp k" "\<forall>k. h \<le> k \<and> k < num \<longrightarrow> cmp k < 0"
    and "l < h \<or> i < num \<and> c = cmp i \<and> c \<noteq> 0"
  shows "\<exists>i'. bsearch_loop cmp l h i c = (i', cmp i') \<and> i' < num \<and> (cmp i' \<noteq> 0 \<longrightarrow> (\<forall>k<num. cmp k \<noteq> 0))"
  using assms
proof (induction cmp l h i c rule: bsearch_loop.induct)
  case (1 cmp l h i c)
  show ?case
  proof (cases "l < h")
    case True
    define m where "m = (l + h) div 2"
    have m: "l \<le> m" "m < h" "m < num"
      using True 1(5) by (auto simp: m_def)
    have order: "cmp m < 0 \<Longrightarrow> \<forall>k. m \<le> k \<and> k < num \<longrightarrow> cmp k < 0" "0 < cmp m \<Longrightarrow> \<forall>k<m + 1. 0 < cmp k"
      using 1(3) m(3) unfolding bsearch_order_def by (metis le_neq_implies_less, metis less_antisym Suc_eq_plus1)
    consider "cmp m < 0" | "0 < cmp m" | "cmp m = 0"
      by linarith
    then show ?thesis
    proof cases
      case 1
      then have "\<exists>i'. bsearch_loop cmp l m m (cmp m) = (i', cmp i') \<and> i' < num \<and> (cmp i' \<noteq> 0 \<longrightarrow> (\<forall>k<num. cmp k \<noteq> 0))"
        using "1.IH"(1) [OF True m_def refl] "1.prems"(1,4) m order(1) by auto
      then show ?thesis
        using True 1 by (subst bsearch_loop.simps) (simp add: m_def [symmetric] Let_def del: bsearch_loop.simps)
    next
      case 2
      then have "\<exists>i'. bsearch_loop cmp (m + 1) h m (cmp m) = (i', cmp i') \<and> i' < num \<and> (cmp i' \<noteq> 0 \<longrightarrow> (\<forall>k<num. cmp k \<noteq> 0))"
        using "1.IH"(2) [OF True m_def refl] "1.prems"(1,3,5) m order(2) by auto
      then show ?thesis
        using True 2 by (subst bsearch_loop.simps) (simp add: m_def [symmetric] Let_def del: bsearch_loop.simps)
    next
      case 3
      then show ?thesis
        using True m(3) by (subst bsearch_loop.simps) (simp add: m_def [symmetric] Let_def del: bsearch_loop.simps)
    qed
  next
    case False
    then have "l = h" and c: "i < num" "c = cmp i" "c \<noteq> 0"
      using "1.prems"(2,6) by auto
    then have "\<forall>k<num. cmp k \<noteq> 0"
      using "1.prems"(4,5) by (metis less_irrefl linorder_not_less)
    then show ?thesis
      using False c by (subst bsearch_loop.simps) (simp del: bsearch_loop.simps)
  qed
qed

lemma bsearch_first_le: "bsearch_first cmp i \<le> i"
  by (induction i) auto

lemma bsearch_first_correct:
  assumes "bsearch_order cmp num" "i < num" "cmp i = 0"
  shows "cmp (bsearch_first cmp i) = 0" "\<forall>k<bsearch_first cmp i. cmp k \<noteq> 0"
proof -
  show "cmp (bsearch_first cmp i) = 0"
    using assms(3) by (induction i) auto
  show "\<forall>k<bsearch_first cmp i. cmp k \<noteq> 0"
    using assms(2,3)
  proof (induction i)
    case (Suc i)
    show ?case
    proof (cases "cmp i = 0")
      case False
      have "\<not> cmp i < 0"
        using assms(1) Suc.prems unfolding bsearch_order_def by (metis lessI less_irrefl)
      then have "0 < cmp i"
        using False by simp
      then have "0 < cmp k" if "k < Suc i" for k
        using assms(1) Suc.prems(1) that unfolding bsearch_order_def by (metis Suc_lessD less_antisym)
      then show ?thesis
        using False by (auto simp: less_le)
    qed (use Suc in simp)
  qed simp
qed

lemma OBJ_bsearch_first:
  assumes "bsearch_order cmp num"
  shows "case OBJ_bsearch_ex cmp num OBJ_BSEARCH_FIRST_VALUE_ON_MATCH of
      None \<Rightarrow> \<forall>k<num. cmp k \<noteq> 0
    | Some i \<Rightarrow> i < num \<and> cmp i = 0 \<and> (\<forall>k<i. cmp k \<noteq> 0)"
proof (cases "num = 0")
  case False
  then obtain i where i: "bsearch_loop cmp 0 num 0 0 = (i, cmp i)" "i < num" "cmp i \<noteq> 0 \<longrightarrow> (\<forall>k<num. cmp k \<noteq> 0)"
    using bsearch_loop_correct [OF assms, of 0 num 0 0] by auto
  have flags: "OBJ_BSEARCH_FIRST_VALUE_ON_MATCH AND OBJ_BSEARCH_VALUE_ON_NOMATCH = 0" "OBJ_BSEARCH_FIRST_VALUE_ON_MATCH AND OBJ_BSEARCH_FIRST_VALUE_ON_MATCH \<noteq> 0"
    by (simp_all add: OBJ_BSEARCH_FIRST_VALUE_ON_MATCH_def OBJ_BSEARCH_VALUE_ON_NOMATCH_def)
  show ?thesis
  proof (cases "cmp i = 0")
    case True
    then show ?thesis
      using False i(1,2) flags bsearch_first_correct [OF assms i(2) True] bsearch_first_le [of cmp i]
      by (simp add: OBJ_bsearch_ex_def del: bsearch_loop.simps)
  next
    case c: False
    then show ?thesis
      using False i flags by (simp add: OBJ_bsearch_ex_def del: bsearch_loop.simps)
  qed
qed (simp add: OBJ_bsearch_ex_def)

lemma OBJ_bsearch_any:
  assumes "bsearch_order cmp num"
  shows "case OBJ_bsearch cmp num of None \<Rightarrow> \<forall>k<num. cmp k \<noteq> 0 | Some i \<Rightarrow> i < num \<and> cmp i = 0"
proof (cases "num = 0")
  case False
  then show ?thesis
    using bsearch_loop_correct [OF assms, of 0 num 0 0] by (auto simp: OBJ_bsearch_def OBJ_bsearch_ex_def simp del: bsearch_loop.simps)
qed (simp add: OBJ_bsearch_def OBJ_bsearch_ex_def)

section \<open>Sorting and finding\<close>

text \<open>
  What \<^verbatim>\<open>sk_find\<close> needs: a comparison function that orders the pointers that are not null, and a
  \<^verbatim>\<open>qsort\<close> that sorts by it.
\<close>

locale sk_order =
  fixes c :: "'a ptr \<Rightarrow> 'a ptr \<Rightarrow> int"
    and qsort :: "('a ptr \<Rightarrow> 'a ptr \<Rightarrow> int) \<Rightarrow> 'a ptr list \<Rightarrow> 'a ptr list"
  assumes sign: "c (Some a) (Some b) < 0 \<longleftrightarrow> 0 < c (Some b) (Some a)"
    and trans: "c (Some a) (Some b) \<le> 0 \<Longrightarrow> c (Some b) (Some d) \<le> 0 \<Longrightarrow> c (Some a) (Some d) \<le> 0"
    and qsort_mset: "None \<notin> set xs \<Longrightarrow> mset (qsort c xs) = mset xs"
    and qsort_sorted: "None \<notin> set xs \<Longrightarrow> sorted_wrt (\<lambda>a b. c a b \<le> 0) (qsort c xs)"
begin

lemma le_iff: "c (Some a) (Some b) \<le> 0 \<longleftrightarrow> 0 \<le> c (Some b) (Some a)"
  using sign [of b a] by linarith

lemma order_sorted:
  assumes "sorted_wrt (\<lambda>a b. c a b \<le> 0) xs" "None \<notin> set xs"
  shows "bsearch_order (\<lambda>i. c (Some x) (xs ! i)) (length xs)"
  unfolding bsearch_order_def
proof (intro allI impI)
  fix i j
  assume ij: "i < j \<and> j < length xs"
  have "xs ! i \<noteq> None" "xs ! j \<noteq> None"
    using ij assms(2) by (metis nth_mem order.strict_trans)+
  then obtain a b where ab: "xs ! i = Some a" "xs ! j = Some b"
    by auto
  have le: "c (Some a) (Some b) \<le> 0"
    using sorted_wrt_nth_less [OF assms(1), of i j] ij by (simp add: ab)
  have "c (Some b) (Some x) \<le> 0 \<Longrightarrow> c (Some a) (Some x) \<le> 0" "c (Some x) (Some a) \<le> 0 \<Longrightarrow> c (Some x) (Some b) \<le> 0"
    using trans [OF le, of x] trans [of x a b, OF _ le] by auto
  then show "(c (Some x) (xs ! i) < 0 \<longrightarrow> c (Some x) (xs ! j) < 0) \<and> (0 < c (Some x) (xs ! j) \<longrightarrow> 0 < c (Some x) (xs ! i))"
    unfolding ab using sign [of x a] sign [of x b] by (metis linorder_not_le)
qed

end

text \<open>The \<^verbatim>\<open>sorted\<close> flag is only set when the array is in order.\<close>

definition sk_sorted_ok :: "'a stack \<Rightarrow> bool" where
  "sk_sorted_ok st \<longleftrightarrow> (st_sorted st \<longrightarrow> (case st_comp st of None \<Rightarrow> True | Some c \<Rightarrow> sorted_wrt (\<lambda>a b. c a b \<le> 0) (sk_list st)))"

context sk_order
begin

lemma sk_sort_correct:
  assumes "sk_wf st" "st_comp st = Some c" "sk_sorted_ok st" "None \<notin> set (sk_list st)"
  shows "sk_wf (sk_sort qsort st)" "mset (sk_list (sk_sort qsort st)) = mset (sk_list st)" "st_num (sk_sort qsort st) = st_num st"
    "sorted_wrt (\<lambda>a b. c a b \<le> 0) (sk_list (sk_sort qsort st))" "st_sorted (sk_sort qsort st)" "st_comp (sk_sort qsort st) = Some c"
proof -
  have n: "None \<notin> set (take (st_num st) (st_data st))"
    using assms(4) by (simp add: sk_list_def)
  have len: "length (qsort c (take (st_num st) (st_data st))) = st_num st"
    using arg_cong [OF qsort_mset [OF n], of size] assms(1) by (simp add: sk_wf_def)
  show "sk_wf (sk_sort qsort st)" "mset (sk_list (sk_sort qsort st)) = mset (sk_list st)" "st_num (sk_sort qsort st) = st_num st"
    "sorted_wrt (\<lambda>a b. c a b \<le> 0) (sk_list (sk_sort qsort st))" "st_sorted (sk_sort qsort st)" "st_comp (sk_sort qsort st) = Some c"
    using assms len qsort_mset [OF n] qsort_sorted [OF n] by (auto simp: sk_sort_def sk_wf_def sk_list_def sk_sorted_ok_def)
qed

lemma find_correct:
  assumes "sk_wf st" "st_comp st = Some c" "sk_sorted_ok st" "None \<notin> set (sk_list st)" "sk_find qsort (Some x) (Some st) = (r, st1)"
  shows "\<exists>st'. st1 = Some st' \<and> sk_wf st' \<and> sk_sorted_ok st' \<and> st_comp st' = Some c \<and> mset (sk_list st') = mset (sk_list st) \<and>
    (if \<exists>y\<in>set (sk_list st). c (Some x) y = 0
     then \<exists>i. r = int i \<and> i < st_num st \<and> c (Some x) (sk_list st' ! i) = 0 \<and> (\<forall>k<i. c (Some x) (sk_list st' ! k) \<noteq> 0)
     else r = - 1)"
proof -
  define st' where "st' = sk_sort qsort st"
  note s = sk_sort_correct [OF assms(1-4), folded st'_def]
  have set: "set (sk_list st') = set (sk_list st)" and len: "length (sk_list st') = st_num st"
    using mset_eq_setD [OF s(2)] s(1,3) by auto
  define cmp where "cmp = (\<lambda>i. c (Some x) (sk_list st' ! i))"
  define b where "b = OBJ_bsearch_ex (\<lambda>i. c (Some x) (st_data st' ! i)) (st_num st) OBJ_BSEARCH_FIRST_VALUE_ON_MATCH"
  have "bsearch_order cmp (st_num st)"
    unfolding cmp_def using order_sorted [OF s(4), of x] assms(4) set len by simp
  then have order: "bsearch_order (\<lambda>i. c (Some x) (st_data st' ! i)) (st_num st)"
    using s(3) by (auto simp: bsearch_order_def sk_list_def cmp_def)
  have nth: "k < st_num st \<Longrightarrow> st_data st' ! k = sk_list st' ! k" for k
    using s(3) by (simp add: sk_list_def)
  have found: "case b of None \<Rightarrow> (\<forall>k < st_num st. cmp k \<noteq> 0) | Some i \<Rightarrow> i < st_num st \<and> cmp i = 0 \<and> (\<forall>k<i. cmp k \<noteq> 0)"
    using OBJ_bsearch_first [OF order, folded b_def] by (auto simp: nth cmp_def split: option.splits)
  have r: "st1 = Some st'" "r = (case b of None \<Rightarrow> - 1 | Some i \<Rightarrow> int i)"
    using assms(2,5) s(3) by (auto simp: sk_find_def internal_find_def Let_def st'_def [symmetric] b_def [symmetric] split: option.splits)
  have "(\<exists>y\<in>set (sk_list st). c (Some x) y = 0) \<longleftrightarrow> (\<exists>k < st_num st. cmp k = 0)"
    unfolding set [symmetric] cmp_def len [symmetric] by (metis in_set_conv_nth)
  moreover have "(\<exists>k < st_num st. cmp k = 0) \<longleftrightarrow> b \<noteq> None"
    using found by (auto split: option.splits)
  ultimately have "(\<exists>y\<in>set (sk_list st). c (Some x) y = 0) \<longleftrightarrow> b \<noteq> None"
    by simp
  then show ?thesis
    using r found s by (auto simp: sk_sorted_ok_def cmp_def split: option.splits)
qed

end

section \<open>Sequences of operations\<close>

datatype 'a sk_op = Push "'a ptr" | Unshift "'a ptr" | Insert "'a ptr" int | Delete int | Pop | Shift | Set int "'a ptr" | Zero

text \<open>The result of an operation is a count or a pointer; \<^verbatim>\<open>sk_zero\<close> returns nothing.\<close>

fun sk_step :: "(nat \<Rightarrow> 'a ptr) \<Rightarrow> 'a sk_op \<Rightarrow> 'a stack \<Rightarrow> (nat + 'a ptr) \<times> 'a stack option" where
  "sk_step mem (Push x) st = map_prod Inl (\<lambda>s. s) (sk_push True mem x st)"
| "sk_step mem (Unshift x) st = map_prod Inl (\<lambda>s. s) (sk_unshift True mem x (Some st))"
| "sk_step mem (Insert x loc) st = map_prod Inl (\<lambda>s. s) (sk_insert True mem x loc (Some st))"
| "sk_step mem (Delete loc) st = map_prod Inr (\<lambda>s. s) (sk_delete loc (Some st))"
| "sk_step mem Pop st = map_prod Inr (\<lambda>s. s) (sk_pop (Some st))"
| "sk_step mem Shift st = map_prod Inr (\<lambda>s. s) (sk_shift (Some st))"
| "sk_step mem (Set i v) st = map_prod Inr (\<lambda>s. s) (sk_set i v (Some st))"
| "sk_step mem Zero st = (Inl 0, sk_zero (Some st))"

text \<open>The same operations on a list.\<close>

definition list_delete :: "int \<Rightarrow> 'a ptr list \<Rightarrow> (nat + 'a ptr) \<times> 'a ptr list" where
  "list_delete loc xs =
     (if 0 \<le> loc \<and> loc < int (length xs) then (Inr (xs ! nat loc), take (nat loc) xs @ drop (nat loc + 1) xs) else (Inr None, xs))"

fun list_step :: "'a sk_op \<Rightarrow> 'a ptr list \<Rightarrow> (nat + 'a ptr) \<times> 'a ptr list" where
  "list_step (Push x) xs = (Inl (length xs + 1), xs @ [x])"
| "list_step (Unshift x) xs = (Inl (length xs + 1), x # xs)"
| "list_step (Insert x loc) xs = (Inl (length xs + 1), take (ins_pos loc (length xs)) xs @ x # drop (ins_pos loc (length xs)) xs)"
| "list_step (Delete loc) xs = list_delete loc xs"
| "list_step Pop xs = (if xs = [] then (Inr None, []) else (Inr (last xs), butlast xs))"
| "list_step Shift xs = (case xs of [] \<Rightarrow> (Inr None, []) | x # ys \<Rightarrow> (Inr x, ys))"
| "list_step (Set i v) xs = (if 0 \<le> i \<and> i < int (length xs) then (Inr v, xs[nat i := v]) else (Inr None, xs))"
| "list_step Zero xs = (Inl 0, [])"

lemma sk_insert_step:
  assumes "sk_wf st"
  shows "\<exists>st'. sk_insert True mem x loc (Some st) = (st_num st + 1, Some st') \<and> sk_wf st' \<and>
    sk_list st' = take (ins_pos loc (st_num st)) (sk_list st) @ x # drop (ins_pos loc (st_num st)) (sk_list st)"
proof -
  obtain r st1 where e: "sk_insert True mem x loc (Some st) = (r, st1)"
    by fastforce
  then obtain st' where st': "st1 = Some st'" "sk_wf st'" "r = st_num st'"
      "sk_list st' = take (ins_pos loc (st_num st)) (sk_list st) @ x # drop (ins_pos loc (st_num st)) (sk_list st)"
    using sk_insert_list [OF assms e] by blast
  have "ins_pos loc (st_num st) \<le> st_num st"
    by (auto simp: ins_pos_def)
  then have "st_num st' = st_num st + 1"
    using length_sk_list [OF st'(2), unfolded st'(4)] assms by simp
  then show ?thesis
    using e st' by simp
qed

lemma sk_delete_step:
  assumes "sk_wf st"
  shows "\<exists>st' r. sk_delete loc (Some st) = (r, Some st') \<and> sk_wf st' \<and> list_delete loc (sk_list st) = (Inr r, sk_list st')"
proof -
  obtain r st1 where e: "sk_delete loc (Some st) = (r, st1)"
    by fastforce
  show ?thesis
    using sk_delete_list [OF assms e] e assms by (auto simp: list_delete_def split: if_splits)
qed

lemma sk_step_list:
  assumes "sk_wf st"
  shows "\<exists>st' r. sk_step mem op st = (r, Some st') \<and> sk_wf st' \<and> list_step op (sk_list st) = (r, sk_list st')"
proof -
  have n: "sk_list st = [] \<longleftrightarrow> st_num st = 0"
    using length_sk_list [OF assms] by (metis length_0_conv)
  show ?thesis
  proof (cases op)
    case (Push x)
    then show ?thesis
      using sk_insert_step [OF assms, of mem x "int (st_num st)"] assms by (auto simp: sk_push_def ins_pos_def)
  next
    case (Unshift x)
    then show ?thesis
      using sk_insert_step [OF assms, of mem x 0] assms n by (auto simp: sk_unshift_def ins_pos_def split: if_splits)
  next
    case (Insert x loc)
    then show ?thesis
      using sk_insert_step [OF assms, of mem x loc] assms by auto
  next
    case (Delete loc)
    then show ?thesis
      using sk_delete_step [OF assms, of loc] by auto
  next
    case Pop
    then show ?thesis
      using sk_delete_step [OF assms, of "int (st_num st) - 1"] assms n
      by (auto simp: sk_pop_def list_delete_def last_conv_nth butlast_conv_take nat_diff_distrib' split: if_splits)
  next
    case Shift
    then show ?thesis
      using sk_delete_step [OF assms, of 0] assms n by (cases "sk_list st") (auto simp: sk_shift_def list_delete_def split: if_splits)
  next
    case (Set i v)
    then show ?thesis
      using assms by (auto simp: sk_set_def sk_wf_def sk_list_def take_update_swap)
  next
    case Zero
    then show ?thesis
      using assms n by (auto simp: sk_zero_def sk_wf_def sk_list_def)
  qed
qed

fun sk_run :: "(nat \<Rightarrow> 'a ptr) \<Rightarrow> 'a sk_op list \<Rightarrow> 'a stack \<Rightarrow> ((nat + 'a ptr) list \<times> 'a stack) option" where
  "sk_run mem [] st = Some ([], st)"
| "sk_run mem (op # ops) st =
     (case sk_step mem op st of
        (r, None) \<Rightarrow> None
      | (r, Some st) \<Rightarrow> (case sk_run mem ops st of None \<Rightarrow> None | Some (rs, st) \<Rightarrow> Some (r # rs, st)))"

fun list_run :: "'a sk_op list \<Rightarrow> 'a ptr list \<Rightarrow> (nat + 'a ptr) list \<times> 'a ptr list" where
  "list_run [] xs = ([], xs)"
| "list_run (op # ops) xs = (let (r, xs) = list_step op xs; (rs, xs) = list_run ops xs in (r # rs, xs))"

lemma sk_run_list:
  "sk_wf st \<Longrightarrow> \<exists>rs st'. sk_run mem ops st = Some (rs, st') \<and> sk_wf st' \<and> list_run ops (sk_list st) = (rs, sk_list st')"
proof (induction ops arbitrary: st)
  case (Cons op ops)
  obtain r st1 where "sk_step mem op st = (r, Some st1)" "sk_wf st1" "list_step op (sk_list st) = (r, sk_list st1)"
    using sk_step_list [OF Cons.prems] by blast
  then show ?case
    using Cons.IH [of st1] by auto
qed simp

section \<open>Properties\<close>

text \<open>
  C8. A stack behaves as a list: after \<^verbatim>\<open>sk_new\<close>, any sequence of \<^verbatim>\<open>sk_push\<close>, \<^verbatim>\<open>sk_unshift\<close>, \<^verbatim>\<open>sk_insert\<close>,
  \<^verbatim>\<open>sk_delete\<close>, \<^verbatim>\<open>sk_pop\<close>, \<^verbatim>\<open>sk_shift\<close>, \<^verbatim>\<open>sk_set\<close> and \<^verbatim>\<open>sk_zero\<close> calls, with any index arguments, returns what the
  operations on a list return, and \<^verbatim>\<open>sk_num\<close> and \<^verbatim>\<open>sk_value\<close> then read that list.
\<close>

theorem stack_refines_list:
  assumes "sk_new (True, True) c = Some st"
  shows "\<exists>rs st'. sk_run mem ops st = Some (rs, st') \<and> list_run ops [] = (rs, sk_list st') \<and> sk_wf st' \<and>
    sk_num (Some st') = int (length (sk_list st')) \<and>
    (\<forall>i. sk_value (Some st') i = (if 0 \<le> i \<and> i < int (length (sk_list st')) then sk_list st' ! nat i else None))"
proof -
  have st: "sk_wf st" "sk_list st = []"
    using sk_new_wf [OF assms] by auto
  obtain rs st' where st': "sk_run mem ops st = Some (rs, st')" "sk_wf st'" "list_run ops [] = (rs, sk_list st')"
    using sk_run_list [OF st(1), of mem ops] st(2) by auto
  have "sk_value (Some st') i = (if 0 \<le> i \<and> i < int (length (sk_list st')) then sk_list st' ! nat i else None)" for i
    using st'(2) by (auto simp: sk_value_def sk_list_def sk_wf_def)
  moreover have "sk_num (Some st') = int (length (sk_list st'))"
    using st'(2) by (simp add: sk_num_def)
  ultimately show ?thesis
    using st' by blast
qed

definition example_ops :: "nat sk_op list" where
  "example_ops = [Push (Some 1), Push (Some 2), Unshift (Some 3), Delete 1, Pop, Pop, Pop]"

theorem stack_refines_list_witness:
  "\<exists>st rs st'. sk_new (True, True) None = Some st \<and> sk_run (\<lambda>i. Some 0) example_ops st = Some (rs, st') \<and> sk_list st' = [] \<and>
    rs = [Inl 1, Inl 2, Inl 3, Inr (Some 1), Inr (Some 2), Inr (Some 3), Inr None]"
proof -
  obtain st where st: "sk_new (True, True) None = Some (st :: nat stack)"
    by (simp add: sk_new_def)
  have "list_run example_ops [] = ([Inl 1, Inl 2, Inl 3, Inr (Some 1), Inr (Some 2), Inr (Some 3), Inr None], [])"
    by (simp add: example_ops_def list_delete_def)
  then show ?thesis
    using st stack_refines_list [OF st, of "\<lambda>i. Some 0" example_ops] by auto
qed


definition int_cmp :: "int ptr \<Rightarrow> int ptr \<Rightarrow> int" where
  "int_cmp a b = the a - the b"

fun sorted_insert :: "('a \<Rightarrow> 'a \<Rightarrow> int) \<Rightarrow> 'a \<Rightarrow> 'a list \<Rightarrow> 'a list" where
  "sorted_insert c x [] = [x]"
| "sorted_insert c x (y # ys) = (if c x y \<le> 0 then x # y # ys else y # sorted_insert c x ys)"

text \<open>A function that has the contract of \<^verbatim>\<open>qsort\<close>.\<close>

definition insertion_sort :: "('a \<Rightarrow> 'a \<Rightarrow> int) \<Rightarrow> 'a list \<Rightarrow> 'a list" where
  "insertion_sort c xs = foldr (sorted_insert c) xs []"

lemma insertion_sort_Cons [simp]: "insertion_sort c (x # xs) = sorted_insert c x (insertion_sort c xs)"
  by (simp add: insertion_sort_def)

lemma insertion_sort_Nil [simp]: "insertion_sort c [] = []"
  by (simp add: insertion_sort_def)

lemma mset_sorted_insert [simp]: "mset (sorted_insert c x ys) = add_mset x (mset ys)"
  by (induction ys) auto

lemma set_sorted_insert [simp]: "set (sorted_insert c x ys) = insert x (set ys)"
  by (metis mset_sorted_insert set_mset_add_mset_insert set_mset_mset)

lemma mset_insertion_sort [simp]: "mset (insertion_sort c xs) = mset xs"
  by (induction xs) auto

lemma set_insertion_sort [simp]: "set (insertion_sort c xs) = set xs"
  by (metis mset_insertion_sort set_mset_mset)

lemma sorted_insertion_sort:
  assumes "\<And>a b. a \<in> set xs \<Longrightarrow> b \<in> set xs \<Longrightarrow> c a b \<le> 0 \<or> c b a \<le> 0"
    and "\<And>a b d. a \<in> set xs \<Longrightarrow> b \<in> set xs \<Longrightarrow> d \<in> set xs \<Longrightarrow> c a b \<le> 0 \<Longrightarrow> c b d \<le> 0 \<Longrightarrow> c a d \<le> 0"
  shows "sorted_wrt (\<lambda>a b. c a b \<le> 0) (insertion_sort c xs)"
  using assms
proof (induction xs)
  case cons: (Cons x xs)
  have ins: "sorted_wrt (\<lambda>a b. c a b \<le> 0) (sorted_insert c x ys)" if "set ys \<subseteq> set xs" "sorted_wrt (\<lambda>a b. c a b \<le> 0) ys" for ys
    using that
  proof (induction ys)
    case (Cons y ys)
    show ?case
    proof (cases "c x y \<le> 0")
      case True
      have "c x z \<le> 0" if "z \<in> set ys" for z
        using Cons.prems(1,2) that by (intro cons.prems(2) [of x y z]) (auto simp: True)
      then show ?thesis
        using True Cons.prems(2) by auto
    next
      case False
      then have "c y x \<le> 0"
        using cons.prems(1) [of x y] Cons.prems(1) by auto
      then show ?thesis
        using False Cons.IH Cons.prems by auto
    qed
  qed simp
  have sorted: "sorted_wrt (\<lambda>a b. c a b \<le> 0) (insertion_sort c xs)"
    by (rule cons.IH) (use cons.prems(1) in auto, use cons.prems(2) in \<open>meson list.set_intros(2)\<close>)
  show ?case
    unfolding insertion_sort_Cons by (rule ins [OF _ sorted]) simp
next
  case Nil
  show ?case
    by simp
qed


lemma sk_order_int_cmp: "sk_order int_cmp insertion_sort"
proof
  fix xs :: "int ptr list"
  assume n: "None \<notin> set xs"
  show "sorted_wrt (\<lambda>a b. int_cmp a b \<le> 0) (insertion_sort int_cmp xs)"
    by (rule sorted_insertion_sort) (auto simp: int_cmp_def)
qed (auto simp: int_cmp_def)

definition example_stack :: "int stack" where
  "example_stack =
     \<lparr>st_num = 3, st_data = [Some 5, Some 2, Some 7, None], st_sorted = False, st_num_alloc = 4, st_comp = Some int_cmp\<rparr>"



end
