(* ===== verification/Obj_Xref.thy ===== *)
theory Obj_Xref
  imports Stack
begin

unbundle bit_operations_syntax

text \<open>
  The table of signature algorithms of \<^verbatim>\<open>crypto/objects/obj_xref.c\<close>: which digest and which public key algorithm a
  signature algorithm uses, and back. The application's entries are in two stacks, the built-in ones in the tables of
  \<^verbatim>\<open>crypto/objects/obj_xref.h\<close>. Object identifiers are the numbers of \<^verbatim>\<open>include/openssl/obj_mac.h\<close>, which are small
  and not negative, so the differences of the comparison functions do not overflow. \<open>qsort\<close> is the function
  of the C library.
\<close>

section \<open>Definitions\<close>

record nid_triple =
  sign_id :: int
  hash_id :: int
  pkey_id :: int

abbreviation triple :: "int \<Rightarrow> int \<Rightarrow> int \<Rightarrow> nid_triple" where
  "triple s h p \<equiv> \<lparr>sign_id = s, hash_id = h, pkey_id = p\<rparr>"

definition sigoid_srt :: "nid_triple list" where
  "sigoid_srt =
     [triple 8 4 6, triple 42 41 6, triple 65 64 6, triple 66 41 116,
      triple 70 64 67, triple 104 4 19, triple 113 64 116, triple 115 64 19,
      triple 119 117 6, triple 416 64 408, triple 668 672 6, triple 669 673 6,
      triple 670 674 6, triple 671 675 6, triple 791 0 408, triple 792 0 408,
      triple 793 675 408, triple 794 672 408, triple 795 673 408, triple 796 674 408,
      triple 802 675 116, triple 803 672 116, triple 807 809 811, triple 808 809 812,
      triple 852 809 850, triple 853 809 851, triple 912 0 6, triple 947 940 811,
      triple 948 941 811]"

text \<open>The second table holds pointers into the first; here it holds the indices.\<close>

definition sigoid_srt_xref :: "nat list" where
  "sigoid_srt_xref =
     [0, 1, 7, 2, 4, 3, 9, 5, 8, 12, 6, 10, 11, 13, 24, 20, 14, 21, 15, 22, 16, 23, 19, 25, 26, 27, 28, 30, 31]"

definition sig_cmp :: "nid_triple \<Rightarrow> nid_triple \<Rightarrow> int" where
  "sig_cmp a b = sign_id a - sign_id b"

definition sig_sk_cmp :: "nid_triple ptr \<Rightarrow> nid_triple ptr \<Rightarrow> int" where
  "sig_sk_cmp a b = sign_id (the a) - sign_id (the b)"

definition sigx_cmp :: "nid_triple ptr \<Rightarrow> nid_triple ptr \<Rightarrow> int" where
  "sigx_cmp a b =
     (let ret = hash_id (the a) - hash_id (the b)
      in if ret \<noteq> 0 then ret else pkey_id (the a) - pkey_id (the b))"

record obj_xref =
  sig_app :: "nid_triple stack option"
  sigx_app :: "nid_triple stack option"

type_synonym sorter = "(nid_triple ptr \<Rightarrow> nid_triple ptr \<Rightarrow> int) \<Rightarrow> nid_triple ptr list \<Rightarrow> nid_triple ptr list"

text \<open>The lookup in a stack, and the pointer behind an index of the second table; \<open>beyond\<close> is what memory holds after the first table.\<close>

definition app_find :: "sorter \<Rightarrow> nid_triple \<Rightarrow> nid_triple stack option \<Rightarrow> nid_triple option \<times> nid_triple stack option" where
  "app_find qsort tmp app =
     (case app of
        None \<Rightarrow> (None, None)
      | Some s \<Rightarrow> (let (idx, app) = sk_find qsort (Some tmp) (Some s) in (if 0 \<le> idx then sk_value app idx else None, app)))"

definition sigx_entry :: "(nat \<Rightarrow> nid_triple) \<Rightarrow> nat \<Rightarrow> nid_triple" where
  "sigx_entry beyond k = (if k < length sigoid_srt then sigoid_srt ! k else beyond k)"

text \<open>\<open>tmp\<close> is the local variable before its fields are set.\<close>

definition OBJ_find_sigid_algs :: "sorter \<Rightarrow> nid_triple \<Rightarrow> int \<Rightarrow> obj_xref \<Rightarrow> (int \<times> int) option \<times> obj_xref" where
  "OBJ_find_sigid_algs qsort tmp signid st =
     (let tmp = tmp\<lparr>sign_id := signid\<rparr>;
          (rv, app) = app_find qsort tmp (sig_app st);
          rv = (case rv of
                  None \<Rightarrow> map_option (\<lambda>i. sigoid_srt ! i) (OBJ_bsearch (\<lambda>i. sig_cmp tmp (sigoid_srt ! i)) (length sigoid_srt))
                | Some t \<Rightarrow> Some t)
      in (map_option (\<lambda>t. (hash_id t, pkey_id t)) rv, st\<lparr>sig_app := app\<rparr>))"

definition OBJ_find_sigid_by_algs ::
  "sorter \<Rightarrow> (nat \<Rightarrow> nid_triple) \<Rightarrow> nid_triple \<Rightarrow> int \<Rightarrow> int \<Rightarrow> obj_xref \<Rightarrow> int option \<times> obj_xref" where
  "OBJ_find_sigid_by_algs qsort beyond tmp dig_nid pkey_nid st =
     (let tmp = tmp\<lparr>hash_id := dig_nid, pkey_id := pkey_nid\<rparr>;
          (rv, app) = app_find qsort tmp (sigx_app st);
          entry = (\<lambda>i. sigx_entry beyond (sigoid_srt_xref ! i));
          rv = (case rv of
                  None \<Rightarrow> map_option entry (OBJ_bsearch (\<lambda>i. sigx_cmp (Some tmp) (Some (entry i))) (length sigoid_srt_xref))
                | Some t \<Rightarrow> Some t)
      in (map_option sign_id rv, st\<lparr>sigx_app := app\<rparr>))"

text \<open>\<open>ok i\<close> says whether allocation \<open>i\<close> succeeds.\<close>

definition OBJ_add_sigid ::
  "(nat \<Rightarrow> bool) \<Rightarrow> (nat \<Rightarrow> nid_triple ptr) \<Rightarrow> sorter \<Rightarrow> int \<Rightarrow> int \<Rightarrow> int \<Rightarrow> obj_xref \<Rightarrow> bool \<times> obj_xref" where
  "OBJ_add_sigid ok mem qsort signid dig_id pkey_nid st =
     (let st = (if sig_app st = None then st\<lparr>sig_app := sk_new (ok 0, ok 1) (Some sig_sk_cmp)\<rparr> else st) in
      case sig_app st of
        None \<Rightarrow> (False, st)
      | Some s \<Rightarrow>
          let st = (if sigx_app st = None then st\<lparr>sigx_app := sk_new (ok 2, ok 3) (Some sigx_cmp)\<rparr> else st) in
          case sigx_app st of
            None \<Rightarrow> (False, st)
          | Some x \<Rightarrow>
              if \<not> ok 4 then (False, st)
              else
                let ntr = triple signid dig_id pkey_nid; (r, s) = sk_push (ok 5) mem (Some ntr) s; st = st\<lparr>sig_app := s\<rparr> in
                if r = 0 then (False, st)
                else
                  let (r, x) = sk_push (ok 6) mem (Some ntr) x; st = st\<lparr>sigx_app := x\<rparr> in
                  if r = 0 then (False, st)
                  else (True, st\<lparr>sig_app := map_option (sk_sort qsort) s, sigx_app := map_option (sk_sort qsort) x\<rparr>))"

text \<open>The entries that are freed are those of \<^verbatim>\<open>sig_app\<close>.\<close>

definition OBJ_sigid_free :: "obj_xref \<Rightarrow> nid_triple list \<times> obj_xref" where
  "OBJ_sigid_free st = (sk_pop_free (sig_app st), \<lparr>sig_app = None, sigx_app = None\<rparr>)"

section \<open>The built-in tables\<close>

lemma length_sigoid_srt: "length sigoid_srt = 29"
  by (simp add: sigoid_srt_def)

lemma sorted_sigoid_srt: "sorted_wrt (<) (map sign_id sigoid_srt)"
  by (simp add: sigoid_srt_def)

lemma sigoid_srt_order: "bsearch_order (\<lambda>i. sig_cmp tmp (sigoid_srt ! i)) (length sigoid_srt)"
proof -
  have "sign_id (sigoid_srt ! i) < sign_id (sigoid_srt ! j)" if "i < j" "j < length sigoid_srt" for i j
    using sorted_wrt_nth_less [OF sorted_sigoid_srt that(1)] that by simp
  then show ?thesis
    unfolding bsearch_order_def sig_cmp_def by force
qed

lemma sigoid_srt_unique: "t \<in> set sigoid_srt \<Longrightarrow> u \<in> set sigoid_srt \<Longrightarrow> sign_id t = sign_id u \<Longrightarrow> t = u"
  using sorted_sigoid_srt by (metis inj_on_def distinct_map strict_sorted_iff)

lemma bsearch_sigoid_srt:
  "map_option (\<lambda>i. sigoid_srt ! i) (OBJ_bsearch (\<lambda>i. sig_cmp tmp (sigoid_srt ! i)) (length sigoid_srt)) =
    find (\<lambda>t. sign_id t = sign_id tmp) sigoid_srt"
proof -
  let ?b = "OBJ_bsearch (\<lambda>i. sig_cmp tmp (sigoid_srt ! i)) (length sigoid_srt)"
  note b = OBJ_bsearch_any [OF sigoid_srt_order, of tmp]
  show ?thesis
  proof (cases ?b)
    case None
    then have "\<forall>t\<in>set sigoid_srt. sign_id t \<noteq> sign_id tmp"
      using b by (auto simp: sig_cmp_def in_set_conv_nth) metis
    then show ?thesis
      using None by (metis (mono_tags, lifting) find_None_iff option.map_disc_iff)
  next
    case (Some i)
    then have i: "i < length sigoid_srt" "sign_id (sigoid_srt ! i) = sign_id tmp"
      using b by (auto simp: sig_cmp_def)
    then obtain t where t: "find (\<lambda>t. sign_id t = sign_id tmp) sigoid_srt = Some t"
      by (metis (mono_tags, lifting) find_None_iff not_None_eq nth_mem)
    then have "t \<in> set sigoid_srt" "sign_id t = sign_id tmp"
      by (auto simp: find_Some_iff)
    then show ?thesis
      using Some i t sigoid_srt_unique [of "sigoid_srt ! i" t] by simp
  qed
qed

section \<open>The entries of the application\<close>

interpretation sig: sk_order sig_sk_cmp insertion_sort
proof
  fix xs :: "nid_triple ptr list"
  show "sorted_wrt (\<lambda>a b. sig_sk_cmp a b \<le> 0) (insertion_sort sig_sk_cmp xs)"
    by (rule sorted_insertion_sort) (auto simp: sig_sk_cmp_def)
qed (auto simp: sig_sk_cmp_def)

interpretation sigx: sk_order sigx_cmp insertion_sort
proof
  fix xs :: "nid_triple ptr list"
  show "sorted_wrt (\<lambda>a b. sigx_cmp a b \<le> 0) (insertion_sort sigx_cmp xs)"
    by (rule sorted_insertion_sort) (auto simp: sigx_cmp_def Let_def split: if_splits)
qed (auto simp: sigx_cmp_def Let_def split: if_splits)

text \<open>A stack of the application: well formed, ordered by its comparison function, without null pointers.\<close>

definition app_ok :: "(nid_triple ptr \<Rightarrow> nid_triple ptr \<Rightarrow> int) \<Rightarrow> nid_triple stack option \<Rightarrow> bool" where
  "app_ok c app \<longleftrightarrow>
     (case app of None \<Rightarrow> True | Some s \<Rightarrow> sk_wf s \<and> st_comp s = Some c \<and> sk_sorted_ok s \<and> None \<notin> set (sk_list s))"

definition app_set :: "nid_triple stack option \<Rightarrow> nid_triple set" where
  "app_set app = (case app of None \<Rightarrow> {} | Some s \<Rightarrow> {t. Some t \<in> set (sk_list s)})"

definition xref_ok :: "obj_xref \<Rightarrow> bool" where
  "xref_ok st \<longleftrightarrow> app_ok sig_sk_cmp (sig_app st) \<and> app_ok sigx_cmp (sigx_app st)"

lemma app_ok_sort:
  assumes "sk_order c qsort" "app_ok c (Some s)"
  shows "app_ok c (Some (sk_sort qsort s)) \<and> app_set (Some (sk_sort qsort s)) = app_set (Some s)"
proof -
  have s: "sk_wf s" "st_comp s = Some c" "sk_sorted_ok s" "None \<notin> set (sk_list s)"
    using assms(2) by (auto simp: app_ok_def)
  note t = sk_order.sk_sort_correct [OF assms(1) s]
  have "set (sk_list (sk_sort qsort s)) = set (sk_list s)"
    by (rule mset_eq_setD) (rule t(2))
  then show ?thesis
    using t s by (simp add: app_ok_def app_set_def sk_sorted_ok_def)
qed

lemma app_ok_push:
  assumes "app_ok c (Some s)" "sk_push ok mem (Some t) s = (r, app)"
  shows "app_ok c app \<and> app \<noteq> None \<and> app_set app = (if r = 0 then app_set (Some s) else insert t (app_set (Some s)))"
proof -
  have s: "sk_wf s" "st_comp s = Some c" "sk_sorted_ok s" "None \<notin> set (sk_list s)"
    using assms(1) by (auto simp: app_ok_def)
  show ?thesis
  proof (cases "ok \<or> \<not> st_num_alloc s \<le> st_num s + 1")
    case True
    then have "sk_insert ok mem (Some t) (int (st_num s)) (Some s) = sk_insert True mem (Some t) (int (st_num s)) (Some s)"
      by (auto simp: sk_insert_def)
    then have e: "sk_insert True mem (Some t) (int (st_num s)) (Some s) = (r, app)"
      using assms(2) by (simp add: sk_push_def)
    obtain st' where st': "app = Some st'" "sk_wf st'" "r = st_num st'" "st_comp st' = st_comp s" "\<not> st_sorted st'"
        "sk_list st' = sk_list s @ [Some t]"
      using sk_insert_list [OF s(1) e] length_sk_list [OF s(1)] by (auto simp: ins_pos_def)
    then show ?thesis
      using s length_sk_list [OF st'(2)] by (auto simp: app_ok_def app_set_def sk_sorted_ok_def)
  next
    case False
    then show ?thesis
      using assms by (auto simp: sk_push_def sk_insert_def)
  qed
qed

lemma app_find_correct:
  assumes "sk_order c qsort" "app_ok c app" "app_find qsort tmp app = (rv, app')"
  shows "app_ok c app' \<and> app_set app' = app_set app \<and>
    (case rv of None \<Rightarrow> (\<forall>t\<in>app_set app. c (Some tmp) (Some t) \<noteq> 0) | Some t \<Rightarrow> t \<in> app_set app \<and> c (Some tmp) (Some t) = 0)"
proof (cases app)
  case None
  then show ?thesis
    using assms by (simp add: app_find_def app_ok_def app_set_def)
next
  case (Some s)
  then have s: "sk_wf s" "st_comp s = Some c" "sk_sorted_ok s" "None \<notin> set (sk_list s)"
    using assms(2) by (auto simp: app_ok_def)
  obtain r st1 where e: "sk_find qsort (Some tmp) (Some s) = (r, st1)"
    by fastforce
  obtain st' where st': "st1 = Some st'" "sk_wf st'" "sk_sorted_ok st'" "st_comp st' = Some c" "mset (sk_list st') = mset (sk_list s)"
    and r: "if \<exists>y\<in>set (sk_list s). c (Some tmp) y = 0
      then \<exists>i. r = int i \<and> i < st_num s \<and> c (Some tmp) (sk_list st' ! i) = 0 \<and> (\<forall>k<i. c (Some tmp) (sk_list st' ! k) \<noteq> 0)
      else r = - 1"
    using sk_order.find_correct [OF assms(1) s e] by blast
  have set: "set (sk_list st') = set (sk_list s)"
    by (rule mset_eq_setD) (rule st'(5))
  have n: "st_num st' = st_num s"
    using mset_eq_length [OF st'(5)] st'(2) s(1) by simp
  have rv: "rv = (if 0 \<le> r then sk_value (Some st') r else None)" "app' = Some st'"
    using assms(3) e Some st'(1) by (auto simp: app_find_def)
  show ?thesis
  proof (cases "\<exists>y\<in>set (sk_list s). c (Some tmp) y = 0")
    case True
    then obtain i where i: "r = int i" "i < st_num s" "c (Some tmp) (sk_list st' ! i) = 0"
      using r by auto
    have "sk_list st' ! i \<in> set (sk_list s)"
      using i(2) n st'(2) set by (metis length_sk_list nth_mem)
    moreover have rv': "rv = sk_list st' ! i"
      using rv i n by (simp add: sk_value_def sk_list_def)
    ultimately obtain t where "rv = Some t" "Some t \<in> set (sk_list s)"
      using s(4) by (metis not_None_eq)
    then show ?thesis
      using i(3) [folded rv'] s(4) st' set rv(2) Some by (simp add: app_ok_def app_set_def)
  next
    case False
    then have "rv = None"
      using r rv by simp
    then show ?thesis
      using False s(4) st' set rv(2) Some by (auto simp: app_ok_def app_set_def)
  qed
qed

lemma OBJ_add_sigid_ok:
  assumes "xref_ok st" "sk_order sig_sk_cmp qsort" "sk_order sigx_cmp qsort" "OBJ_add_sigid ok mem qsort signid dig_id pkey st = (r, st')"
  shows "xref_ok st' \<and>
    (r \<longrightarrow> app_set (sig_app st') = insert (triple signid dig_id pkey) (app_set (sig_app st)) \<and>
      app_set (sigx_app st') = insert (triple signid dig_id pkey) (app_set (sigx_app st)))"
proof -
  define st1 where "st1 = (if sig_app st = None then st\<lparr>sig_app := sk_new (ok 0, ok 1) (Some sig_sk_cmp)\<rparr> else st)"
  define st2 where "st2 = (if sigx_app st1 = None then st1\<lparr>sigx_app := sk_new (ok 2, ok 3) (Some sigx_cmp)\<rparr> else st1)"
  have new: "app_ok c (sk_new p (Some c)) \<and> app_set (sk_new p (Some c)) = {}" for c p
    by (cases "sk_new p (Some c)") (auto simp: app_ok_def app_set_def sk_sorted_ok_def dest!: sk_new_wf)
  have st1: "xref_ok st1" "app_set (sig_app st1) = app_set (sig_app st)" "app_set (sigx_app st1) = app_set (sigx_app st)"
    using assms(1) new by (auto simp: st1_def xref_ok_def app_set_def)
  have st2: "xref_ok st2" "app_set (sig_app st2) = app_set (sig_app st)" "app_set (sigx_app st2) = app_set (sigx_app st)" "sig_app st2 = sig_app st1"
    using st1 new by (auto simp: st2_def xref_ok_def app_set_def)
  consider "sig_app st1 = None" | "sig_app st1 \<noteq> None" "sigx_app st2 = None \<or> \<not> ok 4"
    | s x where "sig_app st1 = Some s" "sigx_app st2 = Some x" "ok 4"
    by (metis not_None_eq)
  then show ?thesis
  proof cases
    case 1
    then show ?thesis
      using assms(4) st1(1) by (simp add: OBJ_add_sigid_def st1_def [symmetric] Let_def)
  next
    case 2
    then show ?thesis
      using assms(4) st2(1) by (auto simp: OBJ_add_sigid_def st1_def [symmetric] st2_def [symmetric] Let_def split: option.splits)
  next
    case 3
    define ntr where "ntr = triple signid dig_id pkey"
    obtain r1 s1 where s1: "sk_push (ok 5) mem (Some ntr) s = (r1, s1)"
      by fastforce
    obtain r2 x1 where x1: "sk_push (ok 6) mem (Some ntr) x = (r2, x1)"
      by fastforce
    have ok: "app_ok sig_sk_cmp (Some s)" "app_ok sigx_cmp (Some x)"
      using 3 st2(1,4) by (auto simp: xref_ok_def)
    note ps = app_ok_push [OF ok(1) s1] and px = app_ok_push [OF ok(2) x1]
    have sorted: "app_ok c app \<and> app \<noteq> None \<Longrightarrow> sk_order c qsort \<Longrightarrow>
        app_ok c (map_option (sk_sort qsort) app) \<and> app_set (map_option (sk_sort qsort) app) = app_set app" for c app
      using app_ok_sort by auto
    have "(r, st') =
        (if r1 = 0 then (False, st2\<lparr>sig_app := s1\<rparr>)
         else if r2 = 0 then (False, st2\<lparr>sig_app := s1, sigx_app := x1\<rparr>)
         else (True, st2\<lparr>sig_app := map_option (sk_sort qsort) s1, sigx_app := map_option (sk_sort qsort) x1\<rparr>))"
      using assms(4) 3 s1 x1
      by (cases "r1 = 0"; cases "r2 = 0") (simp_all add: OBJ_add_sigid_def st1_def [symmetric] st2_def [symmetric] ntr_def [symmetric] Let_def)
    then show ?thesis
      using ps px sorted [of sig_sk_cmp s1] sorted [of sigx_cmp x1] assms(2,3) st2 3
      by (auto simp: xref_ok_def ntr_def split: if_splits)
  qed
qed

section \<open>Properties\<close>

abbreviation xref_empty :: obj_xref where
  "xref_empty \<equiv> \<lparr>sig_app = None, sigx_app = None\<rparr>"

lemma length_sigoid_srt_xref: "length sigoid_srt_xref = 29"
  by (simp add: sigoid_srt_xref_def)

lemma sigx_cmp_key: "sigx_cmp (Some (tmp\<lparr>hash_id := d, pkey_id := p\<rparr>)) x = sigx_cmp (Some (triple 0 d p)) x"
  by (simp add: sigx_cmp_def cong: if_cong)

text \<open>
  C35. Without entries of the application, \<^verbatim>\<open>OBJ_find_sigid_algs\<close> finds exactly the signature algorithms of the built-in
  table: for each row it returns the digest and the key algorithm of the row, for any other identifier nothing.
\<close>

theorem OBJ_find_sigid_algs_table:
  "OBJ_find_sigid_algs qsort tmp signid xref_empty =
    (map_option (\<lambda>t. (hash_id t, pkey_id t)) (find (\<lambda>t. sign_id t = signid) sigoid_srt), xref_empty) \<and>
   distinct (map sign_id sigoid_srt)"
  using strict_sorted_imp_sorted sorted_sigoid_srt bsearch_sigoid_srt [of "tmp\<lparr>sign_id := signid\<rparr>"]
  by (simp add: OBJ_find_sigid_algs_def app_find_def strict_sorted_iff)

text \<open>
  C36. The second built-in table is not a permutation of the first: it names rows 30 and 31 of a table with 29 rows, it
  leaves out the rows of ECDSA with SHA-256 and SHA-384, and it is not sorted. Whatever memory holds after the first table,
  \<^verbatim>\<open>OBJ_find_sigid_by_algs\<close> finds nothing for SHA-1 with RSA (64, 6), SHA-512 with RSA (674, 6), and SHA-1, SHA-224, SHA-256,
  SHA-384 and SHA-512 with ECDSA (408), which the first table has.
\<close>

theorem OBJ_find_sigid_by_algs_misses:
  "list_all
     (\<lambda>(signid, dig, pkey).
        OBJ_find_sigid_algs qsort tmp signid xref_empty = (Some (dig, pkey), xref_empty) \<and>
        OBJ_find_sigid_by_algs qsort beyond tmp dig pkey xref_empty = (None, xref_empty))
     [(65, 64, 6), (670, 674, 6), (416, 64, 408), (793, 675, 408), (794, 672, 408), (795, 673, 408), (796, 674, 408)]
   \<and> filter (\<lambda>k. length sigoid_srt \<le> k) sigoid_srt_xref = [30, 31]"
proof -
  have first: "OBJ_find_sigid_algs qsort tmp s xref_empty =
      (map_option (\<lambda>t. (hash_id t, pkey_id t)) (find (\<lambda>t. sign_id t = s) sigoid_srt), xref_empty)" for s
    using bsearch_sigoid_srt [of "tmp\<lparr>sign_id := s\<rparr>"] by (simp add: OBJ_find_sigid_algs_def app_find_def)
  have second: "OBJ_find_sigid_by_algs qsort beyond tmp d p xref_empty =
      (map_option (\<lambda>i. sign_id (sigx_entry beyond (sigoid_srt_xref ! i)))
        (OBJ_bsearch (\<lambda>i. sigx_cmp (Some (triple 0 d p)) (Some (sigx_entry beyond (sigoid_srt_xref ! i)))) 29), xref_empty)" for d p
    by (simp add: OBJ_find_sigid_by_algs_def app_find_def length_sigoid_srt_xref sigx_cmp_key option.map_comp comp_def)
  show ?thesis
    unfolding first second
    by (simp add: OBJ_bsearch_def OBJ_bsearch_ex_def bsearch_loop.simps OBJ_BSEARCH_VALUE_ON_NOMATCH_def sigx_cmp_def sigx_entry_def
        sigoid_srt_def sigoid_srt_xref_def)
qed



end
