(* ===== verification/Pqueue.thy ===== *)
theory Pqueue
  imports Prelude
begin

unbundle bit_operations_syntax

text \<open>
  The priority queues of \<^verbatim>\<open>ssl/pqueue/pqueue.c\<close>, in which DTLS keeps records and handshake messages that
  came too early. A queue is a linked list of items sorted by their priorities, which are 64-bit numbers in
  big-endian order.
\<close>

section \<open>Definitions\<close>

record 'a pitem =
  priority :: "byte list"
  pi_data :: 'a

type_synonym 'a pqueue = "'a pitem list"

text \<open>\<^verbatim>\<open>memcmp\<close> of the C library on two strings of the same length.\<close>

fun memcmp :: "byte list \<Rightarrow> byte list \<Rightarrow> int" where
  "memcmp (x # xs) (y # ys) = (if x = y then memcmp xs ys else if x < y then - 1 else 1)"
| "memcmp _ _ = 0"

definition pitem_new :: "bool \<Rightarrow> byte list \<Rightarrow> 'a \<Rightarrow> 'a pitem option" where
  "pitem_new ok prio64be data = (if \<not> ok then None else Some \<lparr>priority = prio64be, pi_data = data\<rparr>)"

definition pqueue_new :: "'a pqueue" where
  "pqueue_new = []"

text \<open>The loop of \<^verbatim>\<open>pqueue_insert\<close>; \<open>False\<close> is the null pointer that it returns for a duplicate.\<close>

fun insert_loop :: "'a pitem \<Rightarrow> 'a pqueue \<Rightarrow> bool \<times> 'a pqueue" where
  "insert_loop item [] = (True, [item])"
| "insert_loop item (next # rest) =
     (let cmp = memcmp (priority next) (priority item) in
      if 0 < cmp then (True, item # next # rest)
      else if cmp = 0 then (False, next # rest)
      else let (r, rest) = insert_loop item rest in (r, next # rest))"

definition pqueue_insert :: "'a pitem \<Rightarrow> 'a pqueue \<Rightarrow> bool \<times> 'a pqueue" where
  "pqueue_insert item pq = (if pq = [] then (True, [item]) else insert_loop item pq)"

definition pqueue_peek :: "'a pqueue \<Rightarrow> 'a pitem option" where
  "pqueue_peek pq = (case pq of [] \<Rightarrow> None | item # _ \<Rightarrow> Some item)"

definition pqueue_pop :: "'a pqueue \<Rightarrow> 'a pitem option \<times> 'a pqueue" where
  "pqueue_pop pq = (case pq of [] \<Rightarrow> (None, []) | item # rest \<Rightarrow> (Some item, rest))"

fun find_loop :: "byte list \<Rightarrow> 'a pqueue \<Rightarrow> 'a pitem option" where
  "find_loop prio64be [] = None"
| "find_loop prio64be [next] = (if memcmp (priority next) prio64be = 0 then Some next else None)"
| "find_loop prio64be (next # rest) = (if memcmp (priority next) prio64be = 0 then Some next else find_loop prio64be rest)"

definition pqueue_find :: "byte list \<Rightarrow> 'a pqueue \<Rightarrow> 'a pitem option" where
  "pqueue_find prio64be pq = (if pq = [] then None else find_loop prio64be pq)"

text \<open>An iterator is the list from its item on.\<close>

definition pqueue_iterator :: "'a pqueue \<Rightarrow> 'a pqueue" where
  "pqueue_iterator pq = pq"

definition pqueue_next :: "'a pqueue \<Rightarrow> 'a pitem option \<times> 'a pqueue" where
  "pqueue_next it = (case it of [] \<Rightarrow> (None, []) | item # rest \<Rightarrow> (Some item, rest))"

definition pqueue_size :: "'a pqueue \<Rightarrow> nat" where
  "pqueue_size pq = foldl (\<lambda>count item. count + 1) 0 pq"

section \<open>Priorities\<close>

lemma memcmp_zero: "length xs = length ys \<Longrightarrow> memcmp xs ys = 0 \<longleftrightarrow> xs = ys"
  by (induction xs ys rule: memcmp.induct) auto

lemma memcmp_less: "length xs = length ys \<Longrightarrow> memcmp xs ys < 0 \<longleftrightarrow> be_nat xs < be_nat ys"
proof (induction xs ys rule: memcmp.induct)
  case (1 x xs y ys)
  have bound: "be_nat xs < 256 ^ length ys" "be_nat ys < 256 ^ length ys"
    using be_nat_less [of xs] be_nat_less [of ys] 1(2) by auto
  consider "x = y" | "x < y" | "y < x"
    by fastforce
  then show ?case
  proof cases
    case 1
    then show ?thesis
      using "1.IH" "1.prems" by (simp add: be_nat_Cons)
  next
    case 2
    then have "(unat x + 1) * 256 ^ length ys \<le> unat y * 256 ^ length ys"
      by (intro mult_right_mono) (auto simp: word_less_nat_alt)
    then show ?thesis
      using 2 bound "1.prems" by (auto simp: be_nat_Cons)
  next
    case 3
    then have "(unat y + 1) * 256 ^ length ys \<le> unat x * 256 ^ length ys"
      by (intro mult_right_mono) (auto simp: word_less_nat_alt)
    then show ?thesis
      using 3 bound "1.prems" by (auto simp: be_nat_Cons)
  qed
qed (auto simp: be_nat_def)

lemma be_nat_inject: "length xs = length ys \<Longrightarrow> be_nat xs = be_nat ys \<longleftrightarrow> xs = ys"
  by (metis be_bytes_be_nat)

lemma memcmp_greater: "length xs = length ys \<Longrightarrow> 0 < memcmp xs ys \<longleftrightarrow> be_nat ys < be_nat xs"
  using memcmp_less [of xs ys] memcmp_zero [of xs ys] be_nat_inject [of xs ys] by linarith

section \<open>The interface\<close>

text \<open>
  What the users of a queue rely on: \<open>items\<close> gives the item of a priority, insertion adds an item unless its
  priority is taken, and the item with the smallest priority is taken first.
\<close>

locale prio_queue =
  fixes inv :: "'q \<Rightarrow> bool"
    and items :: "'q \<Rightarrow> nat \<rightharpoonup> 'i"
    and prio :: "'i \<Rightarrow> nat"
    and valid :: "'i \<Rightarrow> bool"
    and new :: 'q
    and ins :: "'i \<Rightarrow> 'q \<Rightarrow> bool \<times> 'q"
    and pop :: "'q \<Rightarrow> 'i option \<times> 'q"
  assumes new: "inv new" "items new = Map.empty"
    and ins: "inv q \<Longrightarrow> valid i \<Longrightarrow> inv (snd (ins i q)) \<and>
      (case items q (prio i) of
         None \<Rightarrow> fst (ins i q) \<and> items (snd (ins i q)) = (items q)(prio i \<mapsto> i)
       | Some _ \<Rightarrow> \<not> fst (ins i q) \<and> snd (ins i q) = q)"
    and pop_None: "inv q \<Longrightarrow> fst (pop q) = None \<longleftrightarrow> items q = Map.empty"
    and pop_Some: "inv q \<Longrightarrow> fst (pop q) = Some i \<Longrightarrow> inv (snd (pop q)) \<and> items q (prio i) = Some i \<and>
      (\<forall>p\<in>dom (items q). prio i \<le> p) \<and> items (snd (pop q)) = (items q)(prio i := None)"
begin

text \<open>Filling a queue, and emptying it as far as the fuel goes.\<close>

primrec fill :: "'i list \<Rightarrow> 'q \<Rightarrow> 'q" where
  "fill [] q = q"
| "fill (i # is) q = fill is (snd (ins i q))"

primrec drain :: "nat \<Rightarrow> 'q \<Rightarrow> 'i list" where
  "drain 0 q = []"
| "drain (Suc n) q = (case pop q of (None, _) \<Rightarrow> [] | (Some i, q) \<Rightarrow> i # drain n q)"

lemma fill_inv: "inv q \<Longrightarrow> list_all valid is \<Longrightarrow> inv (fill is q) \<and> dom (items (fill is q)) = dom (items q) \<union> prio ` set is"
proof (induction "is" arbitrary: q)
  case (Cons i "is")
  have "inv (snd (ins i q))" "dom (items (snd (ins i q))) = insert (prio i) (dom (items q))"
    using ins [of q i] Cons.prems by (auto split: option.splits)
  then show ?case
    using Cons by auto
qed simp

lemma drain_sorted:
  assumes "inv q" "finite (dom (items q))" "card (dom (items q)) \<le> n"
  shows "sorted_wrt (<) (map prio (drain n q)) \<and> prio ` set (drain n q) = dom (items q)"
  using assms
proof (induction n arbitrary: q)
  case (Suc n)
  obtain r q' where p: "pop q = (r, q')"
    by fastforce
  show ?case
  proof (cases r)
    case None
    then show ?thesis
      using pop_None [OF Suc.prems(1)] p by simp
  next
    case (Some i)
    note s = pop_Some [OF Suc.prems(1), of i, simplified p Some, simplified]
    have i: "prio i \<in> dom (items q)" "dom (items q') = dom (items q) - {prio i}" "inv q'"
      using s by auto
    have "sorted_wrt (<) (map prio (drain n q')) \<and> prio ` set (drain n q') = dom (items q')"
      using Suc.prems(2,3) i by (intro Suc.IH) (auto simp: card_Diff_singleton)
    moreover have "\<forall>p\<in>dom (items q'). prio i < p"
      using s i(2) by (metis Diff_iff insertCI le_neq_implies_less)
    ultimately show ?thesis
      using p Some i by auto
  qed
qed simp

end

section \<open>The list implements the interface\<close>

definition pq_inv :: "'a pqueue \<Rightarrow> bool" where
  "pq_inv pq \<longleftrightarrow> list_all (\<lambda>i. length (priority i) = 8) pq \<and> sorted_wrt (<) (map (\<lambda>i. be_nat (priority i)) pq)"

definition pq_prio :: "'a pitem \<Rightarrow> nat" where
  "pq_prio i = be_nat (priority i)"

definition pq_items :: "'a pqueue \<Rightarrow> nat \<rightharpoonup> 'a pitem" where
  "pq_items pq = map_of (map (\<lambda>i. (pq_prio i, i)) pq)"

definition pq_valid :: "'a pitem \<Rightarrow> bool" where
  "pq_valid i \<longleftrightarrow> length (priority i) = 8"

lemma pqueue_insert_eq: "pqueue_insert item pq = insert_loop item pq"
  by (cases pq) (auto simp: pqueue_insert_def)

lemma pq_items_Cons: "pq_items (i # pq) = (pq_items pq)(pq_prio i \<mapsto> i)"
  by (simp add: pq_items_def)

lemma pq_items_Nil: "pq_items [] = Map.empty"
  by (simp add: pq_items_def)

lemma dom_pq_items: "dom (pq_items pq) = pq_prio ` set pq"
  by (auto simp: pq_items_def dom_map_of_conv_image_fst image_image)

lemma pq_inv_Cons: "pq_inv (i # pq) \<longleftrightarrow> pq_valid i \<and> pq_inv pq \<and> (\<forall>j\<in>set pq. pq_prio i < pq_prio j)"
  by (auto simp: pq_inv_def pq_valid_def pq_prio_def list_all_iff)

lemma pq_items_below: "pq_inv (i # pq) \<Longrightarrow> p \<le> pq_prio i \<Longrightarrow> pq_items pq p = None"
proof -
  assume "pq_inv (i # pq)" "p \<le> pq_prio i"
  then have "p \<notin> dom (pq_items pq)"
    by (auto simp: dom_pq_items pq_inv_Cons)
  then show ?thesis
    by (simp add: domIff)
qed

lemma insert_loop_spec:
  assumes "pq_inv pq" "pq_valid i"
  shows "pq_inv (snd (insert_loop i pq)) \<and> set (snd (insert_loop i pq)) \<subseteq> insert i (set pq) \<and>
    (case pq_items pq (pq_prio i) of
       None \<Rightarrow> fst (insert_loop i pq) \<and> pq_items (snd (insert_loop i pq)) = (pq_items pq)(pq_prio i \<mapsto> i)
     | Some _ \<Rightarrow> \<not> fst (insert_loop i pq) \<and> snd (insert_loop i pq) = pq)"
  using assms(1)
proof (induction pq)
  case Nil
  then show ?case
    using assms(2) by (simp add: pq_inv_def pq_valid_def pq_items_def)
next
  case (Cons j pq)
  have len: "length (priority j) = length (priority i)"
    using Cons.prems assms(2) by (simp add: pq_inv_Cons pq_valid_def)
  consider "pq_prio i < pq_prio j" | "pq_prio i = pq_prio j" | "pq_prio j < pq_prio i"
    by linarith
  then show ?case
  proof cases
    case 1
    then have "insert_loop i (j # pq) = (True, i # j # pq)"
      using memcmp_greater [OF len] by (simp add: pq_prio_def)
    then show ?thesis
      using 1 Cons.prems assms(2) pq_items_below [OF Cons.prems, of "pq_prio i"] by (auto simp: pq_inv_Cons pq_items_Cons split: option.splits)
  next
    case 2
    then have "insert_loop i (j # pq) = (False, j # pq)"
      using memcmp_zero [OF len] be_nat_inject [OF len] by (simp add: pq_prio_def)
    then show ?thesis
      using 2 Cons.prems by (auto simp: pq_items_Cons)
  next
    case 3
    then have "insert_loop i (j # pq) = (fst (insert_loop i pq), j # snd (insert_loop i pq))"
      using memcmp_less [OF len] by (simp add: pq_prio_def Let_def split: prod.splits)
    moreover have "pq_inv pq"
      using Cons.prems by (simp add: pq_inv_Cons)
    ultimately show ?thesis
      using 3 Cons.prems Cons.IH by (fastforce simp: pq_inv_Cons pq_items_Cons split: option.splits)
  qed
qed

interpretation pq: prio_queue pq_inv pq_items pq_prio pq_valid pqueue_new pqueue_insert pqueue_pop
proof
  fix q :: "'a pqueue" and i :: "'a pitem"
  assume inv: "pq_inv q" and pop: "fst (pqueue_pop q) = Some i"
  then obtain r where q: "q = i # r"
    by (auto simp: pqueue_pop_def split: list.splits)
  moreover have "pq_items r (pq_prio i) = None"
    using pq_items_below [of i r] inv q by simp
  then have "(pq_items r)(pq_prio i := None) = pq_items r"
    by (simp add: fun_upd_idem)
  moreover have "\<forall>p\<in>dom (pq_items q). pq_prio i \<le> p"
    using inv q by (auto simp: dom_pq_items pq_inv_Cons)
  ultimately show "pq_inv (snd (pqueue_pop q)) \<and> pq_items q (pq_prio i) = Some i \<and> (\<forall>p\<in>dom (pq_items q). pq_prio i \<le> p) \<and>
      pq_items (snd (pqueue_pop q)) = (pq_items q)(pq_prio i := None)"
    using inv by (simp add: pqueue_pop_def pq_items_Cons pq_inv_Cons)
next
  fix q :: "'a pqueue"
  show "fst (pqueue_pop q) = None \<longleftrightarrow> pq_items q = Map.empty"
    by (cases q) (auto simp: pqueue_pop_def pq_items_Nil pq_items_Cons)
next
  fix q :: "'a pqueue" and i :: "'a pitem"
  assume "pq_inv q" "pq_valid i"
  then show "pq_inv (snd (pqueue_insert i q)) \<and>
      (case pq_items q (pq_prio i) of
         None \<Rightarrow> fst (pqueue_insert i q) \<and> pq_items (snd (pqueue_insert i q)) = (pq_items q)(pq_prio i \<mapsto> i)
       | Some _ \<Rightarrow> \<not> fst (pqueue_insert i q) \<and> snd (pqueue_insert i q) = q)"
    using insert_loop_spec [of q i] unfolding pqueue_insert_eq by blast
qed (simp_all add: pqueue_new_def pq_inv_def pq_items_Nil)

section \<open>Finding and counting\<close>

lemma pqueue_size_eq: "pqueue_size pq = length pq"
proof -
  have "foldl (\<lambda>count item. count + 1) n pq = n + length pq" for n
    by (induction pq arbitrary: n) auto
  then show ?thesis
    by (simp add: pqueue_size_def)
qed

lemma find_loop_eq: "find_loop p pq = find (\<lambda>i. memcmp (priority i) p = 0) pq"
  by (induction p pq rule: find_loop.induct) auto

lemma pqueue_find_items:
  assumes "pq_inv pq" "length p = 8"
  shows "pqueue_find p pq = pq_items pq (be_nat p)"
proof -
  have "find_loop p pq = pq_items pq (be_nat p)"
    using assms(1)
  proof (induction pq)
    case (Cons i pq)
    then have "memcmp (priority i) p = 0 \<longleftrightarrow> pq_prio i = be_nat p"
      using memcmp_zero be_nat_inject assms(2) by (auto simp: pq_inv_Cons pq_valid_def pq_prio_def)
    then show ?case
      using Cons by (auto simp: find_loop_eq pq_items_Cons pq_inv_Cons)
  qed (simp add: pq_items_Nil)
  then show ?thesis
    by (cases pq) (auto simp: pqueue_find_def)
qed

lemma pq_items_fill:
  "pq_inv q \<Longrightarrow> list_all pq_valid is \<Longrightarrow> pq_items (pq.fill is q) p =
    (case pq_items q p of Some i \<Rightarrow> Some i | None \<Rightarrow> find (\<lambda>i. pq_prio i = p) is)"
proof (induction "is" arbitrary: q)
  case (Cons i "is")
  then show ?case
    using pq.ins [of q i] by (auto split: option.splits if_splits)
qed (auto split: option.splits)

lemma distinct_pq_prio: "pq_inv q \<Longrightarrow> distinct (map pq_prio q)"
  by (induction q) (auto simp: pq_inv_Cons)

lemma pq_fill_fold: "fold (\<lambda>i q. snd (pqueue_insert i q)) is q = pq.fill is q"
  by (induction "is" arbitrary: q) auto

section \<open>Properties\<close>

text \<open>
  C37. However items are inserted, a queue stays sorted by strictly increasing priorities; \<^verbatim>\<open>pqueue_find\<close> returns the first
  item inserted with a priority, later ones with the same priority being refused, and \<^verbatim>\<open>pqueue_size\<close> counts the different
  priorities.
\<close>

theorem pqueue_sorted_unique:
  assumes "list_all pq_valid is" "q = fold (\<lambda>i q. snd (pqueue_insert i q)) is pqueue_new"
  shows "sorted_wrt (<) (map pq_prio q) \<and> pqueue_size q = card (pq_prio ` set is) \<and>
    (\<forall>p. length p = 8 \<longrightarrow> pqueue_find p q = find (\<lambda>i. priority i = p) is) \<and>
    pqueue_peek q = fst (pqueue_pop q) \<and> sorted_wrt (<) (map pq_prio (snd (pqueue_pop q)))"
proof -
  have q: "q = pq.fill is pqueue_new"
    using assms(2) by (simp add: pq_fill_fold)
  have inv: "pq_inv q" and dom: "pq_prio ` set q = pq_prio ` set is"
    using pq.fill_inv [OF pq.new(1) assms(1)] by (auto simp: q pq.new(2) dom_pq_items [symmetric])
  have "pqueue_find p q = find (\<lambda>i. priority i = p) is" if p: "length p = 8" for p
  proof -
    have "pq_prio i = be_nat p \<longleftrightarrow> priority i = p" if "i \<in> set is" for i
      using assms(1) p that be_nat_inject [of "priority i" p] by (auto simp: list_all_iff pq_valid_def pq_prio_def)
    then have "find (\<lambda>i. pq_prio i = be_nat p) is = find (\<lambda>i. priority i = p) is"
      by (intro find_cong) auto
    then show ?thesis
      using pqueue_find_items [OF inv p] pq_items_fill [OF pq.new(1) assms(1), of "be_nat p"] by (simp add: q pq.new(2))
  qed
  moreover have "pqueue_size q = card (pq_prio ` set is)"
    using distinct_card [OF distinct_pq_prio [OF inv]] dom by (simp add: pqueue_size_eq)
  moreover have "sorted_wrt (<) (map pq_prio q)"
    using inv by (simp add: pq_inv_def pq_prio_def sorted_wrt_map)
  ultimately show ?thesis
    by (auto simp: pqueue_peek_def pqueue_pop_def split: list.splits)
qed

theorem pqueue_sorted_unique_witness:
  "let is = [\<lparr>priority = [0, 0, 0, 0, 0, 0, 1, 0], pi_data = 1\<rparr>, \<lparr>priority = [0, 0, 0, 0, 0, 0, 0, 9], pi_data = 2\<rparr>,
             \<lparr>priority = [0, 0, 0, 0, 0, 0, 1, 0], pi_data = (3 :: nat)\<rparr>];
       q = fold (\<lambda>i q. snd (pqueue_insert i q)) is pqueue_new
   in list_all pq_valid is \<and> sorted_wrt (<) (map pq_prio q) \<and> map_option pi_data (pqueue_find [0, 0, 0, 0, 0, 0, 1, 0] q) = Some 1"
proof -
  define xs where "xs = [\<lparr>priority = [0, 0, 0, 0, 0, 0, 1, 0], pi_data = 1\<rparr>, \<lparr>priority = [0, 0, 0, 0, 0, 0, 0, 9], pi_data = 2\<rparr>,
    \<lparr>priority = [0, 0, 0, 0, 0, 0, 1, 0], pi_data = (3 :: nat)\<rparr>]"
  have "list_all pq_valid xs"
    by (simp add: xs_def pq_valid_def)
  moreover have "find (\<lambda>i. priority i = [0, 0, 0, 0, 0, 0, 1, 0]) xs = Some \<lparr>priority = [0, 0, 0, 0, 0, 0, 1, 0], pi_data = 1\<rparr>"
    by (simp add: xs_def)
  ultimately show ?thesis
    using pqueue_sorted_unique [OF _ refl, of xs] unfolding xs_def [symmetric] Let_def by simp
qed

end
