(* ===== verification/Buf_Mem.thy ===== *)
theory Buf_Mem
  imports Prelude
begin

unbundle bit_operations_syntax

text \<open>
  The growing buffers of \<^verbatim>\<open>crypto/buffer/buffer.c\<close>. \<open>bm_data\<close> is the allocated memory, empty for the null pointer;
  \<open>ok\<close> says whether an allocation succeeds and \<open>mem\<close> what fresh memory holds.
\<close>

section \<open>Definitions\<close>

record buf_mem =
  bm_length :: nat
  bm_data :: "byte list"
  bm_max :: nat

definition LIMIT_BEFORE_EXPANSION :: nat where
  "LIMIT_BEFORE_EXPANSION = 0x5ffffffc"

definition BUF_MEM_new :: "bool \<Rightarrow> buf_mem option" where
  "BUF_MEM_new ok = (if \<not> ok then None else Some \<lparr>bm_length = 0, bm_data = [], bm_max = 0\<rparr>)"

text \<open>\<^verbatim>\<open>realloc\<close>, and the copy that \<^verbatim>\<open>BUF_MEM_grow_clean\<close> makes, keep the old contents.\<close>

definition enlarge :: "(nat \<Rightarrow> byte) \<Rightarrow> nat \<Rightarrow> byte list \<Rightarrow> byte list" where
  "enlarge mem n xs = xs @ map mem [length xs..<n]"

definition BUF_MEM_grow :: "bool \<Rightarrow> (nat \<Rightarrow> byte) \<Rightarrow> nat \<Rightarrow> buf_mem \<Rightarrow> nat \<times> buf_mem" where
  "BUF_MEM_grow ok mem len str =
     (if len \<le> bm_length str then (len, str\<lparr>bm_length := len\<rparr>)
      else if len \<le> bm_max str then
        (len, str\<lparr>bm_data := put_at (bm_length str) (replicate (len - bm_length str) 0) (bm_data str), bm_length := len\<rparr>)
      else if LIMIT_BEFORE_EXPANSION < len then (0, str)
      else
        let n = (len + 3) div 3 * 4 in
        if \<not> ok then (0, str)
        else
          (len, str\<lparr>bm_data := put_at (bm_length str) (replicate (len - bm_length str) 0) (enlarge mem n (bm_data str)),
                    bm_max := n, bm_length := len\<rparr>))"

definition BUF_MEM_grow_clean :: "bool \<Rightarrow> (nat \<Rightarrow> byte) \<Rightarrow> nat \<Rightarrow> buf_mem \<Rightarrow> nat \<times> buf_mem" where
  "BUF_MEM_grow_clean ok mem len str =
     (if len \<le> bm_length str then
        (len, str\<lparr>bm_data := put_at len (replicate (bm_length str - len) 0) (bm_data str), bm_length := len\<rparr>)
      else if len \<le> bm_max str then
        (len, str\<lparr>bm_data := put_at (bm_length str) (replicate (len - bm_length str) 0) (bm_data str), bm_length := len\<rparr>)
      else if LIMIT_BEFORE_EXPANSION < len then (0, str)
      else
        let n = (len + 3) div 3 * 4 in
        if \<not> ok then (0, str)
        else
          (len, str\<lparr>bm_data := put_at (bm_length str) (replicate (len - bm_length str) 0) (enlarge mem n (bm_data str)),
                    bm_max := n, bm_length := len\<rparr>))"

text \<open>\<^verbatim>\<open>BUF_reverse\<close> into another buffer, and in place with \<^verbatim>\<open>in\<close> null: the swap loop up to the middle.\<close>

fun reverse_into :: "byte list \<Rightarrow> byte list \<Rightarrow> byte list" where
  "reverse_into out [] = out"
| "reverse_into out (b # bs) = reverse_into (b # out) bs"

fun swap_loop :: "nat \<Rightarrow> nat \<Rightarrow> byte list \<Rightarrow> byte list" where
  "swap_loop 0 i xs = xs"
| "swap_loop (Suc k) i xs =
     (let q = length xs - 1 - i; c = xs ! q in swap_loop k (i + 1) (xs[q := xs ! i, i := c]))"

definition BUF_reverse :: "byte list \<Rightarrow> byte list option \<Rightarrow> byte list" where
  "BUF_reverse out inp = (case inp of Some bs \<Rightarrow> reverse_into [] bs | None \<Rightarrow> swap_loop (length out div 2) 0 out)"

section \<open>Growing\<close>

definition buf_wf :: "buf_mem \<Rightarrow> bool" where
  "buf_wf str \<longleftrightarrow> length (bm_data str) = bm_max str \<and> bm_length str \<le> bm_max str"

definition buf_bytes :: "buf_mem \<Rightarrow> byte list" where
  "buf_bytes str = take (bm_length str) (bm_data str)"

lemma length_enlarge: "length xs \<le> n \<Longrightarrow> length (enlarge mem n xs) = n"
  by (simp add: enlarge_def)

lemma grow_size: "len < (len + 3) div 3 * 4" for len :: nat
  by presburger

lemma BUF_MEM_grow_clean_correct:
  assumes "buf_wf str" "BUF_MEM_grow_clean ok mem len str = (r, str')" "0 < len"
  shows "buf_wf str' \<and> (if r = 0 then str' = str else r = len \<and> bm_length str' = len \<and>
    buf_bytes str' = take len (buf_bytes str) @ replicate (len - bm_length str) 0)"
proof -
  consider "len \<le> bm_length str" | "bm_length str < len" "len \<le> bm_max str" | "bm_max str < len"
    by linarith
  then show ?thesis
  proof cases
    case 1
    then show ?thesis
      using assms by (auto simp: BUF_MEM_grow_clean_def buf_wf_def buf_bytes_def put_at_def)
  next
    case 2
    then show ?thesis
      using assms by (auto simp: BUF_MEM_grow_clean_def buf_wf_def buf_bytes_def put_at_def)
  next
    case 3
    let ?n = "(len + 3) div 3 * 4"
    have e: "length (enlarge mem ?n (bm_data str)) = ?n" "take (bm_length str) (enlarge mem ?n (bm_data str)) = buf_bytes str"
      using assms(1) 3 grow_size [of len] by (auto simp: enlarge_def buf_wf_def buf_bytes_def)
    show ?thesis
      using assms 3 e grow_size [of len] by (auto simp: BUF_MEM_grow_clean_def buf_wf_def Let_def put_at_def buf_bytes_def split: if_splits)
  qed
qed

lemma BUF_MEM_grow_clean_ok:
  assumes "buf_wf str" "len \<le> LIMIT_BEFORE_EXPANSION" "0 < len"
  shows "fst (BUF_MEM_grow_clean True mem len str) = len"
  using assms by (simp add: BUF_MEM_grow_clean_def Let_def)

lemma reverse_into_rev: "reverse_into out bs = rev bs @ out"
  by (induction out bs rule: reverse_into.induct) auto

lemma swap_loop_middle:
  "length a = i \<Longrightarrow> length b = i \<Longrightarrow> k = length m div 2 \<Longrightarrow> swap_loop k i (a @ m @ b) = a @ rev m @ b"
proof (induction k arbitrary: a m b i)
  case 0
  then have "length m < 2"
    by linarith
  then have "m = [] \<or> (\<exists>x. m = [x])"
    by (cases m; cases "tl m") auto
  then show ?case
    by auto
next
  case (Suc k)
  then have "2 \<le> length m"
    by linarith
  then obtain x n y where m: "m = x # n @ [y]"
    by (metis append_butlast_last_id length_Cons length_append_singleton list.exhaust list.size(3) not_less_eq_eq numeral_2_eq_2 zero_le)
  have "swap_loop (Suc k) i (a @ m @ b) = swap_loop k (i + 1) ((a @ [y]) @ n @ (x # b))"
    using Suc.prems by (simp add: m list_update_append nth_append)
  also have "\<dots> = (a @ [y]) @ rev n @ (x # b)"
    using Suc.prems by (intro Suc.IH) (auto simp: m)
  finally show ?case
    by (simp add: m)
qed

lemma BUF_reverse_rev: "BUF_reverse out inp = rev (case inp of Some bs \<Rightarrow> bs | None \<Rightarrow> out)"
  using swap_loop_middle [of "[]" 0 "[]" "length out div 2" out] by (simp add: BUF_reverse_def reverse_into_rev split: option.splits)

end
