(* ===== verification/Dtls_Fragment.thy ===== *)
theory Dtls_Fragment
  imports Cbs Pqueue Buf_Mem
begin

unbundle bit_operations_syntax

text \<open>
  Handshake messages of DTLS, in \<^verbatim>\<open>ssl/d1_both.c\<close>: a message arrives in fragments, in any order and possibly more than
  once; the fragments of a message are collected in a buffer with a bit mask of the bytes received, and complete
  messages wait in a queue until their turn comes. \<^verbatim>\<open>ssl_read_bytes\<close> is the function \<open>rd\<close> on a state of its own: it
  returns an error code that is not positive or the bytes read. \<open>ok\<close> says which allocations succeed and
  \<open>mem\<close> what fresh memory holds.
\<close>

section \<open>Definitions\<close>

definition RSMBLY_BITMASK_SIZE :: "nat \<Rightarrow> nat" where
  "RSMBLY_BITMASK_SIZE msg_len = (msg_len + 7) div 8"

definition bitmask_start_values :: "byte list" where
  "bitmask_start_values = [0xff, 0xfe, 0xfc, 0xf8, 0xf0, 0xe0, 0xc0, 0x80]"

definition bitmask_end_values :: "byte list" where
  "bitmask_end_values = [0xff, 0x01, 0x03, 0x07, 0x0f, 0x1f, 0x3f, 0x7f]"

definition set_bits :: "nat \<Rightarrow> byte \<Rightarrow> byte list \<Rightarrow> byte list" where
  "set_bits i v bitmask = bitmask[i := bitmask ! i OR v]"

definition RSMBLY_BITMASK_MARK :: "nat \<Rightarrow> nat \<Rightarrow> byte list \<Rightarrow> byte list" where
  "RSMBLY_BITMASK_MARK start fin bitmask =
     (if fin - start \<le> 8 then fold (\<lambda>ii. set_bits (ii div 8) (push_bit (ii mod 8) 1)) [start..<fin] bitmask
      else
        let bitmask = set_bits (start div 8) (bitmask_start_values ! (start mod 8)) bitmask;
            bitmask = fold (\<lambda>ii b. b[ii := 0xff]) [start div 8 + 1..<(fin - 1) div 8] bitmask
        in set_bits ((fin - 1) div 8) (bitmask_end_values ! (fin mod 8)) bitmask)"

text \<open>The assertion of \<^verbatim>\<open>RSMBLY_BITMASK_IS_COMPLETE\<close> holds where it is used: \<open>msg_len\<close> is positive.\<close>

definition RSMBLY_BITMASK_IS_COMPLETE :: "nat \<Rightarrow> byte list \<Rightarrow> bool" where
  "RSMBLY_BITMASK_IS_COMPLETE msg_len bitmask =
     (if bitmask ! ((msg_len - 1) div 8) \<noteq> bitmask_end_values ! (msg_len mod 8) then False
      else list_all (\<lambda>ii. bitmask ! ii = 0xff) (rev [0..<(msg_len - 1) div 8]))"

record hm_header =
  hm_type :: byte
  hm_msg_len :: nat
  hm_seq :: u16
  hm_frag_off :: nat
  hm_frag_len :: nat

record hm_fragment =
  hf_header :: hm_header
  hf_fragment :: "byte list"
  hf_reassembly :: "byte list option"

record 'r hm_state =
  hs_buffered_messages :: "hm_fragment pqueue"
  hs_handshake_read_seq :: u16
  hs_init_buf :: buf_mem
  hs_init_num :: int
  hs_r_msg_hdr :: hm_header
  hs_message_size :: nat
  hs_message_type :: byte
  hs_max_cert_list :: nat
  hs_alert :: "int option"
  hs_input :: 'r

type_synonym 'r reader = "nat \<Rightarrow> 'r \<Rightarrow> (int + byte list) \<times> 'r"

definition DTLS1_HM_HEADER_LENGTH :: nat where
  "DTLS1_HM_HEADER_LENGTH = 12"

definition DTLS1_HM_FRAGMENT_RETRY :: int where
  "DTLS1_HM_FRAGMENT_RETRY = - 3"

definition SSL3_RT_MAX_ENCRYPTED_LENGTH :: nat where
  "SSL3_RT_MAX_ENCRYPTED_LENGTH = (256 + 64) + 16384"

definition SSL_AD_ILLEGAL_PARAMETER :: int where
  "SSL_AD_ILLEGAL_PARAMETER = 47"

definition SSL_AD_INTERNAL_ERROR :: int where
  "SSL_AD_INTERNAL_ERROR = 80"

definition dtls1_hm_fragment_new :: "bool \<times> bool \<times> bool \<Rightarrow> (nat \<Rightarrow> byte) \<Rightarrow> hm_header \<Rightarrow> nat \<Rightarrow> bool \<Rightarrow> hm_fragment option" where
  "dtls1_hm_fragment_new ok mem hdr frag_len reassembly =
     (if \<not> fst ok then None
      else if frag_len \<noteq> 0 \<and> \<not> fst (snd ok) then None
      else if reassembly \<and> \<not> snd (snd ok) then None
      else
        Some \<lparr>hf_header = hdr, hf_fragment = map mem [0..<frag_len],
              hf_reassembly = (if reassembly then Some (replicate (RSMBLY_BITMASK_SIZE frag_len) 0) else None)\<rparr>)"

text \<open>The header of a fragment is read from twelve bytes; the reader is set up with the size of \<^verbatim>\<open>struct hm_header_st\<close>, 80 bytes.\<close>

definition dtls1_get_message_header :: "byte list \<Rightarrow> hm_header option" where
  "dtls1_get_message_header data =
     (let header = CBS_init data 80 in
      case CBS_get_u8 header of
        (None, _) \<Rightarrow> None
      | (Some ty, header) \<Rightarrow>
          (case CBS_get_u24 header of
             (None, _) \<Rightarrow> None
           | (Some msg_len, header) \<Rightarrow>
               (case CBS_get_u16 header of
                  (None, _) \<Rightarrow> None
                | (Some seq, header) \<Rightarrow>
                    (case CBS_get_u24 header of
                       (None, _) \<Rightarrow> None
                     | (Some frag_off, header) \<Rightarrow>
                         (case CBS_get_u24 header of
                            (None, _) \<Rightarrow> None
                          | (Some frag_len, _) \<Rightarrow>
                              Some \<lparr>hm_type = ty, hm_msg_len = unat msg_len, hm_seq = seq, hm_frag_off = unat frag_off,
                                    hm_frag_len = unat frag_len\<rparr>)))))"

definition dtls1_preprocess_fragment :: "bool \<Rightarrow> (nat \<Rightarrow> byte) \<Rightarrow> hm_header \<Rightarrow> nat \<Rightarrow> 'r hm_state \<Rightarrow> int \<times> 'r hm_state" where
  "dtls1_preprocess_fragment ok mem msg_hdr max_len s =
     (let msg_len = hm_msg_len msg_hdr; frag_off = hm_frag_off msg_hdr; frag_len = hm_frag_len msg_hdr in
      if msg_len < frag_off + frag_len then (SSL_AD_ILLEGAL_PARAMETER, s)
      else if max_len < frag_off + frag_len then (SSL_AD_ILLEGAL_PARAMETER, s)
      else if hm_frag_off (hs_r_msg_hdr s) = 0 then
        let (r, buf) = BUF_MEM_grow_clean ok mem (msg_len + DTLS1_HM_HEADER_LENGTH) (hs_init_buf s) in
        if r = 0 then (SSL_AD_INTERNAL_ERROR, s\<lparr>hs_init_buf := buf\<rparr>)
        else
          (0, s\<lparr>hs_init_buf := buf, hs_message_size := msg_len, hs_message_type := hm_type msg_hdr,
                hs_r_msg_hdr := (hs_r_msg_hdr s)\<lparr>hm_msg_len := msg_len, hm_type := hm_type msg_hdr, hm_seq := hm_seq msg_hdr\<rparr>\<rparr>)
      else if msg_len \<noteq> hm_msg_len (hs_r_msg_hdr s) then (SSL_AD_ILLEGAL_PARAMETER, s)
      else (0, s))"

definition seq64be :: "u16 \<Rightarrow> byte list" where
  "seq64be seq = replicate 6 0 @ [ucast (drop_bit 8 seq), ucast seq]"

definition dtls1_max_handshake_message_len :: "'r hm_state \<Rightarrow> nat" where
  "dtls1_max_handshake_message_len s =
     (let max_len = DTLS1_HM_HEADER_LENGTH + SSL3_RT_MAX_ENCRYPTED_LENGTH in
      if max_len < hs_max_cert_list s then hs_max_cert_list s else max_len)"

text \<open>The loop that reads \<open>frag_len\<close> bytes and drops them; \<open>None\<close> if it reached the end.\<close>

function read_devnull :: "'r reader \<Rightarrow> nat \<Rightarrow> 'r \<Rightarrow> int option \<times> 'r" where
  "read_devnull rd frag_len r =
     (if frag_len = 0 then (None, r)
      else
        case rd (if 256 < frag_len then 256 else frag_len) r of
          (Inl i, r) \<Rightarrow> (Some i, r)
        | (Inr bs, r) \<Rightarrow> if bs = [] then (Some 0, r) else read_devnull rd (frag_len - length bs) r)"
  by pat_completeness auto

termination read_devnull
  by (relation "measure (\<lambda>(rd, frag_len, r). frag_len)") auto

text \<open>The first item that is not stale; the stale ones are dropped.\<close>

fun drop_stale :: "u16 \<Rightarrow> hm_fragment pqueue \<Rightarrow> hm_fragment pqueue" where
  "drop_stale read_seq [] = []"
| "drop_stale read_seq (item # rest) =
     (if hm_seq (hf_header (pi_data item)) < read_seq then drop_stale read_seq rest else item # rest)"

text \<open>Returns the value of \<^verbatim>\<open>ok\<close> and the result.\<close>

definition dtls1_retrieve_buffered_fragment :: "bool \<Rightarrow> (nat \<Rightarrow> byte) \<Rightarrow> nat \<Rightarrow> 'r hm_state \<Rightarrow> (bool \<times> int) \<times> 'r hm_state" where
  "dtls1_retrieve_buffered_fragment ok mem max_len s =
     (let s = s\<lparr>hs_buffered_messages := drop_stale (hs_handshake_read_seq s) (hs_buffered_messages s)\<rparr> in
      case pqueue_peek (hs_buffered_messages s) of
        None \<Rightarrow> ((False, 0), s)
      | Some item \<Rightarrow>
          let frag = pi_data item in
          if hf_reassembly frag \<noteq> None then ((False, 0), s)
          else if hs_handshake_read_seq s = hm_seq (hf_header frag) then
            let s = s\<lparr>hs_buffered_messages := snd (pqueue_pop (hs_buffered_messages s))\<rparr>;
                (al, s) = dtls1_preprocess_fragment ok mem (hf_header frag) max_len s
            in if al = 0 then
                 ((True, int (hm_frag_len (hf_header frag))),
                  s\<lparr>hs_init_buf := (hs_init_buf s)\<lparr>bm_data := put_at (DTLS1_HM_HEADER_LENGTH + hm_frag_off (hf_header frag))
                       (take (hm_frag_len (hf_header frag)) (hf_fragment frag)) (bm_data (hs_init_buf s))\<rparr>\<rparr>)
               else ((False, - 1), s\<lparr>hs_alert := Some al, hs_init_num := 0\<rparr>)
          else ((False, 0), s))"

text \<open>
  The second half of \<^verbatim>\<open>dtls1_reassemble_fragment\<close>, once the fragment is found in the queue (\<open>queued\<close>) or new. A fragment
  in the queue is changed in place.
\<close>

definition store_fragment :: "byte list \<Rightarrow> hm_fragment \<Rightarrow> hm_fragment pqueue \<Rightarrow> hm_fragment pqueue" where
  "store_fragment seq frag q = map (\<lambda>item. if priority item = seq then item\<lparr>pi_data := frag\<rparr> else item) q"

definition reassemble_body :: "bool \<Rightarrow> 'r reader \<Rightarrow> hm_header \<Rightarrow> bool \<Rightarrow> hm_fragment \<Rightarrow> 'r hm_state \<Rightarrow> int \<times> 'r hm_state" where
  "reassemble_body ok rd msg_hdr queued frag s =
     (let frag_len = hm_frag_len msg_hdr; q = hs_buffered_messages s; seq = seq64be (hm_seq msg_hdr) in
      case hf_reassembly frag of
        None \<Rightarrow>
          (case read_devnull rd frag_len (hs_input s) of
             (Some i, r) \<Rightarrow> (i, s\<lparr>hs_input := r\<rparr>)
           | (None, r) \<Rightarrow> (DTLS1_HM_FRAGMENT_RETRY, s\<lparr>hs_input := r\<rparr>))
      | Some bitmask \<Rightarrow>
          (case rd frag_len (hs_input s) of
             (Inl i, r) \<Rightarrow> (- 1, s\<lparr>hs_input := r\<rparr>)
           | (Inr bs, r) \<Rightarrow>
               let s = s\<lparr>hs_input := r\<rparr>; frag = frag\<lparr>hf_fragment := put_at (hm_frag_off msg_hdr) bs (hf_fragment frag)\<rparr> in
               if length bs \<noteq> frag_len then (- 1, if queued then s\<lparr>hs_buffered_messages := store_fragment seq frag q\<rparr> else s)
               else
                 let bitmask = RSMBLY_BITMASK_MARK (hm_frag_off msg_hdr) (hm_frag_off msg_hdr + frag_len) bitmask;
                     frag = frag\<lparr>hf_reassembly := (if RSMBLY_BITMASK_IS_COMPLETE (hm_msg_len msg_hdr) bitmask then None else Some bitmask)\<rparr>
                 in if queued then (DTLS1_HM_FRAGMENT_RETRY, s\<lparr>hs_buffered_messages := store_fragment seq frag q\<rparr>)
                    else
                      case pitem_new ok seq frag of
                        None \<Rightarrow> (- 1, s)
                      | Some item \<Rightarrow> (DTLS1_HM_FRAGMENT_RETRY, s\<lparr>hs_buffered_messages := snd (pqueue_insert item q)\<rparr>)))"

text \<open>\<open>ok\<close>: the three allocations of a new fragment and the one of its item.\<close>

definition dtls1_reassemble_fragment ::
  "(bool \<times> bool \<times> bool) \<times> bool \<Rightarrow> (nat \<Rightarrow> byte) \<Rightarrow> 'r reader \<Rightarrow> hm_header \<Rightarrow> 'r hm_state \<Rightarrow> int \<times> 'r hm_state" where
  "dtls1_reassemble_fragment ok mem rd msg_hdr s =
     (if hm_msg_len msg_hdr < hm_frag_off msg_hdr + hm_frag_len msg_hdr \<or> dtls1_max_handshake_message_len s < hm_msg_len msg_hdr
      then (- 1, s)
      else if hm_frag_len msg_hdr = 0 then (DTLS1_HM_FRAGMENT_RETRY, s)
      else
        case pqueue_find (seq64be (hm_seq msg_hdr)) (hs_buffered_messages s) of
          None \<Rightarrow>
            (case dtls1_hm_fragment_new (fst ok) mem (msg_hdr\<lparr>hm_frag_len := hm_msg_len msg_hdr, hm_frag_off := 0\<rparr>) (hm_msg_len msg_hdr) True of
               None \<Rightarrow> (- 1, s)
             | Some frag \<Rightarrow> reassemble_body (snd ok) rd msg_hdr False frag s)
        | Some item \<Rightarrow>
            if hm_msg_len (hf_header (pi_data item)) \<noteq> hm_msg_len msg_hdr then (- 1, s)
            else reassemble_body (snd ok) rd msg_hdr True (pi_data item) s)"

text \<open>\<open>SSL3_MT_FINISHED\<close> is 20. A message that is too early is buffered, any other is read and dropped.\<close>

definition dtls1_process_out_of_seq_message ::
  "(bool \<times> bool \<times> bool) \<times> bool \<Rightarrow> (nat \<Rightarrow> byte) \<Rightarrow> 'r reader \<Rightarrow> hm_header \<Rightarrow> 'r hm_state \<Rightarrow> int \<times> 'r hm_state" where
  "dtls1_process_out_of_seq_message ok mem rd msg_hdr s =
     (let frag_len = hm_frag_len msg_hdr; q = hs_buffered_messages s; seq = seq64be (hm_seq msg_hdr) in
      if hm_msg_len msg_hdr < hm_frag_off msg_hdr + frag_len then (- 1, s)
      else
        let present = pqueue_find seq q \<noteq> None \<and> frag_len = hm_msg_len msg_hdr in
        if hm_seq msg_hdr \<le> hs_handshake_read_seq s \<or> unat (hs_handshake_read_seq s) + 10 < unat (hm_seq msg_hdr) \<or> present \<or>
           hs_handshake_read_seq s = 0 \<and> hm_type msg_hdr = 20
        then
          case read_devnull rd frag_len (hs_input s) of
            (Some i, r) \<Rightarrow> (i, s\<lparr>hs_input := r\<rparr>)
          | (None, r) \<Rightarrow> (DTLS1_HM_FRAGMENT_RETRY, s\<lparr>hs_input := r\<rparr>)
        else if frag_len \<noteq> hm_msg_len msg_hdr then dtls1_reassemble_fragment ok mem rd msg_hdr s
        else if dtls1_max_handshake_message_len s < frag_len then (- 1, s)
        else
          case dtls1_hm_fragment_new (fst ok) mem msg_hdr frag_len False of
            None \<Rightarrow> (- 1, s)
          | Some frag \<Rightarrow>
              let (res, r) = (if frag_len \<noteq> 0 then rd frag_len (hs_input s) else (Inr [], hs_input s)); s = s\<lparr>hs_input := r\<rparr> in
              case res of
                Inl i \<Rightarrow> (- 1, s)
              | Inr bs \<Rightarrow>
                  if length bs \<noteq> frag_len then (- 1, s)
                  else
                    case pitem_new (snd ok) seq (frag\<lparr>hf_fragment := bs\<rparr>) of
                      None \<Rightarrow> (- 1, s)
                    | Some item \<Rightarrow> (DTLS1_HM_FRAGMENT_RETRY, s\<lparr>hs_buffered_messages := snd (pqueue_insert item q)\<rparr>))"

definition dtls1_clear_received_buffer :: "hm_fragment pqueue \<Rightarrow> hm_fragment pqueue" where
  "dtls1_clear_received_buffer q = []"

section \<open>The bit mask\<close>

definition mask_set :: "byte list \<Rightarrow> nat set" where
  "mask_set b = {i. i < 8 * length b \<and> bit (b ! (i div 8)) (i mod 8)}"

lemma bitmask_values:
  "r < 8 \<Longrightarrow> j < 8 \<Longrightarrow> bit (bitmask_start_values ! r) j \<longleftrightarrow> r \<le> j"
  "r < 8 \<Longrightarrow> j < 8 \<Longrightarrow> bit (bitmask_end_values ! r) j \<longleftrightarrow> r = 0 \<or> j < r"
proof -
  have "\<forall>r\<in>{0..<8}. \<forall>j\<in>{0..<8}. (bit (bitmask_start_values ! r) j \<longleftrightarrow> r \<le> j) \<and> (bit (bitmask_end_values ! r) j \<longleftrightarrow> r = 0 \<or> j < r)"
    by (simp add: bitmask_start_values_def bitmask_end_values_def atLeast0_lessThan_Suc numeral_eq_Suc)
  then show "r < 8 \<Longrightarrow> j < 8 \<Longrightarrow> bit (bitmask_start_values ! r) j \<longleftrightarrow> r \<le> j"
    "r < 8 \<Longrightarrow> j < 8 \<Longrightarrow> bit (bitmask_end_values ! r) j \<longleftrightarrow> r = 0 \<or> j < r"
    by auto
qed

lemma bit_ff: "bit (255 :: int) (k mod 8)" for k :: nat
  using bitmask_values(1) [of 0 "k mod 8"] by (simp add: bitmask_start_values_def)

lemma length_set_bits [simp]: "length (set_bits i v b) = length b"
  by (simp add: set_bits_def)

lemma mask_set_bits: "i < length b \<Longrightarrow> mask_set (set_bits i v b) = mask_set b \<union> {k. k div 8 = i \<and> bit v (k mod 8)}"
  by (auto simp: mask_set_def set_bits_def nth_list_update bit_or_iff)

lemma mask_set_ff: "i < length b \<Longrightarrow> mask_set (b[i := 0xff]) = mask_set b \<union> {k. k div 8 = i}"
  by (auto simp: mask_set_def nth_list_update bit_ff)

lemma mark_short:
  assumes "fin \<le> 8 * length b"
  shows "length (fold (\<lambda>ii. set_bits (ii div 8) (push_bit (ii mod 8) 1)) [start..<fin] b) = length b \<and>
    mask_set (fold (\<lambda>ii. set_bits (ii div 8) (push_bit (ii mod 8) 1)) [start..<fin] b) = mask_set b \<union> {start..<fin}"
  using assms
proof (induction fin)
  case (Suc fin)
  have bit: "bit (push_bit (fin mod 8) 1 :: byte) (k mod 8) \<longleftrightarrow> k mod 8 = fin mod 8" for k
  proof -
    have "fin mod 8 < 8" "k mod 8 < 8"
      by simp_all
    then show ?thesis
      by (auto simp: bit_exp_iff)
  qed
  have one: "{k. k div 8 = fin div 8 \<and> bit (push_bit (fin mod 8) 1 :: byte) (k mod 8)} = {fin}"
    unfolding bit by (auto, metis div_mult_mod_eq)
  show ?case
  proof (cases "start \<le> fin")
    case True
    then show ?thesis
      using Suc by (simp only: upt_Suc_append fold_append fold_Cons fold_Nil comp_apply id_apply length_set_bits atLeastLessThanSuc if_True
          mask_set_bits [of "fin div 8", OF less_mult_imp_div_less] one) (auto simp: mult.commute)
  next
    case False
    then show ?thesis
      using Suc by simp
  qed
qed simp

lemma mark_middle:
  assumes "n \<le> length b"
  shows "length (fold (\<lambda>ii b. b[ii := 0xff]) [m..<n] b) = length b \<and>
    mask_set (fold (\<lambda>ii b. b[ii := 0xff]) [m..<n] b) = mask_set b \<union> {k. m \<le> k div 8 \<and> k div 8 < n}"
  using assms
proof (induction n)
  case (Suc n)
  have set: "m \<le> n \<Longrightarrow> {k. m \<le> g k \<and> g k < Suc n} = {k. m \<le> g k \<and> g k < n} \<union> {k. g k = n}"
    "\<not> m \<le> n \<Longrightarrow> {k. m \<le> g k \<and> g k < Suc n} = {}" for g :: "nat \<Rightarrow> nat"
    by auto
  show ?case
  proof (cases "m \<le> n")
    case True
    then show ?thesis
      using Suc by (simp add: set(1) mask_set_ff Un_assoc)
  next
    case False
    then show ?thesis
      by (simp add: set(2))
  qed
qed simp

lemma end_mod8:
  fixes n :: nat
  assumes "0 < n" "r < 8"
  shows "n mod 8 = 0 \<or> r < n mod 8 \<longleftrightarrow> r \<le> (n - 1) mod 8" "8 * ((n - 1) div 8) + r < n \<longleftrightarrow> r \<le> (n - 1) mod 8"
proof -
  show "n mod 8 = 0 \<or> r < n mod 8 \<longleftrightarrow> r \<le> (n - 1) mod 8"
    using assms mod_Suc [of "n - 1" 8] by (cases "Suc ((n - 1) mod 8) = 8") auto
  have "8 * ((n - 1) div 8) + r < n \<longleftrightarrow> 8 * ((n - 1) div 8) + r \<le> n - 1"
    using assms(1) by linarith
  also have "\<dots> \<longleftrightarrow> 8 * ((n - 1) div 8) + r \<le> 8 * ((n - 1) div 8) + (n - 1) mod 8"
    by (simp only: mult_div_mod_eq)
  finally show "8 * ((n - 1) div 8) + r < n \<longleftrightarrow> r \<le> (n - 1) mod 8"
    by (simp only: add_le_cancel_left)
qed

lemma bytes_between:
  fixes k :: nat
  assumes "s < e" "u < 8" "v < 8"
  shows "k div 8 = s \<and> u \<le> k mod 8 \<or> s < k div 8 \<and> k div 8 < e \<or> k div 8 = e \<and> k mod 8 \<le> v \<longleftrightarrow> 8 * s + u \<le> k \<and> k \<le> 8 * e + v"
proof -
  define a r where "a = k div 8" and "r = k mod 8"
  have k: "k = 8 * a + r" "r < 8"
    by (simp_all add: a_def r_def)
  have "a = s \<and> u \<le> r \<or> s < a \<and> a < e \<or> a = e \<and> r \<le> v \<longleftrightarrow> 8 * s + u \<le> 8 * a + r \<and> 8 * a + r \<le> 8 * e + v"
    using assms k(2) by linarith
  then show ?thesis
    unfolding a_def [symmetric] r_def [symmetric] k(1) [symmetric] .
qed

lemma RSMBLY_BITMASK_MARK_correct:
  assumes "start < fin" "fin \<le> 8 * length b"
  shows "length (RSMBLY_BITMASK_MARK start fin b) = length b" "mask_set (RSMBLY_BITMASK_MARK start fin b) = mask_set b \<union> {start..<fin}"
proof -
  have "length (RSMBLY_BITMASK_MARK start fin b) = length b \<and> mask_set (RSMBLY_BITMASK_MARK start fin b) = mask_set b \<union> {start..<fin}"
  proof (cases "fin - start \<le> 8")
    case True
    then show ?thesis
      using mark_short [OF assms(2), of start] by (simp add: RSMBLY_BITMASK_MARK_def)
  next
    case False
    let ?s = "start div 8" and ?e = "(fin - 1) div 8"
    define b1 where "b1 = set_bits ?s (bitmask_start_values ! (start mod 8)) b"
    define b2 where "b2 = fold (\<lambda>ii b. b[ii := 0xff]) [?s + 1..<?e] b1"
    have e: "?s < ?e" "?e < length b"
      using False assms by auto
    have b1: "length b1 = length b" "mask_set b1 = mask_set b \<union> {k. k div 8 = ?s \<and> start mod 8 \<le> k mod 8}"
      using e mask_set_bits [of ?s b] bitmask_values(1) [of "start mod 8"] by (simp_all add: b1_def)
    have b2: "length b2 = length b" "mask_set b2 = mask_set b1 \<union> {k. ?s + 1 \<le> k div 8 \<and> k div 8 < ?e}"
      using mark_middle [of ?e b1 "?s + 1"] e b1(1) by (simp_all add: b2_def)
    have b3: "mask_set (set_bits ?e (bitmask_end_values ! (fin mod 8)) b2) = mask_set b2 \<union> {k. k div 8 = ?e \<and> (fin mod 8 = 0 \<or> k mod 8 < fin mod 8)}"
      using e b2(1) mask_set_bits [of ?e b2] bitmask_values(2) [of "fin mod 8"] by simp
    have fin8: "fin mod 8 = 0 \<or> k mod 8 < fin mod 8 \<longleftrightarrow> k mod 8 \<le> (fin - 1) mod 8" for k
      using end_mod8(1) [of fin "k mod 8"] assms(1) by simp
    have "k \<le> fin - 1 \<longleftrightarrow> k < fin" for k
      using assms(1) by linarith
    then have between: "k div 8 = ?s \<and> start mod 8 \<le> k mod 8 \<or> ?s < k div 8 \<and> k div 8 < ?e \<or> k div 8 = ?e \<and> k mod 8 \<le> (fin - 1) mod 8 \<longleftrightarrow>
        start \<le> k \<and> k < fin" for k
      using bytes_between [OF e(1), of "start mod 8" "(fin - 1) mod 8" k] by simp
    have "{k. k div 8 = ?s \<and> start mod 8 \<le> k mod 8} \<union> {k. ?s + 1 \<le> k div 8 \<and> k div 8 < ?e} \<union>
        {k. k div 8 = ?e \<and> (fin mod 8 = 0 \<or> k mod 8 < fin mod 8)} = {start..<fin}"
      unfolding fin8 using between by (simp only: set_eq_iff Un_iff mem_Collect_eq atLeastLessThan_iff Suc_eq_plus1 [symmetric] Suc_le_eq disj_assoc simp_thms)
    moreover have "RSMBLY_BITMASK_MARK start fin b = set_bits ?e (bitmask_end_values ! (fin mod 8)) b2"
      using False by (simp only: RSMBLY_BITMASK_MARK_def b1_def b2_def Let_def if_False)
    ultimately show ?thesis
      using b1 b2 b3 by (simp only: length_set_bits Un_assoc simp_thms)
  qed
  then show "length (RSMBLY_BITMASK_MARK start fin b) = length b" "mask_set (RSMBLY_BITMASK_MARK start fin b) = mask_set b \<union> {start..<fin}"
    by auto
qed

lemma byte_eq_bits: "(a :: byte) = c \<longleftrightarrow> (\<forall>j<8. bit a j \<longleftrightarrow> bit c j)"
  by (auto intro: bit_word_eqI)

lemma RSMBLY_BITMASK_IS_COMPLETE_iff:
  assumes "0 < n" "length b = RSMBLY_BITMASK_SIZE n" "mask_set b \<subseteq> {0..<n}"
  shows "RSMBLY_BITMASK_IS_COMPLETE n b \<longleftrightarrow> mask_set b = {0..<n}"
proof -
  let ?e = "(n - 1) div 8"
  have len: "length b = ?e + 1"
    using assms(1,2) by (simp add: RSMBLY_BITMASK_SIZE_def)
  have bits: "bit (b ! i) j \<longleftrightarrow> 8 * i + j \<in> mask_set b" if "i < length b" "j < 8" for i j
    using that by (auto simp: mask_set_def)
  have last: "b ! ?e = bitmask_end_values ! (n mod 8) \<longleftrightarrow> (\<forall>k\<in>{8 * ?e..<n}. k \<in> mask_set b)"
  proof
    assume eq: "b ! ?e = bitmask_end_values ! (n mod 8)"
    show "\<forall>k\<in>{8 * ?e..<n}. k \<in> mask_set b"
    proof
      fix k
      assume k: "k \<in> {8 * ?e..<n}"
      then have "k div 8 \<le> ?e" "?e \<le> k div 8"
        using assms(1) div_le_mono [of k "n - 1" 8] by auto
      then have k8: "8 * ?e + k mod 8 = k"
        by (metis le_antisym mult_div_mod_eq)
      then have "n mod 8 = 0 \<or> k mod 8 < n mod 8"
        using end_mod8 [OF assms(1), of "k mod 8"] k by simp
      then show "k \<in> mask_set b"
        using bits [of ?e "k mod 8"] bitmask_values(2) [of "n mod 8" "k mod 8"] eq len k8 by simp
    qed
  next
    assume all: "\<forall>k\<in>{8 * ?e..<n}. k \<in> mask_set b"
    have "bit (b ! ?e) j \<longleftrightarrow> n mod 8 = 0 \<or> j < n mod 8" if j: "j < 8" for j
    proof -
      have "8 * ?e + j < n \<longleftrightarrow> n mod 8 = 0 \<or> j < n mod 8"
        using end_mod8 [OF assms(1) j] by simp
      moreover have "8 * ?e + j \<in> mask_set b \<longleftrightarrow> 8 * ?e + j < n"
        using all subsetD [OF assms(3), of "8 * ?e + j"] by auto
      moreover have "bit (b ! ?e) j \<longleftrightarrow> 8 * ?e + j \<in> mask_set b"
        using len j by (intro bits) simp_all
      ultimately show ?thesis
        by (simp only:)
    qed
    then show "b ! ?e = bitmask_end_values ! (n mod 8)"
      using bitmask_values(2) [of "n mod 8"] by (simp add: byte_eq_bits)
  qed
  have rest: "list_all (\<lambda>ii. b ! ii = 0xff) (rev [0..<?e]) \<longleftrightarrow> (\<forall>k\<in>{0..<8 * ?e}. k \<in> mask_set b)"
  proof -
    have ff: "b ! i = 0xff \<longleftrightarrow> (\<forall>j<8. 8 * i + j \<in> mask_set b)" if "i < ?e" for i
      using bits [of i] that len bitmask_values(1) [of 0] by (simp add: byte_eq_bits bitmask_start_values_def)
    have "(\<forall>i<?e. \<forall>j<8. 8 * i + j \<in> mask_set b) \<longleftrightarrow> (\<forall>k\<in>{0..<8 * ?e}. k \<in> mask_set b)"
    proof (intro iffI ballI allI impI)
      fix k
      assume all: "\<forall>i<?e. \<forall>j<8. 8 * i + j \<in> mask_set b" and k: "k \<in> {0..<8 * ?e}"
      then show "k \<in> mask_set b"
        using all [rule_format, of "k div 8" "k mod 8"] by simp
    qed auto
    moreover have "list_all (\<lambda>ii. b ! ii = 0xff) (rev [0..<?e]) \<longleftrightarrow> (\<forall>i<?e. \<forall>j<8. 8 * i + j \<in> mask_set b)"
      using ff by (auto simp: list_all_iff)
    ultimately show ?thesis
      by (simp only:)
  qed
  have "(\<forall>k\<in>{8 * ?e..<n}. k \<in> mask_set b) \<and> (\<forall>k\<in>{0..<8 * ?e}. k \<in> mask_set b) \<longleftrightarrow> mask_set b = {0..<n}"
  proof -
    have "8 * ?e \<le> n"
      by simp
    then have "{0..<n} = {0..<8 * ?e} \<union> {8 * ?e..<n}"
      by auto
    then show ?thesis
      using assms(3) by blast
  qed
  moreover have "RSMBLY_BITMASK_IS_COMPLETE n b \<longleftrightarrow> b ! ?e = bitmask_end_values ! (n mod 8) \<and> list_all (\<lambda>ii. b ! ii = 0xff) (rev [0..<?e])"
    by (simp add: RSMBLY_BITMASK_IS_COMPLETE_def)
  ultimately show ?thesis
    unfolding last rest by (simp only:)
qed

section \<open>Reassembly\<close>

text \<open>A connection that delivers the bytes of \<open>r\<close>.\<close>

definition stream_reader :: "byte list reader" where
  "stream_reader n r = (Inr (take n r), drop n r)"

lemma read_devnull_stream: "n \<le> length r \<Longrightarrow> read_devnull stream_reader n r = (None, drop n r)"
proof (induction n arbitrary: r rule: less_induct)
  case (less n)
  let ?m = "if 256 < n then 256 else n"
  show ?case
  proof (cases "n = 0")
    case False
    then have m: "0 < ?m" "?m \<le> n" "take ?m r \<noteq> []" "length (take ?m r) = ?m"
      using less.prems by auto
    have "read_devnull stream_reader n r = read_devnull stream_reader (n - ?m) (drop ?m r)"
      using False m(3,4) by (subst read_devnull.simps) (simp only: stream_reader_def prod.case sum.case if_False)
    also have "\<dots> = (None, drop (n - ?m) (drop ?m r))"
      using m(1,2) less.prems False by (intro less.IH) auto
    also have "drop (n - ?m) (drop ?m r) = drop n r"
      using m(2) by (simp only: drop_drop le_add_diff_inverse2)
    finally show ?thesis .
  qed (simp add: read_devnull.simps)
qed

lemma length_seq64be [simp]: "length (seq64be seq) = 8"
  by (simp add: seq64be_def)

lemma be_nat_seq64be: "be_nat (seq64be seq) = unat seq"
proof -
  have "be_nat (replicate 6 0) = 0"
    by (simp add: be_nat_def eval_nat_numeral)
  moreover have "unat (ucast (drop_bit 8 seq) :: byte) = unat seq div 256" "unat (ucast seq :: byte) = unat seq mod 256"
    using unsigned_less [of seq, where 'a = nat] by (simp_all add: unsigned_ucast_eq take_bit_eq_mod unat_drop_bit)
  ultimately show ?thesis
    using be_nat_snoc [of "replicate 6 0 @ [ucast (drop_bit 8 seq)]" "ucast seq"] by (simp add: seq64be_def)
qed

lemma pq_items_store:
  assumes "pq_inv q" "length seq = 8"
  shows "pq_inv (store_fragment seq frag q)"
    "pq_items (store_fragment seq frag q) p = (if p = be_nat seq then map_option (\<lambda>i. i\<lparr>pi_data := frag\<rparr>) (pq_items q p) else pq_items q p)"
    "map priority (store_fragment seq frag q) = map priority q"
proof -
  have "pq_inv (store_fragment seq frag q) \<and> map priority (store_fragment seq frag q) = map priority q \<and>
      pq_items (store_fragment seq frag q) p = (if p = be_nat seq then map_option (\<lambda>i. i\<lparr>pi_data := frag\<rparr>) (pq_items q p) else pq_items q p)"
    using assms(1)
  proof (induction q)
    case (Cons i q)
    then have "be_nat (priority i) = be_nat seq \<longleftrightarrow> priority i = seq"
      using assms(2) by (intro be_nat_inject) (simp add: pq_inv_Cons pq_valid_def)
    then show ?case
      using Cons by (auto simp: store_fragment_def pq_inv_Cons pq_items_Cons pq_valid_def pq_prio_def)
  qed (simp add: store_fragment_def pq_items_Nil)
  then show "pq_inv (store_fragment seq frag q)"
    "pq_items (store_fragment seq frag q) p = (if p = be_nat seq then map_option (\<lambda>i. i\<lparr>pi_data := frag\<rparr>) (pq_items q p) else pq_items q p)"
    "map priority (store_fragment seq frag q) = map priority q"
    by auto
qed

text \<open>A fragment that holds the bytes of the message \<open>M\<close> at the positions \<open>C\<close>.\<close>

definition frag_inv :: "byte \<Rightarrow> u16 \<Rightarrow> byte list \<Rightarrow> nat set \<Rightarrow> hm_fragment \<Rightarrow> bool" where
  "frag_inv ty seq M C frag \<longleftrightarrow>
     hf_header frag = \<lparr>hm_type = ty, hm_msg_len = length M, hm_seq = seq, hm_frag_off = 0, hm_frag_len = length M\<rparr> \<and>
     length (hf_fragment frag) = length M \<and> C \<subseteq> {0..<length M} \<and> (\<forall>i\<in>C. hf_fragment frag ! i = M ! i) \<and>
     (case hf_reassembly frag of
        None \<Rightarrow> C = {0..<length M}
      | Some b \<Rightarrow> length b = RSMBLY_BITMASK_SIZE (length M) \<and> mask_set b = C \<and> C \<noteq> {0..<length M})"

text \<open>Fragment \<open>off\<close>, \<open>len\<close> of a message.\<close>

definition frag_header :: "byte \<Rightarrow> u16 \<Rightarrow> byte list \<Rightarrow> nat \<times> nat \<Rightarrow> hm_header" where
  "frag_header ty seq M f = \<lparr>hm_type = ty, hm_msg_len = length M, hm_seq = seq, hm_frag_off = fst f, hm_frag_len = snd f\<rparr>"

definition frag_body :: "byte list \<Rightarrow> nat \<times> nat \<Rightarrow> byte list" where
  "frag_body M f = take (snd f) (drop (fst f) M)"

definition frag_span :: "nat \<times> nat \<Rightarrow> nat set" where
  "frag_span f = {fst f..<fst f + snd f}"

definition frag_ok :: "byte list \<Rightarrow> nat \<times> nat \<Rightarrow> bool" where
  "frag_ok M f \<longleftrightarrow> 0 < snd f \<and> fst f + snd f \<le> length M"

lemma put_at_nth:
  "pos + length xs \<le> length buf \<Longrightarrow> i < length buf \<Longrightarrow>
    put_at pos xs buf ! i = (if pos \<le> i \<and> i < pos + length xs then xs ! (i - pos) else buf ! i)"
  by (auto simp: put_at_def nth_append min_def)

lemma frag_inv_mark:
  assumes inv: "frag_inv ty seq M C frag" and f: "frag_ok M f" and b: "hf_reassembly frag = Some b"
  shows "frag_inv ty seq M (C \<union> frag_span f)
    (frag\<lparr>hf_fragment := put_at (fst f) (frag_body M f) (hf_fragment frag),
          hf_reassembly := (let b = RSMBLY_BITMASK_MARK (fst f) (fst f + snd f) b in if RSMBLY_BITMASK_IS_COMPLETE (length M) b then None else Some b)\<rparr>)"
proof -
  have f': "0 < length M" "fst f < fst f + snd f" "length (frag_body M f) = snd f" "fst f + length (frag_body M f) \<le> length M"
    using f by (auto simp: frag_ok_def frag_body_def)
  have bl: "length b = RSMBLY_BITMASK_SIZE (length M)" "mask_set b = C" "C \<subseteq> {0..<length M}"
    using inv b by (auto simp: frag_inv_def)
  have "length M \<le> 8 * length b"
    unfolding bl(1) RSMBLY_BITMASK_SIZE_def by linarith
  then have "fst f + snd f \<le> 8 * length b"
    using f by (simp add: frag_ok_def)
  note mk = RSMBLY_BITMASK_MARK_correct [OF f'(2) this]
  have span: "C \<union> frag_span f \<subseteq> {0..<length M}"
    using bl(3) f by (auto simp: frag_ok_def frag_span_def)
  have comp: "RSMBLY_BITMASK_IS_COMPLETE (length M) (RSMBLY_BITMASK_MARK (fst f) (fst f + snd f) b) \<longleftrightarrow> C \<union> frag_span f = {0..<length M}"
    using RSMBLY_BITMASK_IS_COMPLETE_iff [OF f'(1), of "RSMBLY_BITMASK_MARK (fst f) (fst f + snd f) b"] mk bl span by (simp add: frag_span_def)
  have "put_at (fst f) (frag_body M f) (hf_fragment frag) ! i = M ! i" if "i \<in> C \<union> frag_span f" for i
  proof -
    have "i < length M"
      using subsetD [OF span that] by simp
    then show ?thesis
      using that inv f' by (auto simp: frag_inv_def frag_span_def put_at_nth) (auto simp: frag_body_def)
  qed
  then show ?thesis
    using inv comp mk bl span f' by (auto simp: frag_inv_def length_put_at Let_def frag_span_def)
qed

lemma frag_inv_new:
  assumes "0 < length M"
  shows "\<exists>frag. dtls1_hm_fragment_new (True, True, True) mem \<lparr>hm_type = ty, hm_msg_len = length M, hm_seq = seq, hm_frag_off = 0, hm_frag_len = length M\<rparr> (length M) True = Some frag \<and>
    frag_inv ty seq M {} frag \<and> hf_reassembly frag \<noteq> None"
proof -
  have "mask_set (replicate n 0) = {}" for n
    by (auto simp: mask_set_def)
  then show ?thesis
    using assms by (simp add: dtls1_hm_fragment_new_def frag_inv_def)
qed

text \<open>What the queue of a state holds for the message \<open>M\<close>.\<close>

definition queue_inv :: "byte \<Rightarrow> u16 \<Rightarrow> byte list \<Rightarrow> nat set \<Rightarrow> hm_fragment pqueue \<Rightarrow> bool" where
  "queue_inv ty seq M C q \<longleftrightarrow> pq_inv q \<and>
     (case pqueue_find (seq64be seq) q of None \<Rightarrow> C = {} | Some item \<Rightarrow> priority item = seq64be seq \<and> frag_inv ty seq M C (pi_data item))"

text \<open>Two queues that differ in the item of one number only.\<close>

definition same_but :: "u16 \<Rightarrow> 'a pqueue \<Rightarrow> 'a pqueue \<Rightarrow> bool" where
  "same_but seq q q' \<longleftrightarrow> (\<forall>p. p \<noteq> unat seq \<longrightarrow> pq_items q' p = pq_items q p)"

lemma reassemble_step:
  assumes q: "queue_inv ty seq M C (hs_buffered_messages s)" and f: "frag_ok M f" and len: "length M \<le> dtls1_max_handshake_message_len s"
    and inp: "hs_input s = frag_body M f @ rest"
  shows "\<exists>q'. dtls1_reassemble_fragment ((True, True, True), True) mem stream_reader (frag_header ty seq M f) s =
      (DTLS1_HM_FRAGMENT_RETRY, s\<lparr>hs_buffered_messages := q', hs_input := rest\<rparr>) \<and>
    queue_inv ty seq M (C \<union> frag_span f) q' \<and> pqueue_find (seq64be seq) q' \<noteq> None \<and> same_but seq (hs_buffered_messages s) q'"
proof -
  let ?q = "hs_buffered_messages s" and ?h = "frag_header ty seq M f" and ?k = "seq64be seq"
  have pq: "pq_inv ?q"
    using q by (simp add: queue_inv_def)
  have find: "pqueue_find ?k q' = pq_items q' (unat seq)" if "pq_inv q'" for q'
    using pqueue_find_items [OF that, of ?k] by (simp add: be_nat_seq64be)
  have hdr: "hm_frag_len ?h = snd f" "hm_frag_off ?h = fst f" "hm_msg_len ?h = length M" "hm_seq ?h = seq"
    "?h\<lparr>hm_frag_len := length M, hm_frag_off := 0\<rparr> = \<lparr>hm_type = ty, hm_msg_len = length M, hm_seq = seq, hm_frag_off = 0, hm_frag_len = length M\<rparr>"
    by (simp_all add: frag_header_def)
  have body: "length (frag_body M f) = snd f" "stream_reader (snd f) (hs_input s) = (Inr (frag_body M f), rest)"
    using f inp by (auto simp: frag_ok_def frag_body_def stream_reader_def)
  have outer: "dtls1_reassemble_fragment ((True, True, True), True) mem stream_reader ?h s =
      (case pqueue_find ?k ?q of
         None \<Rightarrow> (case dtls1_hm_fragment_new (True, True, True) mem \<lparr>hm_type = ty, hm_msg_len = length M, hm_seq = seq, hm_frag_off = 0, hm_frag_len = length M\<rparr> (length M) True of
               None \<Rightarrow> (- 1, s) | Some frag \<Rightarrow> reassemble_body True stream_reader ?h False frag s)
       | Some item \<Rightarrow> if hm_msg_len (hf_header (pi_data item)) \<noteq> length M then (- 1, s) else reassemble_body True stream_reader ?h True (pi_data item) s)"
    using f len by (cases "pqueue_find ?k ?q") (auto simp: dtls1_reassemble_fragment_def hdr frag_ok_def split: option.splits)
  define upd where "upd = (\<lambda>(frag :: hm_fragment) b. frag\<lparr>hf_fragment := put_at (fst f) (frag_body M f) (hf_fragment frag),
    hf_reassembly := (let b = RSMBLY_BITMASK_MARK (fst f) (fst f + snd f) b in if RSMBLY_BITMASK_IS_COMPLETE (length M) b then None else Some b)\<rparr>)"
  show ?thesis
  proof (cases "pqueue_find ?k ?q")
    case None
    then have C: "C = {}"
      using q by (simp add: queue_inv_def)
    have M: "0 < length M"
      using f by (auto simp: frag_ok_def)
    obtain frag b where frag: "dtls1_hm_fragment_new (True, True, True) mem \<lparr>hm_type = ty, hm_msg_len = length M, hm_seq = seq, hm_frag_off = 0, hm_frag_len = length M\<rparr> (length M) True = Some frag"
        "frag_inv ty seq M {} frag" "hf_reassembly frag = Some b"
      using frag_inv_new [OF M, of mem ty seq] by blast
    define item where "item = \<lparr>priority = ?k, pi_data = upd frag b\<rparr>"
    define q' where "q' = snd (pqueue_insert item ?q)"
    have it: "pq_valid item" "pq_prio item = unat seq" "pq_items ?q (unat seq) = None"
      using None find [OF pq] by (simp_all add: item_def pq_valid_def pq_prio_def be_nat_seq64be)
    have q': "pq_inv q'" "pq_items q' = (pq_items ?q)(unat seq \<mapsto> item)"
      using pq.ins [OF pq it(1)] it(2,3) by (simp_all add: q'_def)
    have "reassemble_body True stream_reader ?h False frag s = (DTLS1_HM_FRAGMENT_RETRY, s\<lparr>hs_buffered_messages := q', hs_input := rest\<rparr>)"
      by (simp add: reassemble_body_def frag(3) hdr body pitem_new_def q'_def item_def upd_def Let_def)
    moreover have "frag_inv ty seq M (C \<union> frag_span f) (upd frag b)"
      unfolding upd_def C using frag_inv_mark [OF frag(2) f frag(3)] by simp
    ultimately show ?thesis
      using q' find [OF q'(1)] by (intro exI [of _ q']) (simp add: outer None frag(1) queue_inv_def same_but_def item_def)
  next
    case (Some item)
    then have fi: "frag_inv ty seq M C (pi_data item)" "priority item = ?k" "pq_items ?q (unat seq) = Some item"
      using q find [OF pq] by (auto simp: queue_inv_def)
    then have ml: "hm_msg_len (hf_header (pi_data item)) = length M"
      by (simp add: frag_inv_def)
    show ?thesis
    proof (cases "hf_reassembly (pi_data item)")
      case None
      then have "C \<union> frag_span f = C"
        using fi(1) f by (auto simp: frag_inv_def frag_span_def frag_ok_def)
      moreover have "read_devnull stream_reader (snd f) (hs_input s) = (None, rest)"
        using body(1) inp by (simp add: read_devnull_stream del: read_devnull.simps)
      then have "reassemble_body True stream_reader ?h True (pi_data item) s = (DTLS1_HM_FRAGMENT_RETRY, s\<lparr>hs_buffered_messages := ?q, hs_input := rest\<rparr>)"
        by (simp add: reassemble_body_def None hdr Let_def del: read_devnull.simps)
      ultimately show ?thesis
        using q Some by (intro exI [of _ ?q]) (simp add: outer ml same_but_def)
    next
      case b: (Some b)
      define q' where "q' = store_fragment ?k (upd (pi_data item) b) ?q"
      have q': "pq_inv q'" "pq_items q' p = (if p = unat seq then Some (item\<lparr>pi_data := upd (pi_data item) b\<rparr>) else pq_items ?q p)" for p
        using pq_items_store(1,2) [OF pq, of ?k] fi(3) by (simp_all add: q'_def be_nat_seq64be)
      have "reassemble_body True stream_reader ?h True (pi_data item) s = (DTLS1_HM_FRAGMENT_RETRY, s\<lparr>hs_buffered_messages := q', hs_input := rest\<rparr>)"
        by (simp add: reassemble_body_def b hdr body q'_def upd_def Let_def)
      moreover have "frag_inv ty seq M (C \<union> frag_span f) (upd (pi_data item) b)"
        unfolding upd_def using frag_inv_mark [OF fi(1) f b] .
      ultimately show ?thesis
        using q' find [OF q'(1)] Some ml fi(2) by (intro exI [of _ q']) (simp add: outer queue_inv_def same_but_def)
    qed
  qed
qed

text \<open>The fragments of one message as they come in.\<close>

fun receive_fragments :: "(nat \<Rightarrow> byte) \<Rightarrow> byte \<Rightarrow> u16 \<Rightarrow> byte list \<Rightarrow> (nat \<times> nat) list \<Rightarrow> byte list hm_state \<Rightarrow> int list \<times> byte list hm_state" where
  "receive_fragments mem ty seq M [] s = ([], s)"
| "receive_fragments mem ty seq M (f # fs) s =
     (let (i, s) = dtls1_reassemble_fragment ((True, True, True), True) mem stream_reader (frag_header ty seq M f) s;
          (is, s) = receive_fragments mem ty seq M fs s
      in (i # is, s))"

lemma receive_fragments_inv:
  assumes "queue_inv ty seq M C (hs_buffered_messages s)" "list_all (frag_ok M) fs" "length M \<le> dtls1_max_handshake_message_len s"
    and "hs_input s = concat (map (frag_body M) fs) @ rest"
  shows "\<exists>q'. receive_fragments mem ty seq M fs s = (replicate (length fs) DTLS1_HM_FRAGMENT_RETRY, s\<lparr>hs_buffered_messages := q', hs_input := rest\<rparr>) \<and>
    queue_inv ty seq M (C \<union> \<Union> (frag_span ` set fs)) q' \<and> (fs \<noteq> [] \<longrightarrow> pqueue_find (seq64be seq) q' \<noteq> None) \<and>
    same_but seq (hs_buffered_messages s) q'"
  using assms
proof (induction fs arbitrary: s C)
  case Nil
  then show ?case
    by (auto simp: same_but_def intro!: exI [of _ "hs_buffered_messages s"])
next
  case (Cons f fs)
  obtain q1 where q1: "dtls1_reassemble_fragment ((True, True, True), True) mem stream_reader (frag_header ty seq M f) s =
      (DTLS1_HM_FRAGMENT_RETRY, s\<lparr>hs_buffered_messages := q1, hs_input := concat (map (frag_body M) fs) @ rest\<rparr>)"
      "queue_inv ty seq M (C \<union> frag_span f) q1" "pqueue_find (seq64be seq) q1 \<noteq> None" "same_but seq (hs_buffered_messages s) q1"
    using reassemble_step [OF Cons.prems(1), of f "concat (map (frag_body M) fs) @ rest" mem] Cons.prems(2-4) by auto
  let ?s = "s\<lparr>hs_buffered_messages := q1, hs_input := concat (map (frag_body M) fs) @ rest\<rparr>"
  have max: "length M \<le> dtls1_max_handshake_message_len ?s"
    using Cons.prems(3) by (auto simp: dtls1_max_handshake_message_len_def Let_def split: if_splits)
  obtain q2 where q2: "receive_fragments mem ty seq M fs ?s = (replicate (length fs) DTLS1_HM_FRAGMENT_RETRY, ?s\<lparr>hs_buffered_messages := q2, hs_input := rest\<rparr>)"
      "queue_inv ty seq M (C \<union> frag_span f \<union> \<Union> (frag_span ` set fs)) q2" "fs \<noteq> [] \<longrightarrow> pqueue_find (seq64be seq) q2 \<noteq> None" "same_but seq q1 q2"
    using Cons.IH [OF _ _ max, of "C \<union> frag_span f"] q1(2) Cons.prems(2) by auto
  have "pqueue_find (seq64be seq) q2 \<noteq> None"
    using q2(1,3) q1(3) by (cases fs) (auto dest: arg_cong [where f = hs_buffered_messages])
  then show ?case
    using q1 q2 by (auto simp: same_but_def Un_assoc)
qed

lemma retrieve_correct:
  assumes q: "queue_inv ty seq M {0..<length M} q" "pqueue_find (seq64be seq) q \<noteq> None" and first: "\<forall>p\<in>dom (pq_items q). unat seq \<le> p"
    and s: "hs_buffered_messages s = q" "hs_handshake_read_seq s = seq" "hm_frag_off (hs_r_msg_hdr s) = 0" "buf_wf (hs_init_buf s)"
    and M: "length M \<le> max_len" "length M + 12 \<le> LIMIT_BEFORE_EXPANSION"
  shows "\<exists>s'. dtls1_retrieve_buffered_fragment True mem max_len s = ((True, int (length M)), s') \<and>
    drop 12 (buf_bytes (hs_init_buf s')) = M \<and> hs_message_size s' = length M \<and> hs_message_type s' = ty \<and>
    hs_buffered_messages s' = snd (pqueue_pop q) \<and> buf_wf (hs_init_buf s')"
proof -
  have pq: "pq_inv q"
    using q by (simp add: queue_inv_def)
  obtain item where item: "pqueue_find (seq64be seq) q = Some item"
    using q(2) by auto
  have it: "pq_items q (unat seq) = Some item" "priority item = seq64be seq" "frag_inv ty seq M {0..<length M} (pi_data item)"
    using item q pqueue_find_items [OF pq, of "seq64be seq"] by (auto simp: queue_inv_def be_nat_seq64be)
  then obtain i r where qi: "q = i # r"
    by (cases q) (auto simp: pq_items_Nil)
  have "pq_prio i = unat seq"
  proof (rule ccontr)
    assume ne: "pq_prio i \<noteq> unat seq"
    then have "unat seq \<le> pq_prio i"
      using first by (simp add: qi dom_pq_items)
    then show False
      using pq_items_below [of i r "unat seq"] pq it(1) ne by (simp add: qi pq_items_Cons)
  qed
  then have i: "i = item"
    using it(1) by (simp add: qi pq_items_Cons)
  let ?frag = "pi_data item"
  have hdr: "hf_header ?frag = \<lparr>hm_type = ty, hm_msg_len = length M, hm_seq = seq, hm_frag_off = 0, hm_frag_len = length M\<rparr>"
    and len: "length (hf_fragment ?frag) = length M" and nth: "\<forall>k<length M. hf_fragment ?frag ! k = M ! k"
    and re: "hf_reassembly ?frag = None"
    using it(3) by (auto simp: frag_inv_def split: option.splits)
  have frag: "hf_fragment ?frag = M"
    using len nth by (simp add: list_eq_iff_nth_eq)
  define buf where "buf = snd (BUF_MEM_grow_clean True mem (length M + 12) (hs_init_buf s))"
  have buf: "BUF_MEM_grow_clean True mem (length M + 12) (hs_init_buf s) = (length M + 12, buf)"
    using BUF_MEM_grow_clean_ok [OF s(4) M(2), of mem] by (simp add: buf_def prod_eq_iff)
  have wf: "buf_wf buf" "bm_length buf = length M + 12"
    using BUF_MEM_grow_clean_correct [OF s(4) buf] by auto
  have st: "drop_stale seq q = q"
    by (simp add: qi i hdr)
  have "drop 12 (take (length M + 12) (put_at 12 M (bm_data buf))) = M"
    using wf by (simp add: put_at_def buf_wf_def drop_take)
  moreover have "length (put_at 12 M (bm_data buf)) = length (bm_data buf)"
    using wf by (simp add: length_put_at buf_wf_def)
  moreover have "pqueue_peek q = Some item"
    by (simp add: qi i pqueue_peek_def)
  ultimately show ?thesis
    using M(1) wf s st by (simp add: dtls1_retrieve_buffered_fragment_def re hdr frag dtls1_preprocess_fragment_def DTLS1_HM_HEADER_LENGTH_def buf
        buf_bytes_def buf_wf_def Let_def)
qed

section \<open>Properties\<close>

text \<open>
  C5. A handshake message that arrives in fragments, in any order, with overlaps and repetitions, is put together
  correctly: after the fragments the queue holds the message as complete exactly if they cover all of its bytes, the
  other buffered messages are untouched, and when the message is next in the handshake its bytes are handed over.
\<close>

theorem dtls_reassembly:
  assumes "pq_inv (hs_buffered_messages s)" "pqueue_find (seq64be seq) (hs_buffered_messages s) = None"
    and "fs \<noteq> []" "list_all (frag_ok M) fs" "length M \<le> dtls1_max_handshake_message_len s" "hs_input s = concat (map (frag_body M) fs) @ rest"
  shows "\<exists>s' item. receive_fragments mem ty seq M fs s = (replicate (length fs) DTLS1_HM_FRAGMENT_RETRY, s') \<and> hs_input s' = rest \<and>
    same_but seq (hs_buffered_messages s) (hs_buffered_messages s') \<and>
    pqueue_find (seq64be seq) (hs_buffered_messages s') = Some item \<and>
    (hf_reassembly (pi_data item) = None \<longleftrightarrow> \<Union> (frag_span ` set fs) = {0..<length M}) \<and>
    (\<Union> (frag_span ` set fs) = {0..<length M} \<and> hs_handshake_read_seq s = seq \<and> hm_frag_off (hs_r_msg_hdr s) = 0 \<and> buf_wf (hs_init_buf s) \<and>
      length M + 12 \<le> LIMIT_BEFORE_EXPANSION \<and> (\<forall>p\<in>dom (pq_items (hs_buffered_messages s)). unat seq \<le> p) \<and> length M \<le> max_len \<longrightarrow>
     (\<exists>s''. dtls1_retrieve_buffered_fragment True mem max_len s' = ((True, int (length M)), s'') \<and> drop 12 (buf_bytes (hs_init_buf s'')) = M))"
proof -
  have "queue_inv ty seq M {} (hs_buffered_messages s)"
    using assms(1,2) by (simp add: queue_inv_def)
  then obtain q' where q': "receive_fragments mem ty seq M fs s =
        (replicate (length fs) DTLS1_HM_FRAGMENT_RETRY, s\<lparr>hs_buffered_messages := q', hs_input := rest\<rparr>)"
      "queue_inv ty seq M (\<Union> (frag_span ` set fs)) q'" "pqueue_find (seq64be seq) q' \<noteq> None" "same_but seq (hs_buffered_messages s) q'"
    using receive_fragments_inv [OF _ assms(4-6), of ty seq "{}" mem] assms(3) by auto
  then obtain item where item: "pqueue_find (seq64be seq) q' = Some item" "frag_inv ty seq M (\<Union> (frag_span ` set fs)) (pi_data item)"
    by (auto simp: queue_inv_def)
  have re: "hf_reassembly (pi_data item) = None \<longleftrightarrow> \<Union> (frag_span ` set fs) = {0..<length M}"
    using item(2) by (auto simp: frag_inv_def split: option.splits)
  let ?s = "s\<lparr>hs_buffered_messages := q', hs_input := rest\<rparr>"
  have "\<exists>s''. dtls1_retrieve_buffered_fragment True mem max_len ?s = ((True, int (length M)), s'') \<and> drop 12 (buf_bytes (hs_init_buf s'')) = M"
    if c: "\<Union> (frag_span ` set fs) = {0..<length M}" "hs_handshake_read_seq s = seq" "hm_frag_off (hs_r_msg_hdr s) = 0" "buf_wf (hs_init_buf s)"
      "length M + 12 \<le> LIMIT_BEFORE_EXPANSION" "\<forall>p\<in>dom (pq_items (hs_buffered_messages s)). unat seq \<le> p" "length M \<le> max_len"
  proof -
    have "\<forall>p\<in>dom (pq_items q'). unat seq \<le> p"
    proof
      fix p
      assume "p \<in> dom (pq_items q')"
      then show "unat seq \<le> p"
        using c(6) q'(4) unfolding same_but_def dom_def by (cases "p = unat seq") auto
    qed
    then show ?thesis
      using retrieve_correct [of ty seq M q' ?s max_len mem] q'(2,3) c by auto
  qed
  then show ?thesis
    using q' item(1) re by auto
qed

definition example_hm_state :: "byte list hm_state" where
  "example_hm_state =
     \<lparr>hs_buffered_messages = [], hs_handshake_read_seq = 1, hs_init_buf = \<lparr>bm_length = 0, bm_data = [], bm_max = 0\<rparr>, hs_init_num = 0,
      hs_r_msg_hdr = \<lparr>hm_type = 0, hm_msg_len = 0, hm_seq = 0, hm_frag_off = 0, hm_frag_len = 0\<rparr>, hs_message_size = 0,
      hs_message_type = 0, hs_max_cert_list = 0, hs_alert = None, hs_input = [8, 9, 7, 8]\<rparr>"

theorem dtls_reassembly_witness:
  "\<exists>s' s''. receive_fragments (\<lambda>i. 0) 11 1 [7, 8, 9] [(1, 2), (0, 2)] example_hm_state = ([- 3, - 3], s') \<and>
    dtls1_retrieve_buffered_fragment True (\<lambda>i. 0) 100 s' = ((True, 3), s'') \<and> drop 12 (buf_bytes (hs_init_buf s'')) = [7, 8, 9]"
proof -
  have c: "\<Union> (frag_span ` set [(1, 2), (0, 2)]) = {0..<length [7, 8, 9 :: byte]}"
    by (auto simp: frag_span_def)
  have pre: "pq_inv (hs_buffered_messages example_hm_state)" "pqueue_find (seq64be 1) (hs_buffered_messages example_hm_state) = None"
    "[(1, 2), (0, 2)] \<noteq> []" "list_all (frag_ok [7, 8, 9]) [(1, 2), (0, 2)]" "length [7, 8, 9 :: byte] \<le> dtls1_max_handshake_message_len example_hm_state"
    "hs_input example_hm_state = concat (map (frag_body [7, 8, 9]) [(1, 2), (0, 2)]) @ []"
    by (simp_all add: example_hm_state_def pq_inv_def pqueue_find_def frag_ok_def frag_body_def dtls1_max_handshake_message_len_def
        DTLS1_HM_HEADER_LENGTH_def)
  have post: "hs_handshake_read_seq example_hm_state = 1" "hm_frag_off (hs_r_msg_hdr example_hm_state) = 0" "buf_wf (hs_init_buf example_hm_state)"
    "length [7, 8, 9 :: byte] + 12 \<le> LIMIT_BEFORE_EXPANSION" "\<forall>p\<in>dom (pq_items (hs_buffered_messages example_hm_state)). unat (1 :: u16) \<le> p"
    "length [7, 8, 9 :: byte] \<le> 100"
    by (simp_all add: example_hm_state_def buf_wf_def LIMIT_BEFORE_EXPANSION_def pq_items_def)
  show ?thesis
    using dtls_reassembly [OF pre, of "\<lambda>i. 0" 11 100] c post by (auto simp: DTLS1_HM_FRAGMENT_RETRY_def numeral_2_eq_2)
qed

end
