(* ===== verification/Dtls_Window.thy ===== *)
theory Dtls_Window
  imports Prelude
begin

unbundle bit_operations_syntax

text \<open>
  The window of received sequence numbers of DTLS, in \<^verbatim>\<open>ssl/d1_pkt.c\<close>: the difference of two sequence numbers,
  the check whether a record is a replay, and the update of the bitmap. A sequence number is a string of eight
  bytes in big-endian order.
\<close>

section \<open>Definitions\<close>

record dtls1_bitmap =
  bm_map :: u64
  max_seq_num :: "byte list"

text \<open>
  The loop of \<^verbatim>\<open>satsub64be\<close> over the first seven bytes: \<open>Inl\<close> is a value that is returned at once, \<open>Inr\<close> the
  value of \<^verbatim>\<open>ret\<close> after the loop.
\<close>

fun satsub_loop :: "byte list \<Rightarrow> byte list \<Rightarrow> int + int" where
  "satsub_loop (x # xs) (y # ys) =
     (if y < x then
        if unat x \<noteq> unat y + 1 then Inl 128
        else if list_all2 (\<lambda>a b. a = 0 \<and> b = 0xff) xs ys then Inr 256
        else Inl 128
      else if x < y then
        if unat y \<noteq> unat x + 1 then Inl (- 128)
        else if list_all2 (\<lambda>a b. a = 0 \<and> b = 0xff) ys xs then Inr (- 256)
        else Inl (- 128)
      else satsub_loop xs ys)"
| "satsub_loop _ _ = Inr 0"

definition saturate :: "int \<Rightarrow> int" where
  "saturate l = (if 128 < l then 128 else if l < - 128 then - 128 else l)"

definition satsub64be :: "byte list \<Rightarrow> byte list \<Rightarrow> int" where
  "satsub64be v1 v2 =
     (case satsub_loop (take 7 v1) (take 7 v2) of
        Inl r \<Rightarrow> r
      | Inr ret \<Rightarrow> saturate (ret + (int (unat (v1 ! 7)) - int (unat (v2 ! 7)))))"

text \<open>The path of \<^verbatim>\<open>satsub64be\<close> for big-endian machines, which loads the eight bytes as a \<^verbatim>\<open>long\<close>.\<close>

definition satsub64be_long :: "byte list \<Rightarrow> byte list \<Rightarrow> int" where
  "satsub64be_long v1 v2 = saturate (sint (of_nat (be_nat v1) - of_nat (be_nat v2) :: u64))"

text \<open>\<open>seq\<close> is \<^verbatim>\<open>s->s3->read_sequence\<close>. The check also copies it to the record, which the record layer does.\<close>

definition replay_ok :: "byte list \<Rightarrow> dtls1_bitmap \<Rightarrow> bool" where
  "replay_ok seq bitmap =
     (let cmp = satsub64be seq (max_seq_num bitmap) in
      if 0 < cmp then True
      else
        let shift = nat (- cmp) in
        if 64 \<le> shift then False
        else if bm_map bitmap AND push_bit shift 1 \<noteq> 0 then False
        else True)"

definition dtls1_record_bitmap_update :: "byte list \<Rightarrow> dtls1_bitmap \<Rightarrow> dtls1_bitmap" where
  "dtls1_record_bitmap_update seq bitmap =
     (let cmp = satsub64be seq (max_seq_num bitmap) in
      if 0 < cmp then
        let shift = nat cmp in
        bitmap\<lparr>bm_map := (if shift < 64 then push_bit shift (bm_map bitmap) OR 1 else 1), max_seq_num := seq\<rparr>
      else
        let shift = nat (- cmp) in
        if shift < 64 then bitmap\<lparr>bm_map := bm_map bitmap OR push_bit shift 1\<rparr> else bitmap)"

section \<open>The difference of sequence numbers\<close>

lemma be_nat_zeros: "list_all (\<lambda>b. b = 0) xs \<longleftrightarrow> be_nat xs = 0"
  by (induction xs) (auto simp: be_nat_Cons unat_eq_zero)

lemma be_nat_ones: "list_all (\<lambda>b. b = 0xff) xs \<longleftrightarrow> be_nat xs = 256 ^ length xs - 1"
proof (induction xs)
  case (Cons b xs)
  define P :: nat where "P = 256 ^ length xs"
  have P: "be_nat xs < P" "0 < P"
    using be_nat_less [of xs] by (simp_all add: P_def)
  have v: "be_nat (b # xs) = unat b * P + be_nat xs" "256 ^ length (b # xs) = 256 * P"
    by (simp_all add: be_nat_Cons P_def)
  show ?case
  proof (cases "unat b = 255")
    case True
    then have "b = 0xff"
      using unsigned_word_eqI [of b "0xff", where 'a = nat] by simp
    then show ?thesis
      using Cons P unfolding v P_def [symmetric] by auto
  next
    case False
    then have "(unat b + 1) * P \<le> 255 * P"
      using unat_byte_lt [of b] by (intro mult_right_mono) auto
    then have "be_nat (b # xs) < 255 * P"
      using P unfolding v add_mult_distrib mult_1 by linarith
    moreover have "b \<noteq> 0xff"
      using False by auto
    ultimately show ?thesis
      using P unfolding v(2) by auto
  qed
qed simp

lemma list_all2_0_ff:
  assumes "length xs = length ys"
  shows "list_all2 (\<lambda>a b. a = 0 \<and> b = 0xff) xs ys \<longleftrightarrow> be_nat xs = 0 \<and> be_nat ys = 256 ^ length ys - 1"
proof -
  have "list_all2 (\<lambda>a b. a = 0 \<and> b = 0xff) xs ys \<longleftrightarrow> list_all (\<lambda>b. b = 0) xs \<and> list_all (\<lambda>b. b = 0xff) ys"
    using assms by (induction xs ys rule: list_induct2) auto
  then show ?thesis
    by (simp only: be_nat_zeros be_nat_ones)
qed

text \<open>What the loop knows about the difference \<open>d\<close> of the first seven bytes.\<close>

definition satsub_result :: "int \<Rightarrow> int + int \<Rightarrow> bool" where
  "satsub_result d r \<longleftrightarrow>
     (if 2 \<le> d then r = Inl 128 else if d \<le> - 2 then r = Inl (- 128) else r = Inr (256 * d))"

lemma satsub_result_carry:
  assumes "a < p" "b < p"
  shows "satsub_result (int p + int a - int b) (if a = 0 \<and> b = p - 1 then Inr 256 else Inl 128)"
    "satsub_result (int a - int b - int p) (if b = 0 \<and> a = p - 1 then Inr (- 256) else Inl (- 128))"
  using assms by (auto simp: satsub_result_def)

lemma satsub_loop_result:
  assumes "length xs = length ys"
  shows "satsub_result (int (be_nat xs) - int (be_nat ys)) (satsub_loop xs ys)"
  using assms
proof (induction xs ys rule: list_induct2)
  case (Cons x xs y ys)
  let ?p = "256 ^ length ys :: nat"
  have bound: "be_nat xs < ?p" "be_nat ys < ?p" "0 < ?p"
    using be_nat_less [of xs] be_nat_less [of ys] Cons(1) by auto
  have val: "be_nat (x # xs) = unat x * ?p + be_nat xs" "be_nat (y # ys) = unat y * ?p + be_nat ys"
    using Cons(1) by (simp_all add: be_nat_Cons)
  note flags = list_all2_0_ff [OF Cons(1)] list_all2_0_ff [OF Cons(1) [symmetric]]
  consider "x = y" | "unat x = unat y + 1" | "unat y = unat x + 1" | "unat y + 2 \<le> unat x" | "unat x + 2 \<le> unat y"
    by (metis Suc_eq_plus1 add_2_eq_Suc' not_less_eq_eq le_antisym word_unat_eq_iff)
  then show ?case
  proof cases
    case 1
    then show ?thesis
      using Cons by (simp add: be_nat_Cons)
  next
    case 2
    then have "y < x" and d: "int (be_nat (x # xs)) - int (be_nat (y # ys)) = int ?p + int (be_nat xs) - int (be_nat ys)"
      by (simp_all add: word_less_nat_alt val algebra_simps)
    then show ?thesis
      using 2 flags(1) satsub_result_carry(1) [OF bound(1,2)] unfolding d by simp
  next
    case 3
    then have "x < y" and d: "int (be_nat (x # xs)) - int (be_nat (y # ys)) = int (be_nat xs) - int (be_nat ys) - int ?p"
      by (simp_all add: word_less_nat_alt val algebra_simps)
    then show ?thesis
      using 3 flags(2) satsub_result_carry(2) [OF bound(1,2)] Cons(1) unfolding d by (simp add: word_less_nat_alt)
  next
    case 4
    then have "(unat y + 2) * ?p \<le> unat x * ?p"
      by (intro mult_right_mono) auto
    then have "be_nat (y # ys) + 2 \<le> be_nat (x # xs)"
      using bound unfolding val by (simp add: algebra_simps)
    then have "2 \<le> int (be_nat (x # xs)) - int (be_nat (y # ys))"
      by linarith
    then show ?thesis
      using 4 by (simp add: satsub_result_def word_less_nat_alt)
  next
    case 5
    then have "(unat x + 2) * ?p \<le> unat y * ?p"
      by (intro mult_right_mono) auto
    then have "be_nat (x # xs) + 2 \<le> be_nat (y # ys)"
      using bound unfolding val by (simp add: algebra_simps)
    then have "int (be_nat (x # xs)) - int (be_nat (y # ys)) \<le> - 2"
      by linarith
    then show ?thesis
      using 5 by (simp add: satsub_result_def word_less_nat_alt)
  qed
qed (simp add: satsub_result_def)

lemma saturate_result:
  assumes "0 \<le> x" "x < 256" "0 \<le> y" "y < 256" "satsub_result d r"
  shows "(case r of Inl v \<Rightarrow> v | Inr ret \<Rightarrow> saturate (ret + (x - y))) = saturate (256 * d + (x - y))"
  using assms by (auto simp: satsub_result_def saturate_def split: if_splits)

lemma satsub64be_eq:
  assumes "length v1 = 8" "length v2 = 8"
  shows "satsub64be v1 v2 = saturate (int (be_nat v1) - int (be_nat v2))"
proof -
  have split: "be_nat v = be_nat (take 7 v) * 256 + unat (v ! 7)" if "length v = 8" for v
  proof -
    have "v = take 7 v @ [v ! 7]"
      using take_Suc_conv_app_nth [of 7 v] that by simp
    then show ?thesis
      by (metis be_nat_snoc)
  qed
  let ?d = "int (be_nat (take 7 v1)) - int (be_nat (take 7 v2))"
  have d: "satsub_result ?d (satsub_loop (take 7 v1) (take 7 v2))"
    using assms by (intro satsub_loop_result) simp
  have "int (be_nat v1) - int (be_nat v2) = 256 * ?d + (int (unat (v1 ! 7)) - int (unat (v2 ! 7)))"
    by (simp add: split assms algebra_simps)
  moreover have "satsub64be v1 v2 = saturate (256 * ?d + (int (unat (v1 ! 7)) - int (unat (v2 ! 7))))"
    unfolding satsub64be_def using unat_byte_lt [of "v1 ! 7"] unat_byte_lt [of "v2 ! 7"]
    by (intro saturate_result [OF _ _ _ _ d]) linarith+
  ultimately show ?thesis
    by simp
qed

section \<open>The window\<close>

text \<open>
  The bitmap stands for the set \<open>A\<close> of the numbers received so far: its highest number, and for the last 64
  numbers up to it whether they are in the set.
\<close>

definition win_max :: "nat set \<Rightarrow> nat" where
  "win_max A = Max (insert 0 A)"

definition bm_repr :: "nat set \<Rightarrow> dtls1_bitmap \<Rightarrow> bool" where
  "bm_repr A bm \<longleftrightarrow> finite A \<and> length (max_seq_num bm) = 8 \<and> be_nat (max_seq_num bm) = win_max A \<and>
     (\<forall>k<64. bit (bm_map bm) k \<longleftrightarrow> (\<exists>a\<in>A. a + k = win_max A))"

text \<open>A number is new and not too old.\<close>

definition win_accept :: "nat set \<Rightarrow> nat \<Rightarrow> bool" where
  "win_accept A n \<longleftrightarrow> n \<notin> A \<and> win_max A < n + 64"

definition bitmap_empty :: dtls1_bitmap where
  "bitmap_empty = \<lparr>bm_map = 0, max_seq_num = replicate 8 0\<rparr>"

lemma win_max_ge: "finite A \<Longrightarrow> a \<in> A \<Longrightarrow> a \<le> win_max A"
  by (simp add: win_max_def)

lemma win_max_insert: "finite A \<Longrightarrow> win_max (insert n A) = max n (win_max A)"
  by (simp add: win_max_def insert_commute [of 0])

lemma bm_repr_empty: "bm_repr {} bitmap_empty"
  using be_nat_zeros [of "replicate 8 0"] by (simp add: bm_repr_def bitmap_empty_def win_max_def list_all_iff)

lemma replay_ok_iff:
  assumes "bm_repr A bm" "length seq = 8"
  shows "replay_ok seq bm \<longleftrightarrow> win_accept A (be_nat seq)"
proof -
  let ?n = "be_nat seq" and ?m = "win_max A"
  have fin: "finite A" and m: "be_nat (max_seq_num bm) = ?m" "length (max_seq_num bm) = 8"
    and bits: "\<And>k. k < 64 \<Longrightarrow> bit (bm_map bm) k \<longleftrightarrow> (\<exists>a\<in>A. a + k = ?m)"
    using assms(1) by (auto simp: bm_repr_def)
  have cmp: "satsub64be seq (max_seq_num bm) = saturate (int ?n - int ?m)"
    using satsub64be_eq [OF assms(2) m(2)] m(1) by simp
  consider "?m < ?n" | "?n \<le> ?m" "64 \<le> ?m - ?n" | "?n \<le> ?m" "?m - ?n < 64"
    by linarith
  then show ?thesis
  proof cases
    case 1
    then show ?thesis
      using win_max_ge [OF fin, of ?n] by (auto simp: replay_ok_def cmp saturate_def win_accept_def)
  next
    case 2
    then have "64 \<le> nat (- saturate (int ?n - int ?m))" "\<not> 0 < saturate (int ?n - int ?m)"
      by (auto simp: saturate_def)
    then show ?thesis
      using 2 by (auto simp: replay_ok_def cmp win_accept_def)
  next
    case 3
    then obtain k where k: "?m = ?n + k" "k < 64"
      by (metis add_diff_cancel_left' le_Suc_ex)
    then have "saturate (int ?n - int ?m) = - int k"
      by (auto simp: saturate_def)
    then have "replay_ok seq bm \<longleftrightarrow> \<not> bit (bm_map bm) k"
      using k(2) by (simp add: replay_ok_def cmp and_exp_eq_0_iff_not_bit)
    then show ?thesis
      using bits [OF k(2)] k by (auto simp: win_accept_def)
  qed
qed

lemma bitmap_update_repr:
  assumes "bm_repr A bm" "length seq = 8"
  shows "bm_repr (insert (be_nat seq) A) (dtls1_record_bitmap_update seq bm)"
proof -
  let ?n = "be_nat seq" and ?m = "win_max A"
  have fin: "finite A" and m: "be_nat (max_seq_num bm) = ?m" "length (max_seq_num bm) = 8"
    and bits: "\<And>k. k < 64 \<Longrightarrow> bit (bm_map bm) k \<longleftrightarrow> (\<exists>a\<in>A. a + k = ?m)"
    using assms(1) by (auto simp: bm_repr_def)
  have cmp: "satsub64be seq (max_seq_num bm) = saturate (int ?n - int ?m)"
    using satsub64be_eq [OF assms(2) m(2)] m(1) by simp
  have max: "win_max (insert ?n A) = max ?n ?m"
    using fin by (rule win_max_insert)
  have below: "a \<le> ?m" if "a \<in> A" for a
    using fin that by (rule win_max_ge)
  show ?thesis
  proof (cases "?m < ?n")
    case True
    define s where "s = nat (saturate (int ?n - int ?m))"
    have s: "0 < saturate (int ?n - int ?m)" "s < 64 \<longleftrightarrow> ?n - ?m < 64" "?n - ?m < 64 \<Longrightarrow> s = ?n - ?m"
      using True by (auto simp: s_def saturate_def)
    have upd: "dtls1_record_bitmap_update seq bm =
        bm\<lparr>bm_map := (if s < 64 then push_bit s (bm_map bm) OR 1 else 1), max_seq_num := seq\<rparr>"
      using s(1) by (simp add: dtls1_record_bitmap_update_def cmp Let_def s_def)
    have "bit (if s < 64 then push_bit s (bm_map bm) OR 1 else 1) k \<longleftrightarrow> (\<exists>a\<in>insert ?n A. a + k = ?n)" if k: "k < 64" for k
    proof (cases "k = 0")
      case False
      have "(\<exists>a\<in>A. a + k = ?n) \<longleftrightarrow> s < 64 \<and> s \<le> k \<and> (\<exists>a\<in>A. a + (k - s) = ?m)"
      proof
        assume "\<exists>a\<in>A. a + k = ?n"
        then obtain a where a: "a \<in> A" "a + k = ?n"
          by auto
        then have "s < 64" "s \<le> k" "a + (k - s) = ?m"
          using below [OF a(1)] s True k by auto
        then show "s < 64 \<and> s \<le> k \<and> (\<exists>a\<in>A. a + (k - s) = ?m)"
          using a(1) by auto
      next
        assume *: "s < 64 \<and> s \<le> k \<and> (\<exists>a\<in>A. a + (k - s) = ?m)"
        then show "\<exists>a\<in>A. a + k = ?n"
          using s True by force
      qed
      then show ?thesis
        using False k bits [of "k - s"] by (auto simp: bit_or_iff bit_push_bit_iff bit_1_iff)
    qed (auto simp: bit_or_iff bit_1_iff)
    then show ?thesis
      using True fin assms(2) by (simp add: bm_repr_def upd max)
  next
    case False
    define s where "s = nat (- saturate (int ?n - int ?m))"
    have s: "\<not> 0 < saturate (int ?n - int ?m)" "s < 64 \<longleftrightarrow> ?m - ?n < 64" "?m - ?n < 64 \<Longrightarrow> s = ?m - ?n"
      using False by (auto simp: s_def saturate_def)
    have upd: "dtls1_record_bitmap_update seq bm = (if s < 64 then bm\<lparr>bm_map := bm_map bm OR push_bit s 1\<rparr> else bm)"
      using s(1) by (simp add: dtls1_record_bitmap_update_def cmp Let_def s_def)
    have "bit (if s < 64 then bm_map bm OR push_bit s 1 else bm_map bm) k \<longleftrightarrow> (\<exists>a\<in>insert ?n A. a + k = ?m)" if k: "k < 64" for k
    proof -
      have "bit (push_bit s 1 :: u64) k \<longleftrightarrow> k = s"
        using k by (auto simp: bit_exp_iff)
      moreover have "?n + k = ?m \<longleftrightarrow> s < 64 \<and> k = s"
        using s False k by auto
      ultimately show ?thesis
        using bits [OF k] by (auto simp: bit_or_iff)
    qed
    then show ?thesis
      using False fin m by (simp add: bm_repr_def upd max max_def) (auto simp: max_def)
  qed
qed

lemma sint_diff_u64:
  assumes "a < 2 ^ 63" "b < 2 ^ 63"
  shows "sint (of_nat a - of_nat b :: u64) = int a - int b"
proof -
  have "sint (word_of_int (int a - int b) :: u64) = int a - int b"
    using assms by (subst sint_sbintrunc') (simp add: signed_take_bit_int_eq_self_iff)
  then show ?thesis
    by simp
qed

text \<open>Records that arrive one after the other: which of them are taken.\<close>

fun window_run :: "byte list list \<Rightarrow> dtls1_bitmap \<Rightarrow> bool list \<times> dtls1_bitmap" where
  "window_run [] bm = ([], bm)"
| "window_run (seq # seqs) bm =
     (if replay_ok seq bm then let (rs, bm) = window_run seqs (dtls1_record_bitmap_update seq bm) in (True # rs, bm)
      else let (rs, bm) = window_run seqs bm in (False # rs, bm))"

fun window_spec :: "nat list \<Rightarrow> nat set \<Rightarrow> bool list" where
  "window_spec [] A = []"
| "window_spec (n # ns) A = (if win_accept A n then True # window_spec ns (insert n A) else False # window_spec ns A)"

lemma window_run_spec: "bm_repr A bm \<Longrightarrow> list_all (\<lambda>s. length s = 8) seqs \<Longrightarrow> fst (window_run seqs bm) = window_spec (map be_nat seqs) A"
  by (induction seqs bm arbitrary: A rule: window_run.induct)
    (auto simp: replay_ok_iff bitmap_update_repr Let_def split: prod.splits)

section \<open>Properties\<close>

text \<open>
  \<^verbatim>\<open>satsub64be\<close> is the difference of the two 64-bit numbers, cut off at -128 and 128, without any overflow; the
  path for big-endian machines gives the same for numbers below 2^63.
\<close>

theorem satsub64be_correct:
  assumes "length v1 = 8" "length v2 = 8"
  shows "satsub64be v1 v2 = max (- 128) (min 128 (int (be_nat v1) - int (be_nat v2))) \<and>
    (be_nat v1 < 2 ^ 63 \<and> be_nat v2 < 2 ^ 63 \<longrightarrow> satsub64be_long v1 v2 = satsub64be v1 v2)"
  using satsub64be_eq [OF assms] by (auto simp: saturate_def satsub64be_long_def sint_diff_u64)

theorem satsub64be_correct_witness:
  "satsub64be [0, 0, 0, 0, 0, 1, 0, 5] [0, 0, 0, 0, 0, 0, 255, 250] = 11 \<and> satsub64be_long [0, 0, 0, 0, 0, 1, 0, 5] [0, 0, 0, 0, 0, 0, 255, 250] = 11"
  using satsub64be_correct [of "[0, 0, 0, 0, 0, 1, 0, 5]" "[0, 0, 0, 0, 0, 0, 255, 250]"] by (simp add: be_nat_def)

text \<open>
  C11. The replay window takes a record exactly if no record with its number was taken before and its number is less
  than 64 below the highest number taken so far, for any sequence of arrivals.
\<close>

theorem replay_window_refines:
  assumes "list_all (\<lambda>s. length s = 8) seqs"
  shows "fst (window_run seqs bitmap_empty) = window_spec (map be_nat seqs) {}"
  using window_run_spec [OF bm_repr_empty assms] .

theorem replay_window_refines_witness:
  "fst (window_run [[0, 0, 0, 0, 0, 0, 0, 0], [0, 0, 0, 0, 0, 0, 0, 70], [0, 0, 0, 0, 0, 0, 0, 6], [0, 0, 0, 0, 0, 0, 0, 7], [0, 0, 0, 0, 0, 0, 0, 7]] bitmap_empty) =
    [True, True, False, True, False]"
  by (subst replay_window_refines) (simp_all add: be_nat_def win_accept_def win_max_def)

end
