(* ===== verification/Dtls_Record.thy ===== *)
theory Dtls_Record
  imports Dtls_Fragment Dtls_Window Cbc_Record "HOL-Library.Multiset"
begin

unbundle bit_operations_syntax

text \<open>
  Receiving records of DTLS, in \<^verbatim>\<open>ssl/d1_pkt.c\<close> and \<^verbatim>\<open>ssl/s3_pkt.c\<close>: datagrams are read into a buffer, cut into records,
  checked against the window of sequence numbers and decrypted; records of the next epoch wait in a queue until
  the epoch begins. The bytes of the packet and those left in the buffer are lists: where in the buffer they are plays
  no part. \<open>dt_net\<close> are the datagrams that the socket will deliver; a read without a datagram
  returns -1. Allocations succeed. The decryption and the MAC, which the code reaches through the function pointers of
  the method, are functions in the state.
\<close>

section \<open>Definitions\<close>

record dtls1_record = ssl3_record +
  rec_off :: u32
  rec_epoch :: u64
  rec_seq_num :: "byte list"

record dtls1_record_data =
  rd_packet :: "byte list"
  rd_packet_length :: nat
  rd_left :: "byte list"
  rd_rrec :: dtls1_record

text \<open>
  The read side of the cipher: \<open>rc_enc\<close> decrypts in place and returns 1, 0 or -1; \<open>rc_mac\<close> is present when there is a
  session with a cipher and a digest: the size of the MAC, whether the cipher is in CBC mode, and the MAC.
\<close>

record read_cipher =
  rc_enc :: "byte list \<Rightarrow> dtls1_record \<Rightarrow> int \<times> dtls1_record"
  rc_mac :: "(u32 \<times> bool \<times> (byte list \<Rightarrow> dtls1_record \<Rightarrow> int \<times> byte list)) option"

record dtls =
  dt_net :: "byte list list"
  dt_left :: "byte list"
  dt_packet :: "byte list"
  dt_packet_length :: nat
  dt_read_body :: bool
  dt_rrec :: dtls1_record
  dt_read_sequence :: "byte list"
  dt_write_sequence :: "byte list"
  dt_last_write_sequence :: "byte list"
  dt_r_epoch :: u16
  dt_w_epoch :: u16
  dt_bitmap :: dtls1_bitmap
  dt_next_bitmap :: dtls1_bitmap
  dt_unprocessed :: "dtls1_record_data pqueue"
  dt_unprocessed_epoch :: u16
  dt_processed :: "dtls1_record_data pqueue"
  dt_processed_epoch :: u16
  dt_buffered_messages :: "hm_fragment pqueue"
  dt_listen :: bool
  dt_in_handshake :: bool
  dt_first_packet :: bool
  dt_version :: u16
  dt_cipher :: read_cipher
  dt_alerts :: "int list"

definition DTLS1_RT_HEADER_LENGTH :: nat where
  "DTLS1_RT_HEADER_LENGTH = 13"

text \<open>The size of the read buffer without its alignment, and without \<^verbatim>\<open>SSL_OP_MICROSOFT_BIG_SSLV3_BUFFER\<close>.\<close>

definition rbuf_room :: nat where
  "rbuf_room = SSL3_RT_MAX_ENCRYPTED_LENGTH + DTLS1_RT_HEADER_LENGTH"

text \<open>\<open>ssl3_read_n\<close> for DTLS. One read of the socket returns a whole datagram, cut at the end of the buffer.\<close>

definition add_to_packet :: "byte list \<Rightarrow> dtls \<Rightarrow> dtls" where
  "add_to_packet xs s = s\<lparr>dt_packet := take (dt_packet_length s) (dt_packet s) @ xs, dt_packet_length := dt_packet_length s + length xs\<rparr>"

definition ssl3_read_n :: "nat \<Rightarrow> bool \<Rightarrow> dtls \<Rightarrow> int \<times> dtls" where
  "ssl3_read_n n ext s =
     (if n = 0 then (0, s)
      else
        let s = (if \<not> ext then s\<lparr>dt_packet := [], dt_packet_length := 0\<rparr> else s); left = length (dt_left s) in
        if left = 0 \<and> ext then (0, s)
        else
          let n = (if 0 < left \<and> left < n then left else n) in
          if n \<le> left then (int n, add_to_packet (take n (dt_left s)) (s\<lparr>dt_left := drop n (dt_left s)\<rparr>))
          else
            case dt_net s of
              [] \<Rightarrow> (- 1, s)
            | d # ds \<Rightarrow>
                let d = take (rbuf_room - dt_packet_length s) d; s = s\<lparr>dt_net := ds\<rparr> in
                if d = [] then (0, s)
                else
                  let n = (if length d < n then length d else n)
                  in (int n, add_to_packet (take n d) (s\<lparr>dt_left := drop n d\<rparr>)))"

definition dtls1_copy_record :: "dtls1_record_data pitem \<Rightarrow> dtls \<Rightarrow> dtls" where
  "dtls1_copy_record item s =
     (let rdata = pi_data item
      in s\<lparr>dt_packet := rd_packet rdata, dt_packet_length := rd_packet_length rdata, dt_left := rd_left rdata, dt_rrec := rd_rrec rdata,
           dt_read_sequence := put_at 2 (take 6 (drop 5 (rd_packet rdata))) (dt_read_sequence s)\<rparr>)"

definition empty_record :: dtls1_record where
  "empty_record =
     \<lparr>rec_type = 0, rec_length = 0, rec_data = [], rec_input = [], rec_off = 0, rec_epoch = 0, rec_seq_num = replicate 8 0\<rparr>"

text \<open>The result is that of the function; the queue is returned beside the state.\<close>

definition dtls1_buffer_record :: "dtls1_record_data pqueue \<Rightarrow> byte list \<Rightarrow> dtls \<Rightarrow> int \<times> dtls1_record_data pqueue \<times> dtls" where
  "dtls1_buffer_record queue prio s =
     (if 100 \<le> pqueue_size queue then (0, queue, s)
      else
        let rdata = \<lparr>rd_packet = dt_packet s, rd_packet_length = dt_packet_length s, rd_left = dt_left s, rd_rrec = dt_rrec s\<rparr>;
            s = s\<lparr>dt_packet := [], dt_packet_length := 0, dt_left := [], dt_rrec := empty_record\<rparr>;
            (r, queue) = pqueue_insert \<lparr>priority = prio, pi_data = rdata\<rparr> queue
        in if r then (1, queue, s) else (- 1, queue, s))"

definition dtls1_retrieve_buffered_record :: "dtls1_record_data pqueue \<Rightarrow> dtls \<Rightarrow> bool \<times> dtls1_record_data pqueue \<times> dtls" where
  "dtls1_retrieve_buffered_record queue s =
     (case pqueue_pop queue of
        (Some item, queue) \<Rightarrow> (True, queue, dtls1_copy_record item s)
      | (None, queue) \<Rightarrow> (False, queue, s))"

text \<open>Which of the two bitmaps a record is checked against.\<close>

datatype bitmap_of = Current | Next

definition dtls1_get_bitmap :: "dtls \<Rightarrow> bitmap_of option" where
  "dtls1_get_bitmap s =
     (let rr = dt_rrec s in
      if rec_epoch rr = ucast (dt_r_epoch s) then Some Current
      else if rec_epoch rr = ucast (dt_r_epoch s) + 1 \<and> dt_unprocessed_epoch s \<noteq> dt_r_epoch s \<and> (rec_type rr = 22 \<or> rec_type rr = 21)
      then Some Next
      else None)"

definition bitmap_at :: "bitmap_of \<Rightarrow> dtls \<Rightarrow> dtls1_bitmap" where
  "bitmap_at b s = (case b of Current \<Rightarrow> dt_bitmap s | Next \<Rightarrow> dt_next_bitmap s)"

definition set_bitmap_at :: "bitmap_of \<Rightarrow> dtls1_bitmap \<Rightarrow> dtls \<Rightarrow> dtls" where
  "set_bitmap_at b bm s = (case b of Current \<Rightarrow> s\<lparr>dt_bitmap := bm\<rparr> | Next \<Rightarrow> s\<lparr>dt_next_bitmap := bm\<rparr>)"

definition dtls1_record_replay_check :: "bitmap_of \<Rightarrow> dtls \<Rightarrow> bool \<times> dtls" where
  "dtls1_record_replay_check b s =
     (if replay_ok (dt_read_sequence s) (bitmap_at b s) then (True, s\<lparr>dt_rrec := (dt_rrec s)\<lparr>rec_seq_num := dt_read_sequence s\<rparr>\<rparr>)
      else (False, s))"

definition SSL_AD_RECORD_OVERFLOW :: int where
  "SSL_AD_RECORD_OVERFLOW = 22"

definition SSL_AD_DECODE_ERROR :: int where
  "SSL_AD_DECODE_ERROR = 50"

text \<open>
  The MAC of a record in \<^verbatim>\<open>dtls1_process_record\<close>: \<open>Inl\<close> is a fatal alert, \<open>Inr\<close> the value of \<^verbatim>\<open>enc_err\<close> and the record.
  \<open>None\<close> is a failed assertion of \<^verbatim>\<open>ssl3_cbc_copy_mac\<close>.
\<close>

definition check_mac :: "dtls \<Rightarrow> int \<Rightarrow> dtls1_record \<Rightarrow> (int + int \<times> dtls1_record) option" where
  "check_mac s enc_err rr =
     (case rc_mac (dt_cipher s) of
        None \<Rightarrow> Some (Inr (enc_err, rr))
      | Some (mac_size, cbc, mac_fun) \<Rightarrow>
          let orig_len = rec_length rr + drop_bit 8 (rec_type rr) in
          if orig_len < mac_size \<or> cbc \<and> orig_len < mac_size + 1 then Some (Inl SSL_AD_DECODE_ERROR)
          else
            case (if cbc then ssl3_cbc_copy_mac (ssl3_record.truncate rr) mac_size orig_len
                  else Some (take (unat mac_size) (drop (unat (rec_length rr - mac_size)) (rec_data rr)))) of
              None \<Rightarrow> None
            | Some mac \<Rightarrow>
                let rr = rr\<lparr>rec_length := rec_length rr - mac_size\<rparr>;
                    (i, md) = mac_fun (dt_read_sequence s) rr;
                    enc_err = (if i < 0 \<or> take (unat mac_size) md \<noteq> mac then - 1 else enc_err);
                    enc_err = (if 16384 + mac_size < rec_length rr then - 1 else enc_err)
                in Some (Inr (enc_err, rr)))"

definition drop_packet :: "dtls \<Rightarrow> dtls" where
  "drop_packet s = s\<lparr>dt_rrec := (dt_rrec s)\<lparr>rec_length := 0\<rparr>, dt_packet_length := 0\<rparr>"

definition fatal_alert :: "int \<Rightarrow> dtls \<Rightarrow> dtls" where
  "fatal_alert al s = s\<lparr>dt_alerts := dt_alerts s @ [al]\<rparr>"

definition dtls1_process_record :: "bitmap_of \<Rightarrow> dtls \<Rightarrow> (bool \<times> dtls) option" where
  "dtls1_process_record b s =
     (let rr = (dt_rrec s)\<lparr>rec_input := drop DTLS1_RT_HEADER_LENGTH (dt_packet s)\<rparr>; s = s\<lparr>dt_rrec := rr\<rparr> in
      if SSL3_RT_MAX_ENCRYPTED_LENGTH < unat (rec_length rr) then Some (False, fatal_alert SSL_AD_RECORD_OVERFLOW s)
      else
        let (enc_err, rr) = rc_enc (dt_cipher s) (dt_read_sequence s) (rr\<lparr>rec_data := rec_input rr\<rparr>); s = s\<lparr>dt_rrec := rr\<rparr> in
        if enc_err = 0 then Some (False, drop_packet s)
        else
          case check_mac s enc_err rr of
            None \<Rightarrow> None
          | Some (Inl al) \<Rightarrow> Some (False, fatal_alert al s)
          | Some (Inr (enc_err, rr)) \<Rightarrow>
              let s = s\<lparr>dt_rrec := rr\<rparr> in
              if enc_err < 0 then Some (False, drop_packet s)
              else if 16384 < rec_length rr then Some (False, fatal_alert SSL_AD_RECORD_OVERFLOW s)
              else
                let s = s\<lparr>dt_rrec := rr\<lparr>rec_off := 0\<rparr>, dt_packet_length := 0\<rparr>
                in Some (True, set_bitmap_at b (dtls1_record_bitmap_update (dt_read_sequence s) (bitmap_at b s)) s))"

text \<open>
  The loop of \<^verbatim>\<open>dtls1_process_buffered_records\<close> over the records of the queue, and the function. \<open>None\<close> is a failed
  assertion.
\<close>

fun process_records :: "dtls1_record_data pqueue \<Rightarrow> dtls \<Rightarrow> (bool \<times> dtls) option" where
  "process_records [] s = Some (True, s\<lparr>dt_unprocessed := []\<rparr>)"
| "process_records (item # rest) s =
     (let s = dtls1_copy_record item (s\<lparr>dt_unprocessed := rest\<rparr>) in
      case dtls1_get_bitmap s of
        None \<Rightarrow> Some (False, s)
      | Some b \<Rightarrow>
          let (replayok, s) = dtls1_record_replay_check b s in
          if \<not> replayok then process_records rest (drop_packet s)
          else
            case dtls1_process_record b s of
              None \<Rightarrow> None
            | Some (ok, s) \<Rightarrow>
                if \<not> ok then process_records rest (drop_packet s)
                else
                  let (r, queue, s) = dtls1_buffer_record (dt_processed s) (rec_seq_num (dt_rrec s)) s; s = s\<lparr>dt_processed := queue\<rparr>
                  in if r < 0 then Some (False, s) else process_records rest s)"

definition sync_epochs :: "dtls \<Rightarrow> dtls" where
  "sync_epochs s = s\<lparr>dt_processed_epoch := dt_r_epoch s, dt_unprocessed_epoch := dt_r_epoch s + 1\<rparr>"

definition dtls1_process_buffered_records :: "dtls \<Rightarrow> (bool \<times> dtls) option" where
  "dtls1_process_buffered_records s =
     (case pqueue_peek (dt_unprocessed s) of
        None \<Rightarrow> Some (True, sync_epochs s)
      | Some _ \<Rightarrow>
          if dt_unprocessed_epoch s \<noteq> dt_r_epoch s then Some (True, s)
          else if dt_left s \<noteq> [] then Some (True, s)
          else
            case process_records (dt_unprocessed s) s of
              None \<Rightarrow> None
            | Some (ok, s) \<Rightarrow> if ok then Some (True, sync_epochs s) else Some (False, s))"

text \<open>
  A pass through \<^verbatim>\<open>dtls1_get_record\<close> from the label \<^verbatim>\<open>again\<close>: \<open>Return\<close> is a return, \<open>Again\<close> a jump back to the label, \<open>Go\<close>
  means that control goes on. The header is parsed with the byte-string reader.
\<close>

datatype pass = Return int dtls | Again dtls | Go dtls

definition parse_header :: "dtls \<Rightarrow> pass" where
  "parse_header s =
     (let header = CBS_init (dt_packet s) (of_nat (dt_packet_length s)) in
      case CBS_get_u8 header of
        (None, _) \<Rightarrow> Again s
      | (Some ty, header) \<Rightarrow>
      (case CBS_get_u16 header of
        (None, _) \<Rightarrow> Again s
      | (Some ssl_version, header) \<Rightarrow>
      (case CBS_get_u16 header of
        (None, _) \<Rightarrow> Again s
      | (Some epoch, header) \<Rightarrow>
      (case CBS_get_bytes 6 header of
        (None, _) \<Rightarrow> Again s
      | (Some seq_no, header) \<Rightarrow>
      (case CBS_write_bytes seq_no (drop 2 (dt_read_sequence s)) 6 of
        None \<Rightarrow> Again s
      | Some (bytes, _) \<Rightarrow>
          let s = s\<lparr>dt_read_sequence := take 2 (dt_read_sequence s) @ bytes\<rparr> in
      (case CBS_get_u16 header of
        (None, _) \<Rightarrow> Again s
      | (Some len, header) \<Rightarrow>
          let s = s\<lparr>dt_rrec := (dt_rrec s)\<lparr>rec_type := ucast ty, rec_epoch := ucast epoch, rec_length := ucast len\<rparr>\<rparr> in
          if \<not> dt_first_packet s \<and> ssl_version \<noteq> dt_version s then Again s
          else if ssl_version AND 0xff00 \<noteq> dt_version s AND 0xff00 then Again s
          else if SSL3_RT_MAX_ENCRYPTED_LENGTH < unat len then Again s
          else Go s))))))"

definition read_header :: "dtls \<Rightarrow> pass" where
  "read_header s =
     (if dt_read_body s \<and> \<not> dt_packet_length s < DTLS1_RT_HEADER_LENGTH then Go s
      else
        let (n, s) = ssl3_read_n DTLS1_RT_HEADER_LENGTH False s in
        if n \<le> 0 then Return n s
        else if dt_packet_length s \<noteq> DTLS1_RT_HEADER_LENGTH then Again s
        else parse_header (s\<lparr>dt_read_body := True\<rparr>))"

definition read_fragment :: "dtls \<Rightarrow> pass" where
  "read_fragment s =
     (if dt_packet_length s - DTLS1_RT_HEADER_LENGTH < unat (rec_length (dt_rrec s)) then
        let i = unat (rec_length (dt_rrec s)); (n, s) = ssl3_read_n i True s in
        if n \<noteq> int i then Again s else Go (s\<lparr>dt_read_body := False\<rparr>)
      else Go (s\<lparr>dt_read_body := False\<rparr>))"

text \<open>The record that was read: \<open>SSL3_RT_HANDSHAKE\<close> is 22 and \<open>SSL3_MT_CLIENT_HELLO\<close> is 1.\<close>

definition handle_record :: "dtls \<Rightarrow> pass option" where
  "handle_record s =
     (case dtls1_get_bitmap s of
        None \<Rightarrow> Some (Again s)
      | Some b \<Rightarrow>
          let hello = dt_listen s \<and> rec_type (dt_rrec s) = 22 \<and> DTLS1_RT_HEADER_LENGTH < dt_packet_length s \<and>
                dt_packet s ! DTLS1_RT_HEADER_LENGTH = 1;
              (ok, s) = (if hello then (True, s) else dtls1_record_replay_check b s)
          in
          if \<not> ok then Some (Again s)
          else if rec_length (dt_rrec s) = 0 then Some (Again s)
          else if b = Next then
            if dt_in_handshake s \<and> \<not> dt_listen s then
              let (r, queue, s) = dtls1_buffer_record (dt_unprocessed s) (rec_seq_num (dt_rrec s)) s; s = s\<lparr>dt_unprocessed := queue\<rparr>
              in if r < 0 then Some (Return (- 1) s) else Some (Again (drop_packet s))
            else Some (Again (drop_packet s))
          else
            case dtls1_process_record b s of
              None \<Rightarrow> None
            | Some (ok, s) \<Rightarrow> if ok then Some (Return 1 s) else Some (Again (drop_packet s)))"

definition get_record_pass :: "dtls \<Rightarrow> pass option" where
  "get_record_pass s =
     (case dtls1_process_buffered_records s of
        None \<Rightarrow> None
      | Some (ok, s) \<Rightarrow>
          if \<not> ok then Some (Return (- 1) s)
          else
            let (got, queue, s) = dtls1_retrieve_buffered_record (dt_processed s) s; s = s\<lparr>dt_processed := queue\<rparr> in
            if got then Some (Return 1 s)
            else
              case read_header s of
                Go s \<Rightarrow> (case read_fragment s of Go s \<Rightarrow> handle_record s | p \<Rightarrow> Some p)
              | p \<Rightarrow> Some p)"

text \<open>The function: \<open>None\<close> if it does not return, or if an assertion fails.\<close>

partial_function (option) dtls1_get_record :: "dtls \<Rightarrow> (int \<times> dtls) option" where
  "dtls1_get_record s =
     (case get_record_pass s of
        None \<Rightarrow> None
      | Some p \<Rightarrow> (case p of Return r s \<Rightarrow> Some (r, s) | Again s \<Rightarrow> dtls1_get_record s | Go s \<Rightarrow> None))"

declare dtls1_get_record.simps [code]

text \<open>\<open>cc_read\<close> is the bit \<^verbatim>\<open>SSL3_CC_READ\<close> of the argument.\<close>

definition dtls1_reset_seq_numbers :: "bool \<Rightarrow> dtls \<Rightarrow> dtls" where
  "dtls1_reset_seq_numbers cc_read s =
     (if cc_read then
        s\<lparr>dt_r_epoch := dt_r_epoch s + 1, dt_bitmap := dt_next_bitmap s, dt_next_bitmap := bitmap_empty,
          dt_buffered_messages := dtls1_clear_received_buffer (dt_buffered_messages s), dt_read_sequence := replicate 8 0\<rparr>
      else
        s\<lparr>dt_last_write_sequence := dt_write_sequence s, dt_w_epoch := dt_w_epoch s + 1, dt_write_sequence := replicate 8 0\<rparr>)"

section \<open>Parsing the header\<close>

definition u16_of :: "byte \<Rightarrow> byte \<Rightarrow> u16" where
  "u16_of b c = ucast (foldl shift_in (0 :: u32) [b, c])"

lemma unat_u16_of: "unat (u16_of b c) = unat b * 256 + unat c"
proof -
  have "unat (foldl shift_in (0 :: u32) [b, c]) = be_nat [b, c]"
    by (rule unat_foldl_shift_in) simp_all
  moreover have "be_nat [b, c] < 65536"
    using be_nat_less [of "[b, c]"] by simp
  ultimately show ?thesis
    by (simp add: u16_of_def unsigned_ucast_eq take_bit_eq_mod be_nat_Cons)
qed

definition good_version :: "u16 \<Rightarrow> dtls \<Rightarrow> bool" where
  "good_version v s \<longleftrightarrow> (dt_first_packet s \<or> v = dt_version s) \<and> v AND 0xff00 = dt_version s AND 0xff00"

text \<open>The state after the fields of the header are stored.\<close>

definition with_header :: "byte list \<Rightarrow> dtls \<Rightarrow> dtls" where
  "with_header p s = s\<lparr>dt_read_sequence := take 2 (dt_read_sequence s) @ take 6 (drop 5 p),
     dt_rrec := (dt_rrec s)\<lparr>rec_type := ucast (p ! 0), rec_epoch := ucast (u16_of (p ! 3) (p ! 4)), rec_length := ucast (u16_of (p ! 11) (p ! 12))\<rparr>\<rparr>"

lemma parse_header_eq:
  assumes "length (dt_packet s) = 13" "dt_packet_length s = 13" "length (dt_read_sequence s) = 8"
  shows "parse_header s =
    (let s1 = with_header (dt_packet s) s in
     if good_version (u16_of (dt_packet s ! 1) (dt_packet s ! 2)) s \<and> unat (u16_of (dt_packet s ! 11) (dt_packet s ! 12)) \<le> SSL3_RT_MAX_ENCRYPTED_LENGTH
     then Go s1 else Again s1)"
proof -
  obtain b0 b1 b2 b3 b4 b5 b6 b7 b8 b9 b10 b11 b12 where p: "dt_packet s = [b0, b1, b2, b3, b4, b5, b6, b7, b8, b9, b10, b11, b12]"
    using assms(1) by (auto simp: eval_nat_numeral length_Suc_conv)
  show ?thesis
    using assms(2,3) by (simp add: parse_header_def p CBS_get_u8_def CBS_get_u16_def cbs_get_u_def CBS_get_bytes_def CBS_write_bytes_def cbs_get_def CBS_init_def
        with_header_def good_version_def u16_of_def Let_def)
qed

section \<open>Truncated records\<close>

lemma unat_ucast_u16: "unat (ucast (w :: u16) :: u32) = unat w"
  using unsigned_less [of w, where 'a = nat] by (simp add: unsigned_ucast_eq take_bit_nat_eq_self)

text \<open>A header was read, and the bytes of the body that are there are too few.\<close>

definition stuck :: "dtls \<Rightarrow> bool" where
  "stuck s \<longleftrightarrow> dt_unprocessed s = [] \<and> dt_processed s = [] \<and> dt_read_body s \<and> 13 \<le> dt_packet_length s \<and>
     dt_packet_length s - 13 + length (dt_left s) < unat (rec_length (dt_rrec s))"

lemma no_buffered_records:
  assumes "dt_unprocessed s = []" "dt_processed s = []"
  shows "get_record_pass s =
    (case read_header (sync_epochs s) of
       Go s \<Rightarrow> (case read_fragment s of Go s \<Rightarrow> handle_record s | p \<Rightarrow> Some p)
     | p \<Rightarrow> Some p)"
proof -
  define u where "u = sync_epochs s"
  have "dtls1_process_buffered_records s = Some (True, u)"
    using assms(1) by (simp add: dtls1_process_buffered_records_def pqueue_peek_def u_def)
  moreover have "dtls1_retrieve_buffered_record (dt_processed u) u = (False, [], u)" "u\<lparr>dt_processed := []\<rparr> = u"
    using assms(2) by (simp_all add: dtls1_retrieve_buffered_record_def pqueue_pop_def u_def sync_epochs_def)
  ultimately show ?thesis
    unfolding u_def [symmetric] by (simp add: get_record_pass_def)
qed

lemma read_fragment_stuck:
  assumes "stuck s"
  shows "\<exists>s'. read_fragment s = Again s' \<and> stuck s'"
proof (cases "dt_left s = []")
  case True
  have n: "int (unat (rec_length (dt_rrec s))) \<noteq> 0"
    using assms unfolding stuck_def by linarith
  have "ssl3_read_n (unat (rec_length (dt_rrec s))) True s = (0, s)"
    using True n by (simp add: ssl3_read_n_def)
  then show ?thesis
    using assms n by (auto simp: stuck_def read_fragment_def DTLS1_RT_HEADER_LENGTH_def)
next
  case False
  let ?s' = "add_to_packet (dt_left s) (s\<lparr>dt_left := []\<rparr>)"
  have "length (dt_left s) < unat (rec_length (dt_rrec s))" "0 < unat (rec_length (dt_rrec s))"
    using assms by (auto simp: stuck_def)
  then have "ssl3_read_n (unat (rec_length (dt_rrec s))) True s = (int (length (dt_left s)), ?s')"
    using False by (simp add: ssl3_read_n_def)
  moreover have "stuck ?s'"
    using assms by (auto simp: stuck_def add_to_packet_def)
  moreover have "int (length (dt_left s)) \<noteq> int (unat (rec_length (dt_rrec s)))" "dt_packet_length s - 13 < unat (rec_length (dt_rrec s))"
    using assms unfolding stuck_def by linarith+
  ultimately show ?thesis
    by (simp add: read_fragment_def DTLS1_RT_HEADER_LENGTH_def)
qed

lemma get_record_stuck:
  assumes "stuck s"
  shows "\<exists>s'. get_record_pass s = Some (Again s') \<and> stuck s'"
proof -
  have s: "stuck (sync_epochs s)"
    using assms by (auto simp: stuck_def sync_epochs_def)
  then have "read_header (sync_epochs s) = Go (sync_epochs s)"
    by (simp add: stuck_def read_header_def DTLS1_RT_HEADER_LENGTH_def)
  then show ?thesis
    using no_buffered_records [of s] read_fragment_stuck [OF s] assms by (auto simp: stuck_def)
qed

lemma stuck_not_returned:
  assumes "dtls1_get_record s = Some r"
  shows "\<not> stuck s"
proof (rule dtls1_get_record.raw_induct [where P = "\<lambda>s r. \<not> stuck s", OF _ assms])
  fix f s r
  assume IH: "\<And>s r. f s = Some r \<Longrightarrow> \<not> stuck s"
    and r: "(case get_record_pass s of None \<Rightarrow> None
      | Some p \<Rightarrow> (case p of Return r s \<Rightarrow> Some (r, s) | Again s \<Rightarrow> f s | Go s \<Rightarrow> None)) = Some r"
  show "\<not> stuck s"
  proof
    assume "stuck s"
    then obtain s' where "get_record_pass s = Some (Again s')" "stuck s'"
      using get_record_stuck by blast
    then show False
      using IH [of s' r] r by simp
  qed
qed

lemma stuck_never_returns: "stuck s \<Longrightarrow> dtls1_get_record s = None"
  using stuck_not_returned by (cases "dtls1_get_record s") auto

lemma read_header_datagram:
  assumes "dt_net s = d # ds" "dt_left s = []" "\<not> dt_read_body s" "13 \<le> length d" "length d \<le> rbuf_room"
  defines "s1 \<equiv> s\<lparr>dt_net := ds, dt_left := drop 13 d, dt_packet := take 13 d, dt_packet_length := 13, dt_read_body := True\<rparr>"
  shows "read_header s = parse_header s1"
proof -
  have "ssl3_read_n 13 False s = (13, s\<lparr>dt_net := ds, dt_left := drop 13 d, dt_packet := take 13 d, dt_packet_length := 13\<rparr>)"
    using assms(1-5) by (auto simp: ssl3_read_n_def add_to_packet_def Let_def)
  then show ?thesis
    using assms(3) by (simp add: read_header_def DTLS1_RT_HEADER_LENGTH_def s1_def)
qed


section \<open>No record is delivered twice\<close>

text \<open>What identifies a record, and what the decryption leaves alone.\<close>

definition rec_id :: "dtls1_record \<Rightarrow> u64 \<times> byte list" where
  "rec_id rr = (rec_epoch rr, rec_seq_num rr)"

definition enc_keeps_id :: "read_cipher \<Rightarrow> bool" where
  "enc_keeps_id c \<longleftrightarrow> (\<forall>seq rr. rec_id (snd (rc_enc c seq rr)) = rec_id rr)"

definition processed_ids :: "dtls \<Rightarrow> (u64 \<times> byte list) list" where
  "processed_ids s = map (\<lambda>i. rec_id (rd_rrec (pi_data i))) (dt_processed s)"

text \<open>The records \<open>D\<close> that were delivered and those that wait for delivery are distinct, and the bitmap knows those of the epoch.\<close>

definition in_window :: "nat set \<Rightarrow> u16 \<Rightarrow> u64 \<times> byte list \<Rightarrow> bool" where
  "in_window A e i \<longleftrightarrow> unat (fst i) \<le> unat e \<and> (fst i = ucast e \<longrightarrow> be_nat (snd i) \<in> A)"

definition fresh_inv :: "(u64 \<times> byte list) list \<Rightarrow> dtls \<Rightarrow> bool" where
  "fresh_inv D s \<longleftrightarrow> \<not> dt_listen s \<and> enc_keeps_id (dt_cipher s) \<and> length (dt_read_sequence s) = 8 \<and> dt_next_bitmap s = bitmap_empty \<and>
     distinct (processed_ids s @ D) \<and> (\<exists>A. bm_repr A (dt_bitmap s) \<and> list_all (in_window A (dt_r_epoch s)) (processed_ids s @ D))"

text \<open>The part of the state on which this depends.\<close>

definition same_window :: "dtls \<Rightarrow> dtls \<Rightarrow> bool" where
  "same_window s t \<longleftrightarrow> dt_listen t = dt_listen s \<and> dt_cipher t = dt_cipher s \<and> (length (dt_read_sequence s) = 8 \<longrightarrow> length (dt_read_sequence t) = 8) \<and>
     dt_next_bitmap t = dt_next_bitmap s \<and> dt_processed t = dt_processed s \<and> dt_bitmap t = dt_bitmap s \<and> dt_r_epoch t = dt_r_epoch s"

lemma fresh_inv_same: "fresh_inv D s \<Longrightarrow> same_window s t \<Longrightarrow> fresh_inv D t"
  by (simp add: fresh_inv_def same_window_def processed_ids_def)

lemma same_window_refl: "same_window s s"
  by (simp add: same_window_def)

lemma same_window_trans: "same_window s t \<Longrightarrow> same_window t u \<Longrightarrow> same_window s u"
  by (simp add: same_window_def)

lemma same_window_simps [simp]:
  "same_window s (t\<lparr>dt_net := n\<rparr>) = same_window s t"
  "same_window s (t\<lparr>dt_left := l\<rparr>) = same_window s t"
  "same_window s (t\<lparr>dt_packet := p\<rparr>) = same_window s t"
  "same_window s (t\<lparr>dt_packet_length := k\<rparr>) = same_window s t"
  "same_window s (t\<lparr>dt_read_body := b\<rparr>) = same_window s t"
  "same_window s (t\<lparr>dt_rrec := rr\<rparr>) = same_window s t"
  "same_window s (t\<lparr>dt_unprocessed := q\<rparr>) = same_window s t"
  "same_window s (t\<lparr>dt_unprocessed_epoch := e\<rparr>) = same_window s t"
  "same_window s (t\<lparr>dt_processed_epoch := e\<rparr>) = same_window s t"
  "same_window s (t\<lparr>dt_alerts := a\<rparr>) = same_window s t"
  "same_window s (drop_packet t) = same_window s t"
  "same_window s (fatal_alert al t) = same_window s t"
  "same_window s (sync_epochs t) = same_window s t"
  "same_window s (add_to_packet xs t) = same_window s t"
  "same_window s s"
  by (simp_all add: same_window_def drop_packet_def fatal_alert_def sync_epochs_def add_to_packet_def)

lemma same_window_copy [simp]: "same_window s (dtls1_copy_record item s)"
  by (simp add: same_window_def dtls1_copy_record_def Let_def length_put_at)

lemma same_window_read_n: "ssl3_read_n n ext s = (r, s') \<Longrightarrow> same_window s s'"
  by (auto simp: ssl3_read_n_def Let_def split: if_splits list.splits)

lemma ssl3_read_n_start: "ssl3_read_n n False s = (r, s') \<Longrightarrow> 0 < r \<Longrightarrow> length (dt_packet s') = dt_packet_length s'"
  by (auto simp: ssl3_read_n_def Let_def add_to_packet_def split: if_splits list.splits)

definition pass_same :: "dtls \<Rightarrow> pass \<Rightarrow> bool" where
  "pass_same s p = (case p of Return r t \<Rightarrow> r \<le> 0 \<and> same_window s t | Again t \<Rightarrow> same_window s t | Go t \<Rightarrow> same_window s t)"

lemma pass_same_read_header:
  assumes "length (dt_read_sequence s) = 8"
  shows "pass_same s (read_header s)"
proof (cases "dt_read_body s \<and> \<not> dt_packet_length s < DTLS1_RT_HEADER_LENGTH")
  case True
  then show ?thesis
    by (simp add: read_header_def pass_same_def)
next
  case False
  obtain n t where n: "ssl3_read_n DTLS1_RT_HEADER_LENGTH False s = (n, t)"
    by fastforce
  define u where "u = t\<lparr>dt_read_body := True\<rparr>"
  have t: "same_window s t"
    using n by (rule same_window_read_n)
  show ?thesis
  proof (cases "0 < n \<and> dt_packet_length t = DTLS1_RT_HEADER_LENGTH")
    case True
    then have "length (dt_packet u) = 13" "dt_packet_length u = 13" "length (dt_read_sequence u) = 8"
      using ssl3_read_n_start [OF n] t assms by (simp_all add: u_def DTLS1_RT_HEADER_LENGTH_def same_window_def)
    note h = parse_header_eq [OF this]
    have "same_window s (with_header (dt_packet u) u)"
      using t \<open>length (dt_packet u) = 13\<close> by (simp add: same_window_def with_header_def u_def)
    then have "pass_same s (parse_header u)"
      unfolding h by (simp add: pass_same_def Let_def)
    then show ?thesis
      using False True n by (auto simp: read_header_def u_def)
  next
    case nh: False
    then show ?thesis
      using False n t by (auto simp: read_header_def pass_same_def)
  qed
qed

lemma pass_same_read_fragment: "pass_same s (read_fragment s)"
proof -
  obtain n t where n: "ssl3_read_n (unat (rec_length (dt_rrec s))) True s = (n, t)"
    by fastforce
  then have "same_window s t"
    by (rule same_window_read_n)
  then show ?thesis
    using n by (auto simp: read_fragment_def pass_same_def Let_def)
qed

text \<open>Processing a record: on success its number is entered in the bitmap.\<close>

lemma check_mac_id: "check_mac s e rr = Some (Inr (e', rr')) \<Longrightarrow> rec_id rr' = rec_id rr"
  by (auto simp: check_mac_def rec_id_def Let_def split: option.splits if_splits prod.splits)

lemma bitmap_at_simps [simp]:
  "bitmap_at b (s\<lparr>dt_rrec := rr\<rparr>) = bitmap_at b s"
  "bitmap_at b (s\<lparr>dt_packet_length := k\<rparr>) = bitmap_at b s"
  by (simp_all add: bitmap_at_def split: bitmap_of.split)

lemma process_record_cases:
  assumes "dtls1_process_record b s = Some (ok, t)" "enc_keeps_id (dt_cipher s)"
  shows "if ok then \<exists>rr. rec_id rr = rec_id (dt_rrec s) \<and>
      t = set_bitmap_at b (dtls1_record_bitmap_update (dt_read_sequence s) (bitmap_at b s)) (s\<lparr>dt_rrec := rr, dt_packet_length := 0\<rparr>)
    else same_window s t \<and> dt_unprocessed_epoch t = dt_unprocessed_epoch s"
proof -
  define rr where "rr = (dt_rrec s)\<lparr>rec_input := drop DTLS1_RT_HEADER_LENGTH (dt_packet s)\<rparr>"
  obtain e rr1 where e: "rc_enc (dt_cipher s) (dt_read_sequence s) (rr\<lparr>rec_data := rec_input rr\<rparr>) = (e, rr1)"
    by fastforce
  have "rec_id (snd (rc_enc (dt_cipher s) (dt_read_sequence s) (rr\<lparr>rec_data := rec_input rr\<rparr>))) = rec_id (rr\<lparr>rec_data := rec_input rr\<rparr>)"
    using assms(2) by (simp add: enc_keeps_id_def)
  then have rr1: "rec_id rr1 = rec_id (dt_rrec s)"
    by (simp add: e) (simp add: rec_id_def rr_def)
  have mac: "rec_id (rr2\<lparr>rec_off := 0\<rparr>) = rec_id (dt_rrec s)" if "check_mac u e rr1 = Some (Inr (e2, rr2))" for u e2 rr2
    using check_mac_id [OF that] rr1 by (simp add: rec_id_def)
  have fr: "same_window s (s\<lparr>dt_rrec := rr3\<rparr>)" "same_window s (fatal_alert al (s\<lparr>dt_rrec := rr3\<rparr>))" "same_window s (drop_packet (s\<lparr>dt_rrec := rr3\<rparr>))"
    "dt_unprocessed_epoch (fatal_alert al (s\<lparr>dt_rrec := rr3\<rparr>)) = dt_unprocessed_epoch s"
    "dt_unprocessed_epoch (drop_packet (s\<lparr>dt_rrec := rr3\<rparr>)) = dt_unprocessed_epoch s" for rr3 al
    by (simp_all add: fatal_alert_def drop_packet_def)
  show ?thesis
    using assms(1) unfolding dtls1_process_record_def Let_def rr_def [symmetric]
    by (auto simp: e fr split: if_splits option.splits sum.splits prod.splits dest: mac)
qed

lemma insert_loop_mset: "insert_loop i q = (r, q') \<Longrightarrow> if r then mset q' = add_mset i (mset q) else q' = q"
  by (induction q arbitrary: q') (auto simp: Let_def split: if_splits prod.splits)

text \<open>The invariant does not depend on the order of the records, and records may be forgotten.\<close>

lemma distinct_mset_subset:
  assumes "mset xs \<subseteq># mset ys" "distinct ys"
  shows "distinct xs"
proof -
  obtain zs where "mset ys = mset (xs @ zs)"
    using assms(1) ex_mset by (metis mset_append mset_subset_eq_exists_conv)
  then show ?thesis
    using assms(2) mset_eq_imp_distinct_iff distinct_append by blast
qed

lemma fresh_inv_perm:
  assumes "fresh_inv D s" "mset (processed_ids t @ E) \<subseteq># mset (processed_ids s @ D)" "same_window s (t\<lparr>dt_processed := dt_processed s\<rparr>)"
  shows "fresh_inv E t"
proof -
  have "distinct (processed_ids t @ E)"
    using assms(1) distinct_mset_subset [OF assms(2)] by (simp add: fresh_inv_def)
  moreover have "set (processed_ids t @ E) \<subseteq> set (processed_ids s @ D)"
    using set_mset_mono [OF assms(2)] by simp
  moreover obtain A where A: "bm_repr A (dt_bitmap s)" "list_all (in_window A (dt_r_epoch s)) (processed_ids s @ D)"
    using assms(1) by (auto simp: fresh_inv_def)
  ultimately have "list_all (in_window A (dt_r_epoch s)) (processed_ids t @ E)"
    unfolding list_all_iff by blast
  then show ?thesis
    using \<open>distinct (processed_ids t @ E)\<close> A(1) assms(1,3) unfolding fresh_inv_def same_window_def by auto
qed

lemma fresh_accept:
  assumes inv: "fresh_inv D s" and e: "rec_epoch (dt_rrec s) = ucast (dt_r_epoch s)" and chk: "dtls1_record_replay_check Current s = (True, u)"
    and proc: "dtls1_process_record Current u = Some (True, t)"
  shows "fresh_inv (rec_id (dt_rrec t) # D) t \<and> dt_unprocessed_epoch t = dt_unprocessed_epoch s \<and> dt_r_epoch t = dt_r_epoch s"
proof -
  let ?seq = "dt_read_sequence s"
  obtain A where A: "bm_repr A (dt_bitmap s)" "list_all (in_window A (dt_r_epoch s)) (processed_ids s @ D)"
    using inv by (auto simp: fresh_inv_def)
  have u: "u = s\<lparr>dt_rrec := (dt_rrec s)\<lparr>rec_seq_num := ?seq\<rparr>\<rparr>" and ok: "replay_ok ?seq (dt_bitmap s)"
    using chk by (auto simp: dtls1_record_replay_check_def bitmap_at_def split: if_splits)
  obtain rr where rr: "rec_id rr = rec_id (dt_rrec u)"
    "t = set_bitmap_at Current (dtls1_record_bitmap_update (dt_read_sequence u) (bitmap_at Current u)) (u\<lparr>dt_rrec := rr, dt_packet_length := 0\<rparr>)"
    using process_record_cases [OF proc] inv u by (auto simp: fresh_inv_def)
  have id: "rec_id (dt_rrec t) = (ucast (dt_r_epoch s), ?seq)"
    using rr e by (simp add: set_bitmap_at_def u rec_id_def)
  have bm: "dt_bitmap t = dtls1_record_bitmap_update ?seq (dt_bitmap s)"
    by (simp add: rr(2) set_bitmap_at_def u bitmap_at_def)
  have seq: "length ?seq = 8" "be_nat ?seq \<notin> A"
    using replay_ok_iff [OF A(1)] ok inv by (auto simp: fresh_inv_def win_accept_def)
  have "bm_repr (insert (be_nat ?seq) A) (dt_bitmap t)"
    unfolding bm using bitmap_update_repr [OF A(1) seq(1)] .
  moreover have "unat (ucast (dt_r_epoch s) :: u64) = unat (dt_r_epoch s)"
    using unsigned_less [of "dt_r_epoch s", where 'a = nat] by (simp add: unsigned_ucast_eq take_bit_nat_eq_self)
  then have "list_all (in_window (insert (be_nat ?seq) A) (dt_r_epoch s)) (processed_ids s @ rec_id (dt_rrec t) # D)"
    using A(2) unfolding id by (auto simp: list_all_iff in_window_def)
  moreover have "rec_id (dt_rrec t) \<notin> set (processed_ids s @ D)"
    using A(2) seq(2) unfolding id by (force simp: list_all_iff in_window_def)
  moreover have "processed_ids t = processed_ids s"
    by (simp add: processed_ids_def rr(2) set_bitmap_at_def u)
  ultimately show ?thesis
    using inv by (auto simp: fresh_inv_def rr(2) set_bitmap_at_def u)
qed

lemma fresh_buffer:
  assumes inv: "fresh_inv (rec_id (dt_rrec s) # D) s" and b: "dtls1_buffer_record (dt_processed s) prio s = (r, q, t)"
  shows "fresh_inv D (t\<lparr>dt_processed := q\<rparr>) \<and> dt_unprocessed_epoch t = dt_unprocessed_epoch s \<and> dt_r_epoch t = dt_r_epoch s"
proof -
  define i where "i = \<lparr>priority = prio, pi_data = \<lparr>rd_packet = dt_packet s, rd_packet_length = dt_packet_length s, rd_left = dt_left s, rd_rrec = dt_rrec s\<rparr>\<rparr>"
  have q: "q = dt_processed s \<or> mset q = add_mset i (mset (dt_processed s))"
    using b insert_loop_mset [of i "dt_processed s"]
    by (auto simp: dtls1_buffer_record_def pqueue_insert_eq i_def [symmetric] Let_def split: if_splits prod.splits)
  have t: "same_window s t" "dt_unprocessed_epoch t = dt_unprocessed_epoch s" "dt_r_epoch t = dt_r_epoch s"
    using b by (auto simp: dtls1_buffer_record_def Let_def split: if_splits prod.splits)
  have "mset (map (\<lambda>i. rec_id (rd_rrec (pi_data i))) q) \<subseteq># mset (rec_id (dt_rrec s) # processed_ids s)"
    using q by (auto simp: processed_ids_def i_def)
  then have "mset (processed_ids (t\<lparr>dt_processed := q\<rparr>) @ D) \<subseteq># mset (processed_ids s @ rec_id (dt_rrec s) # D)"
    by (simp add: processed_ids_def)
  then have "fresh_inv D (t\<lparr>dt_processed := q\<rparr>)"
    by (rule fresh_inv_perm [OF inv]) (use t(1) in \<open>simp add: same_window_def\<close>)
  then show ?thesis
    using t(2,3) by simp
qed

text \<open>The records of the queue are processed when their epoch has become the current one.\<close>

lemma replay_check_same:
  assumes "dtls1_record_replay_check b s = (ok, t)"
  shows "same_window s t \<and> dt_unprocessed_epoch t = dt_unprocessed_epoch s"
  using assms by (auto simp: dtls1_record_replay_check_def split: if_splits)

lemma get_bitmap_processing:
  assumes "dtls1_get_bitmap s = Some b" "dt_unprocessed_epoch s = dt_r_epoch s"
  shows "b = Current \<and> rec_epoch (dt_rrec s) = ucast (dt_r_epoch s)"
  using assms by (auto simp: dtls1_get_bitmap_def Let_def split: if_splits)

lemma check_and_process:
  assumes "fresh_inv D s" "rec_epoch (dt_rrec s) = ucast (dt_r_epoch s)" "dtls1_record_replay_check Current s = (True, u)"
    and "dtls1_process_record Current u = Some (ok, t)"
  shows "fresh_inv (if ok then rec_id (dt_rrec t) # D else D) t \<and> (dt_unprocessed_epoch s = dt_r_epoch s \<longrightarrow> dt_unprocessed_epoch t = dt_r_epoch t)"
proof (cases ok)
  case True
  then show ?thesis
    using fresh_accept [OF assms(1-3), of t] assms(4) by simp
next
  case False
  have u: "same_window s u" "dt_unprocessed_epoch u = dt_unprocessed_epoch s"
    using replay_check_same [OF assms(3)] by auto
  moreover have t: "same_window u t" "dt_unprocessed_epoch t = dt_unprocessed_epoch u"
    using process_record_cases [OF assms(4)] fresh_inv_same [OF assms(1) u(1)] False by (auto simp: fresh_inv_def)
  ultimately show ?thesis
    using fresh_inv_same [OF assms(1)] same_window_trans [of s u t] False by (simp add: same_window_def)
qed

lemma process_records_fresh:
  assumes "process_records q s = Some (ok, t)" "fresh_inv D s" "dt_unprocessed_epoch s = dt_r_epoch s"
  shows "fresh_inv D t"
  using assms
proof (induction q arbitrary: s)
  case Nil
  then show ?case
    using fresh_inv_same by fastforce
next
  case (Cons item q)
  define u where "u = dtls1_copy_record item (s\<lparr>dt_unprocessed := q\<rparr>)"
  have "same_window s u"
    using same_window_trans [of s "s\<lparr>dt_unprocessed := q\<rparr>" u] by (simp add: u_def)
  then have u: "fresh_inv D u" "dt_unprocessed_epoch u = dt_r_epoch u"
    using fresh_inv_same Cons.prems by (auto simp: u_def dtls1_copy_record_def Let_def)
  note p = Cons.prems(1) [unfolded process_records.simps Let_def u_def [symmetric]]
  have dropped: "fresh_inv D t" if "process_records q (drop_packet w) = Some (ok, t)" "fresh_inv D w" "dt_unprocessed_epoch w = dt_r_epoch w" for w
    using Cons.IH [OF that(1)] that(2,3) fresh_inv_same [of D w "drop_packet w"] by (simp add: drop_packet_def)
  show ?case
  proof (cases "dtls1_get_bitmap u")
    case (Some b)
    note b = get_bitmap_processing [OF Some u(2)]
    obtain c v where c: "dtls1_record_replay_check b u = (c, v)"
      by fastforce
    have v: "same_window u v" "dt_unprocessed_epoch v = dt_r_epoch v"
      using replay_check_same [OF c] u(2) by (auto simp: same_window_def)
    show ?thesis
    proof (cases c)
      case True
      then obtain ok1 w where w: "dtls1_process_record b v = Some (ok1, w)"
        using p Some c by (auto split: option.splits)
      have w': "fresh_inv (if ok1 then rec_id (dt_rrec w) # D else D) w" "dt_unprocessed_epoch w = dt_r_epoch w"
        using check_and_process [OF u(1), of v ok1 w] b c True w u(2) by auto
      obtain r q' x where x: "dtls1_buffer_record (dt_processed w) (rec_seq_num (dt_rrec w)) w = (r, q', x)"
        using prod_cases3 by blast
      have "fresh_inv D (x\<lparr>dt_processed := q'\<rparr>)" "dt_unprocessed_epoch x = dt_r_epoch x" if ok1
        using fresh_buffer [OF _ x] w' that by auto
      then show ?thesis
        using p Cons.IH [of "x\<lparr>dt_processed := q'\<rparr>"] dropped [of w] Some c True w w' x by (auto split: if_splits)
    qed (use p Some c dropped [of v] v fresh_inv_same [OF u(1) v(1)] in simp)
  qed (use p u(1) in simp)
qed

text \<open>A pass delivers at most one record, and this one is new.\<close>

definition pass_fresh :: "(u64 \<times> byte list) list \<Rightarrow> pass \<Rightarrow> bool" where
  "pass_fresh D p = (case p of Return r s \<Rightarrow> fresh_inv (if r = 1 then rec_id (dt_rrec s) # D else D) s | Again s \<Rightarrow> fresh_inv D s | Go s \<Rightarrow> fresh_inv D s)"

lemma pass_fresh_simps [simp]:
  "pass_fresh D (Return r s) = fresh_inv (if r = 1 then rec_id (dt_rrec s) # D else D) s"
  "pass_fresh D (Again s) = fresh_inv D s"
  "pass_fresh D (Go s) = fresh_inv D s"
  by (simp_all add: pass_fresh_def)

lemma pass_fresh_same: "fresh_inv D s \<Longrightarrow> pass_same s p \<Longrightarrow> pass_fresh D p"
  using fresh_inv_same by (auto simp: pass_same_def pass_fresh_def split: pass.splits)

lemma handle_record_fresh:
  assumes "fresh_inv D s" "handle_record s = Some p"
  shows "pass_fresh D p"
proof (cases "dtls1_get_bitmap s")
  case None
  then show ?thesis
    using assms by (auto simp: handle_record_def pass_fresh_def)
next
  case (Some b)
  obtain c u where c: "dtls1_record_replay_check b s = (c, u)"
    by fastforce
  have listen: "\<not> dt_listen s"
    using assms(1) by (simp add: fresh_inv_def)
  note h = assms(2) [unfolded handle_record_def Let_def]
  have u: "fresh_inv D u"
    using fresh_inv_same [OF assms(1)] replay_check_same [OF c] by blast
  consider "\<not> c \<or> rec_length (dt_rrec u) = 0" | "c" "rec_length (dt_rrec u) \<noteq> 0" "b = Next" | "c" "rec_length (dt_rrec u) \<noteq> 0" "b = Current"
    by (cases b) auto
  then show ?thesis
  proof cases
    case 1
    then show ?thesis
      using h Some c u listen by (auto simp: pass_fresh_def split: if_splits)
  next
    case 2
    obtain r q v where v: "dtls1_buffer_record (dt_unprocessed u) (rec_seq_num (dt_rrec u)) u = (r, q, v)"
      using prod_cases3 by blast
    have "same_window u v"
      using v by (auto simp: dtls1_buffer_record_def Let_def split: if_splits prod.splits)
    then have "fresh_inv D (v\<lparr>dt_unprocessed := q\<rparr>)" "fresh_inv D (drop_packet (v\<lparr>dt_unprocessed := q\<rparr>))" "fresh_inv D (drop_packet u)"
      using fresh_inv_same [OF u] by simp_all
    then show ?thesis
      using h Some c 2 listen v by (auto simp: pass_fresh_def split: if_splits)
  next
    case 3
    then obtain ok t where t: "dtls1_process_record Current u = Some (ok, t)"
      using h Some c listen by (auto split: option.splits if_splits)
    have "rec_epoch (dt_rrec s) = ucast (dt_r_epoch s)"
      using Some 3(3) by (auto simp: dtls1_get_bitmap_def Let_def split: if_splits)
    then have "fresh_inv (if ok then rec_id (dt_rrec t) # D else D) t"
      using check_and_process [OF assms(1) _ _ t] c 3 by simp
    then show ?thesis
      using h Some c 3 listen t fresh_inv_same [of D t "drop_packet t"] by (auto simp: pass_fresh_def split: if_splits)
  qed
qed

lemma process_buffered_fresh:
  assumes "fresh_inv D s" "dtls1_process_buffered_records s = Some (ok, t)"
  shows "fresh_inv D t"
proof -
  have sync: "fresh_inv D (sync_epochs u)" if "fresh_inv D u" for u
    using that fresh_inv_same by fastforce
  then show ?thesis
    using assms process_records_fresh [of "dt_unprocessed s" s] by (auto simp: dtls1_process_buffered_records_def split: option.splits if_splits)
qed

lemma get_record_pass_fresh:
  assumes "fresh_inv D s" "get_record_pass s = Some p"
  shows "pass_fresh D p"
proof -
  obtain ok t where t: "dtls1_process_buffered_records s = Some (ok, t)"
    using assms(2) by (auto simp: get_record_pass_def split: option.splits)
  have inv: "fresh_inv D t"
    using process_buffered_fresh [OF assms(1) t] .
  note g = assms(2) [unfolded get_record_pass_def Let_def]
  show ?thesis
  proof (cases "ok \<and> dt_processed t = []")
    case True
    have self: "t\<lparr>dt_processed := []\<rparr> = t"
      using True by simp
    have "pass_fresh D (read_header t)"
      using pass_fresh_same [OF inv] pass_same_read_header [of t] inv by (simp add: fresh_inv_def)
    moreover have "pass_fresh D q" if "fresh_inv D u" "(case read_fragment u of Go s \<Rightarrow> handle_record s | p \<Rightarrow> Some p) = Some q" for u q
      using pass_fresh_same [OF that(1) pass_same_read_fragment] that(2) handle_record_fresh by (cases "read_fragment u") auto
    ultimately show ?thesis
      using g t True self by (cases "read_header t") (auto simp: dtls1_retrieve_buffered_record_def pqueue_pop_def)
  next
    case False
    then consider "\<not> ok" | i q where "ok" "dt_processed t = i # q"
      by (cases "dt_processed t") auto
    then show ?thesis
    proof cases
      case 1
      then show ?thesis
        using g t inv by (auto simp: pass_fresh_def)
    next
      case 2
      define u where "u = (dtls1_copy_record i t)\<lparr>dt_processed := q\<rparr>"
      have "fresh_inv (rec_id (dt_rrec u) # D) u"
      proof (rule fresh_inv_perm [OF inv])
        show "mset (processed_ids u @ rec_id (dt_rrec u) # D) \<subseteq># mset (processed_ids t @ D)"
          by (simp add: u_def processed_ids_def 2 dtls1_copy_record_def Let_def)
        show "same_window t (u\<lparr>dt_processed := dt_processed t\<rparr>)"
          using same_window_copy [of t i] by (simp add: u_def same_window_def)
      qed
      then show ?thesis
        using g t 2 by (auto simp: dtls1_retrieve_buffered_record_def pqueue_pop_def pass_fresh_def u_def)
    qed
  qed
qed

lemma get_record_fresh:
  assumes "dtls1_get_record s = Some (r, t)" "fresh_inv D s"
  shows "fresh_inv (if r = 1 then rec_id (dt_rrec t) # D else D) t"
proof -
  let ?P = "\<lambda>s (r, t). fresh_inv D s \<longrightarrow> fresh_inv (if r = 1 then rec_id (dt_rrec t) # D else D) t"
  have "?P s (r, t)"
  proof (rule dtls1_get_record.raw_induct [where P = ?P, OF _ assms(1)])
    fix f s y
    assume IH: "\<And>s y. f s = Some y \<Longrightarrow> ?P s y"
      and y: "(case get_record_pass s of None \<Rightarrow> None
        | Some p \<Rightarrow> (case p of Return r s \<Rightarrow> Some (r, s) | Again s \<Rightarrow> f s | Go s \<Rightarrow> None)) = Some y"
    obtain p where p: "get_record_pass s = Some p"
      using y by (cases "get_record_pass s") auto
    show "?P s y"
    proof (cases p)
      case (Again u)
      then show ?thesis
        using get_record_pass_fresh [OF _ p, of D] IH [of u y] y p by auto
    qed (use get_record_pass_fresh [OF _ p, of D] y p in auto)
  qed
  then show ?thesis
    using assms(2) by simp
qed

text \<open>
  The life of a connection: datagrams arrive, the record layer is asked for records, the layers above consume them, install
  keys and change the state of the handshake, and the epoch advances. \<open>D\<close> are the records that were delivered.
\<close>

definition dtls_start :: "dtls \<Rightarrow> bool" where
  "dtls_start s \<longleftrightarrow> \<not> dt_listen s \<and> enc_keeps_id (dt_cipher s) \<and> dt_read_sequence s = replicate 8 0 \<and> dt_processed s = [] \<and>
     dt_bitmap s = bitmap_empty \<and> dt_next_bitmap s = bitmap_empty"

inductive dtls_run :: "(u64 \<times> byte list) list \<Rightarrow> dtls \<Rightarrow> bool" where
  start: "dtls_start s \<Longrightarrow> dtls_run [] s"
| arrive: "dtls_run D s \<Longrightarrow> dtls_run D (s\<lparr>dt_net := dt_net s @ [d]\<rparr>)"
| deliver: "dtls_run D s \<Longrightarrow> dtls1_get_record s = Some (1, t) \<Longrightarrow> dtls_run (rec_id (dt_rrec t) # D) t"
| nothing: "dtls_run D s \<Longrightarrow> dtls1_get_record s = Some (r, t) \<Longrightarrow> r \<noteq> 1 \<Longrightarrow> dtls_run D t"
| above: "dtls_run D s \<Longrightarrow> enc_keeps_id c \<Longrightarrow>
    dtls_run D (s\<lparr>dt_rrec := rr, dt_cipher := c, dt_in_handshake := h, dt_first_packet := f, dt_version := v\<rparr>)"
| next_epoch: "dtls_run D s \<Longrightarrow> dt_r_epoch s \<noteq> 0xffff \<Longrightarrow> dtls_run D (dtls1_reset_seq_numbers True s)"

lemma in_window_next:
  assumes "in_window A e i" "e \<noteq> 0xffff"
  shows "in_window {} (e + 1) i"
proof -
  have "unat e \<noteq> 0xffff"
    using assms(2) unsigned_word_eqI [of e "0xffff", where 'a = nat] by auto
  then have e: "unat (e + 1) = unat e + 1"
    using unsigned_less [of e, where 'a = nat] by (simp add: unat_word_ariths)
  moreover have "fst i \<noteq> ucast (e + 1)"
  proof
    assume "fst i = ucast (e + 1)"
    then have "unat (fst i) = unat (e + 1)"
      using unsigned_less [of "e + 1", where 'a = nat] by (simp add: unsigned_ucast_eq take_bit_nat_eq_self)
    then show False
      using e assms(1) by (simp add: in_window_def)
  qed
  ultimately show ?thesis
    using assms(1) by (simp add: in_window_def)
qed

lemma fresh_next_epoch:
  assumes "fresh_inv D s" "dt_r_epoch s \<noteq> 0xffff"
  shows "fresh_inv D (dtls1_reset_seq_numbers True s)"
proof -
  obtain A where "list_all (in_window A (dt_r_epoch s)) (processed_ids s @ D)"
    using assms(1) by (auto simp: fresh_inv_def)
  then have "list_all (in_window {} (dt_r_epoch s + 1)) (processed_ids s @ D)"
    using in_window_next [OF _ assms(2)] by (auto simp: list_all_iff)
  then show ?thesis
    using assms(1) bm_repr_empty by (auto simp: fresh_inv_def dtls1_reset_seq_numbers_def processed_ids_def)
qed

lemma dtls_run_fresh: "dtls_run D s \<Longrightarrow> fresh_inv D s"
proof (induction rule: dtls_run.induct)
  case (start s)
  then show ?case
    using bm_repr_empty by (auto simp: fresh_inv_def dtls_start_def processed_ids_def)
next
  case (deliver D s t)
  then show ?case
    using get_record_fresh by fastforce
next
  case (nothing D s r t)
  then show ?case
    using get_record_fresh by fastforce
next
  case (next_epoch D s)
  then show ?case
    using fresh_next_epoch by blast
qed (auto simp: fresh_inv_def processed_ids_def)


section \<open>Whole records\<close>

lemma sync_epochs_idem: "sync_epochs (sync_epochs s) = sync_epochs s"
  by (simp add: sync_epochs_def)

lemma read_fragment_whole:
  assumes "dt_packet_length s = 13" "length (dt_packet s) = 13" "unat (rec_length (dt_rrec s)) = n" "n \<le> length (dt_left s)"
  shows "read_fragment s =
    Go (s\<lparr>dt_packet := dt_packet s @ take n (dt_left s), dt_packet_length := 13 + n, dt_left := drop n (dt_left s), dt_read_body := False\<rparr>)"
proof (cases "n = 0")
  case True
  then show ?thesis
    using assms by (simp add: read_fragment_def DTLS1_RT_HEADER_LENGTH_def)
next
  case False
  then have "ssl3_read_n n True s = (int n, add_to_packet (take n (dt_left s)) (s\<lparr>dt_left := drop n (dt_left s)\<rparr>))"
    using assms(4) by (auto simp: ssl3_read_n_def Let_def)
  then show ?thesis
    using assms False by (simp add: read_fragment_def DTLS1_RT_HEADER_LENGTH_def Let_def add_to_packet_def)
qed

text \<open>The state in which the first record of the datagram \<open>d\<close> has been read.\<close>

definition record_read :: "byte list \<Rightarrow> byte list list \<Rightarrow> dtls \<Rightarrow> dtls" where
  "record_read d ds s =
     (let n = 13 + be_nat [d ! 11, d ! 12]
      in (with_header d ((sync_epochs s)\<lparr>dt_net := ds\<rparr>))\<lparr>dt_packet := take n d, dt_packet_length := n, dt_left := drop n d, dt_read_body := False\<rparr>)"


section \<open>Termination\<close>

text \<open>The bytes of a datagram are a sequence of whole records, with fewer than thirteen bytes after them.\<close>

fun untruncated :: "byte list \<Rightarrow> bool" where
  "untruncated xs = (if length xs < 13 then True else 13 + be_nat [xs ! 11, xs ! 12] \<le> length xs \<and> untruncated (drop (13 + be_nat [xs ! 11, xs ! 12]) xs))"

declare untruncated.simps [simp del]

text \<open>No assertion of the check of the MAC fails.\<close>

definition mac_total :: "read_cipher \<Rightarrow> bool" where
  "mac_total c \<longleftrightarrow> (\<forall>s e rr. dt_cipher s = c \<longrightarrow> check_mac s e rr \<noteq> None)"

definition queue_ok :: "dtls1_record_data pqueue \<Rightarrow> bool" where
  "queue_ok q = list_all (\<lambda>i. untruncated (rd_left (pi_data i))) q"

definition queue_bytes :: "dtls1_record_data pqueue \<Rightarrow> nat" where
  "queue_bytes q = (\<Sum>i\<leftarrow>q. length (rd_left (pi_data i)))"

definition net_ok :: "dtls \<Rightarrow> bool" where
  "net_ok s \<longleftrightarrow> list_all (\<lambda>d. length d \<le> rbuf_room \<and> untruncated d) (dt_net s) \<and> queue_ok (dt_unprocessed s) \<and> queue_ok (dt_processed s) \<and>
     length (dt_read_sequence s) = 8 \<and> mac_total (dt_cipher s)"

definition in_body :: "dtls \<Rightarrow> bool" where
  "in_body s \<longleftrightarrow> dt_read_body s \<and> 13 \<le> dt_packet_length s"

definition left_ok :: "dtls \<Rightarrow> bool" where
  "left_ok s \<longleftrightarrow>
     (if in_body s then dt_packet_length s = 13 \<and> length (dt_packet s) = 13 \<and> unat (rec_length (dt_rrec s)) \<le> length (dt_left s) \<and>
        untruncated (drop (unat (rec_length (dt_rrec s))) (dt_left s))
      else untruncated (dt_left s))"

definition all_bytes :: "dtls \<Rightarrow> nat" where
  "all_bytes s = length (dt_left s) + (\<Sum>d\<leftarrow>dt_net s. length d + 1) + queue_bytes (dt_unprocessed s) + queue_bytes (dt_processed s)"

definition todo :: "dtls \<Rightarrow> nat" where
  "todo s = 2 * all_bytes s + of_bool (dt_read_body s)"

lemma untruncated_Nil: "untruncated []"
  by (simp add: untruncated.simps)

text \<open>The part of the state on which this depends.\<close>

definition same_bytes :: "dtls \<Rightarrow> dtls \<Rightarrow> bool" where
  "same_bytes s t \<longleftrightarrow> dt_left t = dt_left s \<and> dt_net t = dt_net s \<and> dt_unprocessed t = dt_unprocessed s \<and> dt_processed t = dt_processed s \<and>
     dt_cipher t = dt_cipher s \<and> dt_read_body t = dt_read_body s \<and> dt_read_sequence t = dt_read_sequence s"

lemma same_bytes_simps [simp]:
  "same_bytes s (t\<lparr>dt_rrec := rr\<rparr>) = same_bytes s t"
  "same_bytes s (t\<lparr>dt_packet_length := n\<rparr>) = same_bytes s t"
  "same_bytes s (drop_packet t) = same_bytes s t"
  "same_bytes s (fatal_alert al t) = same_bytes s t"
  "same_bytes s (set_bitmap_at b bm t) = same_bytes s t"
  "same_bytes s (sync_epochs t) = same_bytes s t"
  "same_bytes s s"
  by (auto simp: same_bytes_def drop_packet_def fatal_alert_def set_bitmap_at_def sync_epochs_def split: bitmap_of.split)

lemma same_bytesD: "same_bytes s t \<Longrightarrow> net_ok s \<Longrightarrow> net_ok t \<and> all_bytes t = all_bytes s \<and> dt_read_body t = dt_read_body s"
  by (simp add: same_bytes_def net_ok_def all_bytes_def)

lemma process_record_bytes:
  assumes "mac_total (dt_cipher s)"
  shows "\<exists>ok t. dtls1_process_record b s = Some (ok, t) \<and> same_bytes s t \<and> (ok \<longrightarrow> dt_packet_length t = 0)"
proof -
  define rr where "rr = (dt_rrec s)\<lparr>rec_input := drop DTLS1_RT_HEADER_LENGTH (dt_packet s)\<rparr>"
  obtain e rr1 where e: "rc_enc (dt_cipher s) (dt_read_sequence s) (rr\<lparr>rec_data := rec_input rr\<rparr>) = (e, rr1)"
    by fastforce
  have "dt_cipher (s\<lparr>dt_rrec := rr1\<rparr>) = dt_cipher s"
    by simp
  then obtain m where m: "check_mac (s\<lparr>dt_rrec := rr1\<rparr>) e rr1 = Some m"
    using assms unfolding mac_total_def by blast
  have pl: "dt_packet_length (set_bitmap_at c bm (t\<lparr>dt_packet_length := 0\<rparr>)) = 0" for c bm t
    by (simp add: set_bitmap_at_def split: bitmap_of.split)
  show ?thesis
    unfolding dtls1_process_record_def Let_def rr_def [symmetric]
    by (cases m) (auto simp: e m pl split: prod.splits)
qed

lemma replay_check_bytes: "dtls1_record_replay_check b s = (ok, t) \<Longrightarrow> same_bytes s t \<and> dt_packet_length t = dt_packet_length s"
  by (auto simp: dtls1_record_replay_check_def split: if_splits)

text \<open>Buffering a record moves the bytes that are left to the queue.\<close>

lemma insert_loop_bytes:
  assumes "queue_ok q" "untruncated (rd_left (pi_data i))"
  shows "queue_ok (snd (insert_loop i q)) \<and> queue_bytes (snd (insert_loop i q)) \<le> queue_bytes q + length (rd_left (pi_data i))"
proof -
  have "if fst (insert_loop i q) then mset (snd (insert_loop i q)) = add_mset i (mset q) else snd (insert_loop i q) = q"
    using insert_loop_mset [of i q] by (cases "insert_loop i q") auto
  moreover have "set (snd (insert_loop i q)) = insert i (set q)" "queue_bytes (snd (insert_loop i q)) = length (rd_left (pi_data i)) + queue_bytes q"
    if "mset (snd (insert_loop i q)) = add_mset i (mset q)"
    using that mset_eq_setD [of "snd (insert_loop i q)" "i # q"] by (simp_all add: queue_bytes_def sum_mset_sum_list [symmetric])
  ultimately show ?thesis
    using assms by (auto simp: queue_ok_def list_all_iff split: if_splits)
qed

lemma buffer_record_bytes:
  assumes "dtls1_buffer_record q prio s = (r, q', t)" "queue_ok q" "untruncated (dt_left s)"
  shows "queue_ok q' \<and> untruncated (dt_left t) \<and> length (dt_left t) + queue_bytes q' \<le> length (dt_left s) + queue_bytes q \<and>
    same_bytes (s\<lparr>dt_left := dt_left t\<rparr>) t \<and> (dt_packet_length s = 0 \<longrightarrow> dt_packet_length t = 0)"
proof -
  define i where "i = \<lparr>priority = prio, pi_data = \<lparr>rd_packet = dt_packet s, rd_packet_length = dt_packet_length s, rd_left = dt_left s, rd_rrec = dt_rrec s\<rparr>\<rparr>"
  show ?thesis
    using assms insert_loop_bytes [OF assms(2), of i] untruncated_Nil unfolding dtls1_buffer_record_def pqueue_insert_eq i_def [symmetric]
    by (auto simp: Let_def same_bytes_def i_def split: if_splits prod.splits)
qed

text \<open>What the loop over the buffered records leaves, from at most \<open>n\<close> bytes.\<close>

definition drained :: "nat \<Rightarrow> bool \<Rightarrow> (bool \<times> dtls) option \<Rightarrow> bool" where
  "drained n body r =
     (case r of
        None \<Rightarrow> False
      | Some (ok, t) \<Rightarrow> ok \<longrightarrow> net_ok t \<and> untruncated (dt_left t) \<and> dt_read_body t = body \<and> dt_packet_length t = 0 \<and> all_bytes t \<le> n)"

lemma drained_False: "drained n body (Some (False, t))"
  by (auto simp: drained_def)

lemma drained_mono: "drained m body r \<Longrightarrow> m \<le> n \<Longrightarrow> drained n body r"
  by (auto simp: drained_def split: option.splits)

lemma process_records_bytes:
  assumes "net_ok s" "queue_ok q" "untruncated (dt_left s)" "q = [] \<longrightarrow> dt_packet_length s = 0"
  shows "drained (all_bytes (s\<lparr>dt_unprocessed := q\<rparr>)) (dt_read_body s) (process_records q s)"
  using assms
proof (induction q arbitrary: s)
  case Nil
  then show ?case
    by (auto simp: net_ok_def drained_def)
next
  case (Cons item q)
  let ?n = "all_bytes (s\<lparr>dt_unprocessed := item # q\<rparr>)"
  define u where "u = dtls1_copy_record item (s\<lparr>dt_unprocessed := q\<rparr>)"
  have u: "net_ok u" "untruncated (dt_left u)" "dt_read_body u = dt_read_body s" "dt_unprocessed u = q" "all_bytes u \<le> ?n"
    using Cons.prems by (auto simp: u_def dtls1_copy_record_def Let_def net_ok_def queue_ok_def length_put_at all_bytes_def queue_bytes_def)
  have q: "queue_ok q"
    using Cons.prems(2) by (simp add: queue_ok_def)
  have IH: "drained ?n (dt_read_body s) (process_records q w)"
    if "net_ok w" "untruncated (dt_left w)" "dt_packet_length w = 0" "dt_read_body w = dt_read_body u" "dt_unprocessed w = q" "all_bytes w \<le> all_bytes u" for w
  proof -
    have "w\<lparr>dt_unprocessed := q\<rparr> = w"
      using that(5) by simp
    then show ?thesis
      using Cons.IH [OF that(1) q that(2)] that(3,4) u(3) drained_mono [OF _ le_trans [OF that(6) u(5)]] by simp
  qed
  have dropped: "drained ?n (dt_read_body s) (process_records q (drop_packet w))" if "same_bytes u w" for w
    using that same_bytesD [of u "drop_packet w"] u by (intro IH) (auto simp: same_bytes_def drop_packet_def)
  show ?case
  proof (cases "dtls1_get_bitmap u")
    case (Some b)
    obtain c v where c: "dtls1_record_replay_check b u = (c, v)"
      by fastforce
    have v: "same_bytes u v"
      using replay_check_bytes [OF c] by blast
    obtain ok w where w: "dtls1_process_record b v = Some (ok, w)" "same_bytes v w" "ok \<longrightarrow> dt_packet_length w = 0"
      using process_record_bytes [of v b] same_bytesD [OF v u(1)] by (auto simp: net_ok_def)
    then have uw: "same_bytes u w"
      using v by (simp add: same_bytes_def)
    obtain r q' x where x: "dtls1_buffer_record (dt_processed w) (rec_seq_num (dt_rrec w)) w = (r, q', x)"
      using prod_cases3 by blast
    have "net_ok w" "untruncated (dt_left w)"
      using same_bytesD [OF uw u(1)] u(2) uw by (auto simp: same_bytes_def)
    then have "net_ok (x\<lparr>dt_processed := q'\<rparr>)" "untruncated (dt_left x)" "dt_packet_length w = 0 \<longrightarrow> dt_packet_length x = 0" "dt_read_body x = dt_read_body u"
      "dt_unprocessed x = q" "all_bytes (x\<lparr>dt_processed := q'\<rparr>) \<le> all_bytes u"
      using buffer_record_bytes [OF x] uw u(4) by (auto simp: net_ok_def same_bytes_def all_bytes_def)
    then show ?thesis
      using dropped [OF v] dropped [OF uw] IH [of "x\<lparr>dt_processed := q'\<rparr>"] w(1,3) Some c x drained_False by (simp add: u_def [symmetric] Let_def)
  qed (simp add: u_def [symmetric] drained_False)
qed

lemma handle_record_bytes:
  assumes "net_ok s" "untruncated (dt_left s)" "\<not> dt_read_body s"
  shows "(\<exists>r t. handle_record s = Some (Return r t)) \<or>
    (\<exists>t. handle_record s = Some (Again t) \<and> net_ok t \<and> untruncated (dt_left t) \<and> \<not> dt_read_body t \<and> all_bytes t \<le> all_bytes s)"
proof (cases "dtls1_get_bitmap s")
  case None
  then show ?thesis
    using assms by (simp add: handle_record_def)
next
  case (Some b)
  define hello where "hello \<longleftrightarrow> dt_listen s \<and> rec_type (dt_rrec s) = 22 \<and> DTLS1_RT_HEADER_LENGTH < dt_packet_length s \<and>
    dt_packet s ! DTLS1_RT_HEADER_LENGTH = 1"
  obtain c u where c: "(if hello then (True, s) else dtls1_record_replay_check b s) = (c, u)"
    by fastforce
  note h = handle_record_def [of s, unfolded Let_def Some option.case hello_def [symmetric] c prod.case]
  have u: "same_bytes s u"
    using c replay_check_bytes [of b s c u] by (auto split: if_splits)
  have again: "net_ok t \<and> untruncated (dt_left t) \<and> \<not> dt_read_body t \<and> all_bytes t \<le> all_bytes s" if "same_bytes s t" for t
    using same_bytesD [OF that assms(1)] assms(2,3) that by (auto simp: same_bytes_def)
  obtain r q v where v: "dtls1_buffer_record (dt_unprocessed u) (rec_seq_num (dt_rrec u)) u = (r, q, v)"
    using prod_cases3 by blast
  have "net_ok (drop_packet (v\<lparr>dt_unprocessed := q\<rparr>))" "untruncated (dt_left (drop_packet (v\<lparr>dt_unprocessed := q\<rparr>)))"
    "\<not> dt_read_body (drop_packet (v\<lparr>dt_unprocessed := q\<rparr>))" "all_bytes (drop_packet (v\<lparr>dt_unprocessed := q\<rparr>)) \<le> all_bytes s"
    using buffer_record_bytes [OF v] again [OF u] u by (auto simp: net_ok_def same_bytes_def all_bytes_def drop_packet_def)
  moreover obtain ok w where w: "dtls1_process_record b u = Some (ok, w)" "same_bytes u w"
    using process_record_bytes [of u b] again [OF u] by (auto simp: net_ok_def)
  moreover have "same_bytes s (drop_packet w)" "same_bytes s (drop_packet u)"
    using u w(2) by (auto simp: same_bytes_def drop_packet_def)
  ultimately show ?thesis
    unfolding h using again [of u] again [of "drop_packet w"] again [of "drop_packet u"] u v by auto
qed

lemma untruncated_whole: "untruncated xs \<Longrightarrow> 13 \<le> length xs \<Longrightarrow>
    13 + be_nat [xs ! 11, xs ! 12] \<le> length xs \<and> untruncated (drop (13 + be_nat [xs ! 11, xs ! 12]) xs)"
  using untruncated.simps [of xs] by simp

text \<open>Reading a header from the bytes \<open>xs\<close>, which are left in the buffer or make up a datagram.\<close>

lemma header_from:
  assumes "ssl3_read_n 13 False s = (int (min 13 (length xs)), t)" "\<not> in_body s" "net_ok s" "untruncated xs" "xs \<noteq> []"
    and t: "t = s\<lparr>dt_packet := take 13 xs, dt_packet_length := min 13 (length xs), dt_net := ns, dt_left := drop 13 xs\<rparr>"
    and "set ns \<subseteq> set (dt_net s)" "length (drop 13 xs) + (\<Sum>d\<leftarrow>ns. length d + 1) < length (dt_left s) + (\<Sum>d\<leftarrow>dt_net s. length d + 1)"
  shows "\<exists>u. net_ok u \<and> left_ok u \<and> todo u < todo s \<and> (read_header s = Again u \<or> read_header s = Go u \<and> in_body u)"
proof -
  have net: "net_ok t" "all_bytes t < all_bytes s"
    using assms(3,7,8) by (auto simp: t net_ok_def all_bytes_def list_all_iff)
  have body: "\<not> (dt_read_body s \<and> \<not> dt_packet_length s < DTLS1_RT_HEADER_LENGTH)"
    using assms(2) by (auto simp: in_body_def DTLS1_RT_HEADER_LENGTH_def)
  show ?thesis
  proof (cases "length xs < 13")
    case True
    then have "read_header s = Again t"
      using body assms(1,5) by (auto simp: read_header_def DTLS1_RT_HEADER_LENGTH_def t)
    moreover have "left_ok t" "todo t < todo s"
      using True untruncated_Nil net(2) by (auto simp: left_ok_def in_body_def t todo_def)
    ultimately show ?thesis
      using net(1) by blast
  next
    case False
    define u where "u = t\<lparr>dt_read_body := True\<rparr>"
    define v where "v = with_header (dt_packet u) u"
    have "read_header s = parse_header u"
      using body assms(1) False by (auto simp: read_header_def DTLS1_RT_HEADER_LENGTH_def t u_def min_def)
    moreover have "parse_header u = Go v \<or> parse_header u = Again v"
      using parse_header_eq [of u] False assms(3) unfolding v_def Let_def by (auto simp: u_def t net_ok_def)
    moreover have "unat (rec_length (dt_rrec v)) = be_nat [xs ! 11, xs ! 12]"
      using unat_ucast_u16 [of "u16_of (xs ! 11) (xs ! 12)"] unat_u16_of [of "xs ! 11" "xs ! 12"] by (simp add: be_nat_Cons v_def u_def t with_header_def)
    then have "left_ok v" "in_body v"
      using untruncated_whole [OF assms(4)] False by (auto simp: left_ok_def in_body_def v_def u_def t with_header_def add.commute)
    moreover have "net_ok v" "todo v < todo s"
      using net False by (auto simp: net_ok_def v_def u_def with_header_def t todo_def all_bytes_def)
    ultimately show ?thesis
      by auto
  qed
qed

lemma read_header_progress:
  assumes "net_ok s" "left_ok s"
  shows "(\<exists>r t. read_header s = Return r t) \<or>
    (\<exists>t. net_ok t \<and> left_ok t \<and> (read_header s = Again t \<and> todo t < todo s \<or> read_header s = Go t \<and> in_body t \<and> todo t \<le> todo s))"
proof (cases "in_body s")
  case True
  then have "read_header s = Go s"
    by (simp add: in_body_def read_header_def DTLS1_RT_HEADER_LENGTH_def)
  then show ?thesis
    using assms True by auto
next
  case False
  have left: "untruncated (dt_left s)"
    using assms(2) False by (simp add: left_ok_def)
  have body: "\<not> (dt_read_body s \<and> \<not> dt_packet_length s < DTLS1_RT_HEADER_LENGTH)"
    using False by (auto simp: in_body_def DTLS1_RT_HEADER_LENGTH_def)
  consider "dt_left s \<noteq> []" | "dt_left s = []" "dt_net s = []" | d ds where "dt_left s = []" "dt_net s = d # ds"
    by (cases "dt_net s") auto
  then show ?thesis
  proof cases
    case 1
    have "\<exists>u. net_ok u \<and> left_ok u \<and> todo u < todo s \<and> (read_header s = Again u \<or> read_header s = Go u \<and> in_body u)"
      using 1 by (intro header_from [OF _ False assms(1) left 1 refl, of "dt_net s"]) (auto simp: ssl3_read_n_def Let_def add_to_packet_def min_def)
    then show ?thesis
      by auto
  next
    case 2
    then have "fst (ssl3_read_n 13 False s) = - 1"
      by (simp add: ssl3_read_n_def Let_def)
    then show ?thesis
      using body by (cases "ssl3_read_n 13 False s") (auto simp: read_header_def DTLS1_RT_HEADER_LENGTH_def)
  next
    case 3
    then have d: "length d \<le> rbuf_room" "untruncated d"
      using assms(1) by (simp_all add: net_ok_def)
    show ?thesis
    proof (cases "d = []")
      case True
      then have "fst (ssl3_read_n 13 False s) = 0"
        using 3 by (simp add: ssl3_read_n_def Let_def)
      then show ?thesis
        using body by (cases "ssl3_read_n 13 False s") (auto simp: read_header_def DTLS1_RT_HEADER_LENGTH_def)
    next
      case ne: False
      have "\<exists>u. net_ok u \<and> left_ok u \<and> todo u < todo s \<and> (read_header s = Again u \<or> read_header s = Go u \<and> in_body u)"
        using 3 d ne by (intro header_from [OF _ False assms(1) d(2) ne refl, of ds]) (auto simp: ssl3_read_n_def Let_def add_to_packet_def min_def)
      then show ?thesis
        by auto
    qed
  qed
qed

text \<open>Every pass returns or leaves less to do.\<close>

lemma read_record_progress:
  assumes "net_ok s" "left_ok s"
  defines "r \<equiv> (case read_header s of Go s \<Rightarrow> (case read_fragment s of Go s \<Rightarrow> handle_record s | p \<Rightarrow> Some p) | p \<Rightarrow> Some p)"
  shows "(\<exists>n t. r = Some (Return n t)) \<or> (\<exists>t. r = Some (Again t) \<and> net_ok t \<and> left_ok t \<and> todo t < todo s)"
  using read_header_progress [OF assms(1,2)]
proof (elim disjE exE conjE)
  fix t
  assume t: "net_ok t" "left_ok t" "read_header s = Go t" "in_body t" "todo t \<le> todo s"
  let ?n = "unat (rec_length (dt_rrec t))"
  define u where "u = t\<lparr>dt_packet := dt_packet t @ take ?n (dt_left t), dt_packet_length := 13 + ?n, dt_left := drop ?n (dt_left t), dt_read_body := False\<rparr>"
  have "read_fragment t = Go u"
    unfolding u_def using t(2,4) by (intro read_fragment_whole) (simp_all add: left_ok_def)
  moreover have u: "net_ok u" "untruncated (dt_left u)" "\<not> dt_read_body u" "2 * all_bytes u < todo t"
    using t(1,2,4) by (auto simp: u_def net_ok_def left_ok_def in_body_def todo_def all_bytes_def)
  moreover have "left_ok w" "todo w < todo s" if "untruncated (dt_left w)" "\<not> dt_read_body w" "all_bytes w \<le> all_bytes u" for w
    using that t(5) u(4) by (auto simp: left_ok_def in_body_def todo_def)
  ultimately show ?thesis
    using handle_record_bytes [OF u(1-3)] t(3) by (auto simp: r_def)
qed (auto simp: r_def)

lemma process_buffered_progress:
  assumes "net_ok s" "left_ok s"
  shows "\<exists>ok t. dtls1_process_buffered_records s = Some (ok, t) \<and> (ok \<longrightarrow> net_ok t \<and> left_ok t \<and> todo t \<le> todo s)"
proof -
  have sync: "net_ok (sync_epochs t) = net_ok t" "left_ok (sync_epochs t) = left_ok t" "todo (sync_epochs t) = todo t" for t
    by (simp_all add: sync_epochs_def net_ok_def left_ok_def in_body_def todo_def all_bytes_def)
  show ?thesis
  proof (cases "dt_unprocessed s = [] \<or> dt_unprocessed_epoch s \<noteq> dt_r_epoch s \<or> dt_left s \<noteq> []")
    case True
    then show ?thesis
      using assms sync [of s] by (auto simp: dtls1_process_buffered_records_def pqueue_peek_def split: list.split)
  next
    case False
    then have "drained (all_bytes (s\<lparr>dt_unprocessed := dt_unprocessed s\<rparr>)) (dt_read_body s) (process_records (dt_unprocessed s) s)"
      using assms(1) untruncated_Nil by (intro process_records_bytes) (auto simp: net_ok_def)
    then obtain ok t where t: "process_records (dt_unprocessed s) s = Some (ok, t)"
      "ok \<longrightarrow> net_ok t \<and> untruncated (dt_left t) \<and> dt_read_body t = dt_read_body s \<and> dt_packet_length t = 0 \<and> all_bytes t \<le> all_bytes s"
      by (auto simp: drained_def split: option.splits)
    have "ok \<longrightarrow> net_ok t \<and> left_ok t \<and> todo t \<le> todo s"
      using t(2) by (auto simp: left_ok_def in_body_def todo_def)
    then show ?thesis
      using False t(1) sync [of t] by (auto simp: dtls1_process_buffered_records_def pqueue_peek_def split: list.split)
  qed
qed

lemma get_record_pass_progress:
  assumes "net_ok s" "left_ok s"
  shows "(\<exists>n t. get_record_pass s = Some (Return n t)) \<or> (\<exists>t. get_record_pass s = Some (Again t) \<and> net_ok t \<and> left_ok t \<and> todo t < todo s)"
proof -
  obtain ok u where u: "dtls1_process_buffered_records s = Some (ok, u)" "ok \<longrightarrow> net_ok u \<and> left_ok u \<and> todo u \<le> todo s"
    using process_buffered_progress [OF assms] by blast
  show ?thesis
  proof (cases "ok \<and> dt_processed u = []")
    case True
    then have self: "u\<lparr>dt_processed := []\<rparr> = u"
      by simp
    have "get_record_pass s = (case read_header u of Go s \<Rightarrow> (case read_fragment s of Go s \<Rightarrow> handle_record s | p \<Rightarrow> Some p) | p \<Rightarrow> Some p)"
      using u(1) True by (simp add: get_record_pass_def dtls1_retrieve_buffered_record_def pqueue_pop_def self)
    then show ?thesis
      using read_record_progress [of u] u(2) True by fastforce
  next
    case False
    then show ?thesis
      using u(1) by (auto simp: get_record_pass_def dtls1_retrieve_buffered_record_def pqueue_pop_def split: list.split)
  qed
qed


section \<open>A connection before the handshake\<close>

text \<open>The null cipher, which the epoch zero has, leaves the record as it is.\<close>

definition null_cipher :: read_cipher where
  "null_cipher = \<lparr>rc_enc = \<lambda>seq rr. (1, rr), rc_mac = None\<rparr>"

definition dtls_client :: dtls where
  "dtls_client = \<lparr>dt_net = [], dt_left = [], dt_packet = [], dt_packet_length = 0, dt_read_body = False, dt_rrec = empty_record,
     dt_read_sequence = replicate 8 0, dt_write_sequence = replicate 8 0, dt_last_write_sequence = replicate 8 0, dt_r_epoch = 0, dt_w_epoch = 0,
     dt_bitmap = bitmap_empty, dt_next_bitmap = bitmap_empty, dt_unprocessed = [], dt_unprocessed_epoch = 0, dt_processed = [], dt_processed_epoch = 0,
     dt_buffered_messages = [], dt_listen = False, dt_in_handshake = True, dt_first_packet = False, dt_version = 0xfefd, dt_cipher = null_cipher,
     dt_alerts = []\<rparr>"

text \<open>A handshake record of version \<open>v\<close>, epoch zero and number \<open>n\<close> with the body \<open>xs\<close>.\<close>

definition hs_record :: "byte \<Rightarrow> byte \<Rightarrow> byte list \<Rightarrow> byte list" where
  "hs_record v n xs = [22, v, 0xfd, 0, 0, 0, 0, 0, 0, 0, n, 0, of_nat (length xs)] @ xs"

text \<open>A record of the epoch one with the number zero, and the item of the queue in which it waits.\<close>

definition early_record :: dtls1_record where
  "early_record = empty_record\<lparr>rec_type := 22, rec_length := 1, rec_epoch := 1\<rparr>"

definition early_item :: "dtls1_record_data pitem" where
  "early_item = \<lparr>priority = replicate 8 0,
     pi_data = \<lparr>rd_packet = hs_record 0xfe 0 [20], rd_packet_length = 14, rd_left = [], rd_rrec = early_record\<rparr>\<rparr>"

lemma enc_keeps_id_null: "enc_keeps_id null_cipher"
  by (simp add: enc_keeps_id_def null_cipher_def)

lemma mac_total_null: "mac_total null_cipher"
  by (simp add: mac_total_def null_cipher_def check_mac_def)

lemmas eval_record = get_record_pass_def dtls1_process_buffered_records_def pqueue_peek_def dtls1_retrieve_buffered_record_def pqueue_pop_def sync_epochs_def
  read_header_def ssl3_read_n_def add_to_packet_def parse_header_eq with_header_def good_version_def u16_of_def shift_in_def read_fragment_def handle_record_def
  dtls1_get_bitmap_def dtls1_record_replay_check_def bitmap_at_def set_bitmap_at_def dtls1_process_record_def check_mac_def DTLS1_RT_HEADER_LENGTH_def
  rbuf_room_def SSL3_RT_MAX_ENCRYPTED_LENGTH_def


section \<open>Properties\<close>

text \<open>
  C2. Through any sequence of arriving datagrams, calls of \<^verbatim>\<open>dtls1_get_record\<close>, changes of keys and of the handshake, and changes of the read
  epoch short of a wrap-around, no record (epoch and sequence number) is delivered twice: neither replays in the window nor copies
  of records that were buffered for the next epoch get through. The decryption is any function that leaves the epoch and the number alone.
\<close>

theorem dtls_no_replay:
  assumes "dtls_run D s"
  shows "distinct D"
  using dtls_run_fresh [OF assms] by (simp add: fresh_inv_def)

text \<open>A record that arrives twice is delivered.\<close>

theorem dtls_no_replay_witness: "\<exists>D s. dtls_run D s \<and> D = [(0, [0, 0, 0, 0, 0, 0, 0, 5])] \<and> distinct D"
proof -
  define s where "s = dtls_client\<lparr>dt_net := [hs_record 0xfe 5 [14], hs_record 0xfe 5 [14]]\<rparr>"
  have "replay_ok [0, 0, 0, 0, 0, 0, 0, 5] bitmap_empty" "replicate 8 0 = [0, 0, 0, 0, 0, 0, 0, 0 :: byte]"
    by code_simp+
  then have "\<exists>t. dtls1_get_record s = Some (1, t) \<and> rec_id (dt_rrec t) = (0, [0, 0, 0, 0, 0, 0, 0, 5])"
    unfolding s_def by (subst dtls1_get_record.simps) (simp add: eval_record dtls_client_def hs_record_def null_cipher_def rec_id_def Let_def)
  then obtain t where t: "dtls1_get_record s = Some (1, t)" "rec_id (dt_rrec t) = (0, [0, 0, 0, 0, 0, 0, 0, 5])"
    by blast
  have "dtls_run [] s"
    using enc_keeps_id_null by (intro dtls_run.start) (simp add: s_def dtls_start_def dtls_client_def)
  then have "dtls_run [(0, [0, 0, 0, 0, 0, 0, 0, 5])] t"
    using dtls_run.deliver [OF _ t(1)] t(2) by fastforce
  then show ?thesis
    using dtls_no_replay by blast
qed

text \<open>
  C38. A datagram that breaks off inside its first record, even one that ends after the header, makes \<^verbatim>\<open>dtls1_get_record\<close> run forever when no
  records are buffered: the jump back to the label \<^verbatim>\<open>again\<close> keeps the state and the length of the partial packet, so that every pass asks for
  the body again and gets nothing. The version, the epoch and the number in the header play no part.
\<close>

theorem get_record_truncated:
  assumes "dt_unprocessed s = []" "dt_processed s = []" "dt_left s = []" "\<not> dt_read_body s" "length (dt_read_sequence s) = 8"
    and "dt_net s = d # ds" "13 \<le> length d" "length d \<le> rbuf_room" "length d - 13 < be_nat [d ! 11, d ! 12]"
  shows "dtls1_get_record s = None"
proof -
  define s1 where "s1 = (sync_epochs s)\<lparr>dt_net := ds, dt_left := drop 13 d, dt_packet := take 13 d, dt_packet_length := 13, dt_read_body := True\<rparr>"
  define s2 where "s2 = with_header (take 13 d) s1"
  have rh: "read_header (sync_epochs s) = parse_header s1"
    unfolding s1_def using assms(3,4,6-8) by (intro read_header_datagram) (simp_all add: sync_epochs_def)
  have ph: "parse_header s1 = Go s2 \<or> parse_header s1 = Again s2"
    using parse_header_eq [of s1] assms(5,7) by (auto simp: s1_def s2_def sync_epochs_def Let_def)
  have "unat (ucast (u16_of (d ! 11) (d ! 12)) :: u32) = be_nat [d ! 11, d ! 12]"
    using unat_ucast_u16 [of "u16_of (d ! 11) (d ! 12)"] unat_u16_of [of "d ! 11" "d ! 12"] by (simp add: be_nat_Cons)
  then have st: "stuck s2"
    using assms(1,2,7,9) by (simp add: stuck_def s2_def s1_def with_header_def sync_epochs_def)
  have "\<exists>s'. get_record_pass s = Some (Again s') \<and> stuck s'"
    using no_buffered_records [OF assms(1,2)] rh ph read_fragment_stuck [OF st] st by auto
  then obtain s' where "get_record_pass s = Some (Again s')" "stuck s'"
    by blast
  then show ?thesis
    using stuck_never_returns [of s'] by (subst dtls1_get_record.simps) simp
qed

theorem get_record_truncated_witness: "dtls1_get_record (dtls_client\<lparr>dt_net := [take 13 (hs_record 0xfe 5 [14])]\<rparr>) = None"
  by (rule get_record_truncated [where d = "take 13 (hs_record 0xfe 5 [14])" and ds = "[]"]) (simp_all add: dtls_client_def hs_record_def rbuf_room_def DTLS1_RT_HEADER_LENGTH_def
      SSL3_RT_MAX_ENCRYPTED_LENGTH_def be_nat_Cons)

text \<open>
  C39. If no records are buffered and a datagram starts with a whole record, \<^verbatim>\<open>dtls1_get_record\<close> reads exactly this record and goes on with the
  selection of the bitmap, the check for a replay and the decryption; the rest of the datagram stays in the buffer. This holds for
  every version in the header: a record of a wrong version, which the comments want to be discarded, is handled as any other.
\<close>

theorem get_record_datagram:
  assumes "dt_unprocessed s = []" "dt_processed s = []" "dt_left s = []" "\<not> dt_read_body s" "length (dt_read_sequence s) = 8"
    and "dt_net s = d # ds" "length d \<le> rbuf_room" "13 + be_nat [d ! 11, d ! 12] \<le> length d"
  shows "dtls1_get_record s =
    (case handle_record (record_read d ds s) of
       None \<Rightarrow> None
     | Some p \<Rightarrow> (case p of Return r t \<Rightarrow> Some (r, t) | Again t \<Rightarrow> dtls1_get_record t | Go t \<Rightarrow> None))"
proof -
  let ?n = "be_nat [d ! 11, d ! 12]"
  define s1 where "s1 = (sync_epochs s)\<lparr>dt_net := ds, dt_left := drop 13 d, dt_packet := take 13 d, dt_packet_length := 13, dt_read_body := True\<rparr>"
  define s2 where "s2 = with_header (take 13 d) s1"
  have rh: "read_header (sync_epochs s) = parse_header s1"
    unfolding s1_def using assms(3,4,6-8) by (intro read_header_datagram) (simp_all add: sync_epochs_def)
  have ph: "parse_header s1 = Go s2 \<or> parse_header s1 = Again s2"
    using parse_header_eq [of s1] assms(5,8) by (auto simp: s1_def s2_def sync_epochs_def Let_def)
  have s2: "sync_epochs s2 = s2" "dt_unprocessed s2 = []" "dt_processed s2 = []" "dt_read_body s2" "dt_packet_length s2 = 13"
    using assms(1,2) by (simp_all add: s2_def s1_def with_header_def sync_epochs_def)
  have "unat (rec_length (dt_rrec s2)) = ?n"
    using unat_ucast_u16 [of "u16_of (d ! 11) (d ! 12)"] unat_u16_of [of "d ! 11" "d ! 12"] by (simp add: be_nat_Cons s2_def with_header_def)
  then have "read_fragment s2 = Go (s2\<lparr>dt_packet := dt_packet s2 @ take ?n (dt_left s2), dt_packet_length := 13 + ?n, dt_left := drop ?n (dt_left s2), dt_read_body := False\<rparr>)"
    using assms(8) by (intro read_fragment_whole) (simp_all add: s2_def s1_def with_header_def)
  also have "\<dots> = Go (record_read d ds s)"
    using assms(8) by (simp add: s2_def s1_def with_header_def record_read_def sync_epochs_def Let_def take_add drop_take add.commute [of ?n 13])
  finally have rf: "read_fragment s2 = Go (record_read d ds s)" .
  have go: "get_record_pass s = handle_record (record_read d ds s)" if "parse_header s1 = Go s2"
    using no_buffered_records [OF assms(1,2)] that rh rf by simp
  have "get_record_pass s2 = handle_record (record_read d ds s)"
    using no_buffered_records [OF s2(2,3)] s2 rf by (simp add: read_header_def DTLS1_RT_HEADER_LENGTH_def)
  moreover have "get_record_pass s = Some (Again s2)" if "parse_header s1 = Again s2"
    using no_buffered_records [OF assms(1,2)] that rh by simp
  ultimately show ?thesis
    using ph go dtls1_get_record.simps [of s] dtls1_get_record.simps [of s2] by auto
qed

text \<open>A record of the version 0xfafd is delivered to a client of the version 0xfefd.\<close>

theorem get_record_datagram_witness:
  "map_option (\<lambda>(r, t). (r, rec_data (dt_rrec t))) (dtls1_get_record (dtls_client\<lparr>dt_net := [hs_record 0xfa 5 [14]]\<rparr>)) = Some (1, [14])"
proof -
  define s where "s = dtls_client\<lparr>dt_net := [hs_record 0xfa 5 [14]]\<rparr>"
  have "dtls1_get_record s =
    (case handle_record (record_read (hs_record 0xfa 5 [14]) [] s) of
       None \<Rightarrow> None
     | Some p \<Rightarrow> (case p of Return r t \<Rightarrow> Some (r, t) | Again t \<Rightarrow> dtls1_get_record t | Go t \<Rightarrow> None))"
    by (rule get_record_datagram) (simp_all add: s_def dtls_client_def hs_record_def rbuf_room_def DTLS1_RT_HEADER_LENGTH_def
        SSL3_RT_MAX_ENCRYPTED_LENGTH_def be_nat_Cons)
  moreover have "replay_ok [0, 0, 0, 0, 0, 0, 0, 5] bitmap_empty" "replicate 8 0 = [0, 0, 0, 0, 0, 0, 0, 0 :: byte]"
    by code_simp+
  ultimately show ?thesis
    unfolding s_def by (simp add: eval_record record_read_def be_nat_Cons dtls_client_def hs_record_def null_cipher_def Let_def)
qed

text \<open>
  C7. If no datagram, and none of the bytes left in the buffers, breaks off inside a record, and no assertion of the check of the MAC fails,
  \<^verbatim>\<open>dtls1_get_record\<close> returns: every jump to the label \<^verbatim>\<open>again\<close> has consumed bytes or the pending header.
\<close>

theorem get_record_terminates:
  assumes "net_ok s" "left_ok s"
  shows "\<exists>r t. dtls1_get_record s = Some (r, t)"
  using assms
proof (induction "todo s" arbitrary: s rule: less_induct)
  case less
  then show ?case
    using get_record_pass_progress [OF less.prems] dtls1_get_record.simps [of s] by auto
qed

theorem get_record_terminates_witness: "\<exists>r t. dtls1_get_record (dtls_client\<lparr>dt_net := [hs_record 0xfe 5 [14] @ hs_record 0xfe 6 [], hs_record 0xfe 6 [14] @ [1]]\<rparr>) = Some (r, t)"
proof (rule get_record_terminates)
  have "list_all (\<lambda>d. length d \<le> rbuf_room \<and> untruncated d) [hs_record 0xfe 5 [14] @ hs_record 0xfe 6 [], hs_record 0xfe 6 [14] @ [1]]"
    by (simp add: hs_record_def rbuf_room_def DTLS1_RT_HEADER_LENGTH_def SSL3_RT_MAX_ENCRYPTED_LENGTH_def untruncated.simps be_nat_Cons)
  then show "net_ok (dtls_client\<lparr>dt_net := [hs_record 0xfe 5 [14] @ hs_record 0xfe 6 [], hs_record 0xfe 6 [14] @ [1]]\<rparr>)"
    using mac_total_null by (simp add: net_ok_def queue_ok_def dtls_client_def)
qed (simp add: left_ok_def in_body_def dtls_client_def untruncated_Nil)

text \<open>
  C40. A record of the next epoch that arrives again while its first copy still waits passes the check for replays, because the bitmap of the
  next epoch is only written when a record is processed. The queue refuses it, and \<^verbatim>\<open>dtls1_get_record\<close> fails with -1, which the comment
  on the insertion excludes.
\<close>

theorem next_epoch_duplicate_fails:
  assumes "dtls1_get_bitmap s = Some Next" "\<not> dt_listen s" "dt_in_handshake s" "dt_next_bitmap s = bitmap_empty" "rec_length (dt_rrec s) \<noteq> 0"
    and "length (dt_read_sequence s) = 8" "pq_inv (dt_unprocessed s)" "pq_items (dt_unprocessed s) (be_nat (dt_read_sequence s)) \<noteq> None"
    and "length (dt_unprocessed s) < 100"
  shows "\<exists>t. handle_record s = Some (Return (- 1) t) \<and> dt_unprocessed t = dt_unprocessed s"
proof -
  let ?seq = "dt_read_sequence s"
  have "replay_ok ?seq (bitmap_at Next s)"
    using replay_ok_iff [OF bm_repr_empty assms(6)] assms(4) by (simp add: bitmap_at_def win_accept_def win_max_def)
  moreover have "pqueue_insert \<lparr>priority = ?seq, pi_data = x\<rparr> (dt_unprocessed s) = (False, dt_unprocessed s)" for x
    using pq.ins [OF assms(7), of "\<lparr>priority = ?seq, pi_data = x\<rparr>"] assms(6,8)
    by (auto simp: pq_valid_def pq_prio_def split: option.splits intro: prod_eqI)
  ultimately show ?thesis
    using assms(1-3,5,9) by (simp add: handle_record_def dtls1_record_replay_check_def dtls1_buffer_record_def pqueue_size_eq Let_def)
qed

theorem next_epoch_duplicate_fails_witness:
  "\<exists>t. handle_record (dtls_client\<lparr>dt_unprocessed_epoch := 1, dt_unprocessed := [early_item], dt_rrec := early_record\<rparr>) = Some (Return (- 1) t) \<and>
    dt_unprocessed t = [early_item]"
  using next_epoch_duplicate_fails [of "dtls_client\<lparr>dt_unprocessed_epoch := 1, dt_unprocessed := [early_item], dt_rrec := early_record\<rparr>"]
  by (simp add: dtls_client_def early_item_def early_record_def empty_record_def dtls1_get_bitmap_def Let_def pq_inv_def pq_items_def pq_prio_def)

end
