(* ===== verification/Spec2Isabelle.thy ===== *)
theory Spec2Isabelle
  imports Constant_Time Cbs Cbb Ber Md32 Sha256 Sha1 Md5 Hmac Cbc_Digest Lhash Obj_Xref Dtls_Record
begin

text \<open>
  Verification of parts of VigorTLS, a fork of OpenSSL written in C: a library of cryptography (\<^verbatim>\<open>crypto\<close>) and one
  of TLS and DTLS (\<^verbatim>\<open>ssl\<close>). The parts that are modelled are the byte strings and DER, the digests with
  the layers above them, the constant-time treatment of CBC records, the containers, and the receiving side of DTLS.

  \<^bold>\<open>How C is modelled.\<close> The platform is LP64 and little-endian unless a theory says otherwise. An \<^verbatim>\<open>unsigned int\<close> is a word of 32 bits, a
  \<^verbatim>\<open>size_t\<close> or \<^verbatim>\<open>unsigned long\<close> one of 64 bits, with wrap-around; lengths that cannot wrap are natural numbers. A struct is a
  record and is passed and returned; an array is a list, with what lies behind a pointer as the list from there on. Whether an
  allocation succeeds is a parameter (most often \<open>ok\<close>), and so is what fresh memory holds (\<open>mem\<close>, \<open>fresh\<close>). An outer \<open>None\<close> is an
  access through a null pointer, a failed assertion or, for a loop that may not end, a call that does not return. Freeing memory and the
  error queue are left out.

  \<^bold>\<open>Theories.\<close>
  \<^item> \<open>Prelude\<close>: words, byte strings as numbers, lists.
  \<^item> \<open>Constant_Time\<close>: \<^verbatim>\<open>crypto/constant_time_locl.h\<close>. Masks are conditions.
  \<^item> \<open>Cbs\<close>: the reader of \<^verbatim>\<open>crypto/bytestring/cbs.c\<close>. A locale \<open>cbs_reader\<close> states what it means to read an
    encoding (it succeeds if and only if the input starts with an encoding, and leaves the rest); it is interpreted for the integers, the
    length-prefixed strings, DER elements and DER integers.
  \<^item> \<open>Cbb\<close>: the builder of \<^verbatim>\<open>crypto/bytestring/cbb.c\<close>, a chain of open children over one buffer. The locale \<open>cbb_op\<close> states that an
    operation implements one on nested byte strings; every sequence of calls refines the specification, and succeeds if memory suffices
    and the lengths fit.
  \<^item> \<open>Ber\<close>: \<^verbatim>\<open>crypto/bytestring/ber.c\<close>, the search for indefinite lengths and the conversion to DER, which bounds its recursion by \<open>kMaxDepth\<close> as the code does.
  \<^item> \<open>Md32\<close>: the frame of \<^verbatim>\<open>crypto/md32_common.h\<close> over any block function; the locale \<open>streaming_hash\<close> says that a digest does not
    depend on how the message is cut. \<open>Md5\<close>, \<open>Sha1\<close>, \<open>Sha256\<close>, \<open>Sha512\<close>: \<^verbatim>\<open>md5.c\<close>, \<^verbatim>\<open>sha1.c\<close>, \<^verbatim>\<open>sha256.c\<close>, \<^verbatim>\<open>sha512.c\<close>, proved equal to the definitions
    of RFC 1321 and FIPS 180-4 for messages of any length, with the variants of the block functions. The tables of constants are laid out in rows.
  \<^item> \<open>Evp_Digest\<close>: the digest layer of \<^verbatim>\<open>crypto/evp/digest.c\<close>, with the locale \<open>evp_digest\<close> interpreted for six digests. \<open>Hmac\<close>: \<^verbatim>\<open>crypto/hmac/hmac.c\<close>
    against RFC 2104.
  \<^item> \<open>Cbc_Record\<close>, \<open>Cbc_Digest\<close>: \<^verbatim>\<open>ssl/s3_cbc.c\<close>. Removing the padding, taking out the MAC and computing it, in time that does not depend on
    the padding, give what the plain definitions give; the locale \<open>cbc_hash\<close> is interpreted for the six digests.
  \<^item> \<open>Lhash\<close>: linear hashing of \<^verbatim>\<open>crypto/lhash/lhash.c\<close>; a table is a finite map under the laws of the locale \<open>lhash_keys\<close>.
  \<^item> \<open>Stack\<close>: \<^verbatim>\<open>crypto/stack/stack.c\<close> and the binary search of \<^verbatim>\<open>crypto/objects/obj_dat.c\<close>; the locale \<open>sk_order\<close> has the laws of the comparison and of the sort.
    \<open>Obj_Xref\<close>: the tables of signature algorithms of \<^verbatim>\<open>crypto/objects/obj_xref.c\<close>.
  \<^item> \<open>Pqueue\<close>: the priority queues of \<^verbatim>\<open>ssl/pqueue/pqueue.c\<close>, with the locale \<open>prio_queue\<close>. \<open>Buf_Mem\<close>: \<^verbatim>\<open>crypto/buffer/buffer.c\<close>.
  \<^item> \<open>Dtls_Window\<close>: the replay window of \<^verbatim>\<open>ssl/d1_pkt.c\<close>, which refines the set of the numbers received.
  \<^item> \<open>Dtls_Fragment\<close>: reassembly of handshake messages in \<^verbatim>\<open>ssl/d1_both.c\<close>. The record layer below is a reader \<open>rd\<close>; the property is proved for a stream of bytes.
  \<^item> \<open>Dtls_Record\<close>: \<^verbatim>\<open>dtls1_get_record\<close> and all it calls in \<^verbatim>\<open>ssl/d1_pkt.c\<close>, with \<^verbatim>\<open>ssl3_read_n\<close> of \<^verbatim>\<open>ssl/s3_pkt.c\<close>. The function is a
    partial function, since it may loop; \<open>dtls_run\<close> are the histories of a connection.
  \<^item> This theory holds the property that spans the builder and the reader.

  \<^bold>\<open>How the parts interact.\<close> The record layer of DTLS parses headers with the reader of byte strings, keeps early records in priority queues, checks
  numbers with the window, and takes out MACs with the functions of \<open>Cbc_Record\<close>; those for CBC run the block functions of the digests through
  the digest layer. The fragments of messages wait in priority queues and are handed over in growing buffers. The tables of signature algorithms
  are stacks with a binary search.

  \<^bold>\<open>What is shown to go wrong.\<close> Some theorems state behaviour that the code or its comments do not intend: \<open>indefinite_in_definite_missed\<close>,
  \<open>hmac_digest_change\<close>, \<open>evp_init_after_failed_malloc\<close>, \<open>tls1_cbc_padding_255\<close>, \<open>ssl3_cbc_digest_record_no_memory\<close>, \<open>lhash_realloc_failure_loses_data\<close>,
  \<open>sk_set_breaks_find\<close>, \<open>OBJ_find_sigid_by_algs_misses\<close>, and for DTLS \<open>get_record_truncated\<close> (a datagram that breaks off inside a record
  makes the record layer loop forever), \<open>get_record_datagram\<close> (a record of a wrong version is delivered) and \<open>next_epoch_duplicate_fails\<close>.

  \<^bold>\<open>Bounds and fuel.\<close> No property relies on fuel running out. The recursion of \<open>Ber\<close> has the bound of the source. \<open>dtls1_get_record\<close> is shown to
  return when no datagram breaks off inside a record (\<open>get_record_terminates\<close>), by a measure on the bytes that are still to be read; the other loops are structural or have a
  termination proof.

  \<^bold>\<open>Not modelled.\<close> Big numbers and public-key algorithms; ciphers and modes, so that decryption in \<open>Dtls_Record\<close> is an arbitrary function, of
  which \<open>dtls_no_replay\<close> only needs that it keeps the epoch and the number of the record, as \<^verbatim>\<open>tls1_enc\<close> does; the rest of the EVP layer; ASN.1 templates, PEM, certificates and the formats
  built on them; input and output, configuration, engines, threads and the error queue; the state machines of the handshake, \<^verbatim>\<open>dtls1_get_message\<close> and \<^verbatim>\<open>dtls1_read_bytes\<close>, which drive
  the modelled functions, and sending; assembly and generated tables; the command-line tool and the tests. These rest on parts that are not modelled, are input and output,
  or are generated.
\<close>

text \<open>
  C15. What the builder writes the reader reads back: a type byte and a string behind a 16-bit
  length prefix, built with \<^verbatim>\<open>CBB_add_u8\<close>, \<^verbatim>\<open>CBB_add_u16_length_prefixed\<close> and
  \<^verbatim>\<open>CBB_add_bytes\<close> on the child, are returned by \<^verbatim>\<open>CBS_get_u8\<close> followed by
  \<^verbatim>\<open>CBS_get_u16_length_prefixed\<close>.
\<close>

theorem cbb_cbs_roundtrip:
  assumes init: "CBB_init ok fresh cap = Some s0" and body: "length body < 2 ^ 16"
    and run: "call_run [(Call_u8 t, 0), (Call_u16_prefixed, 0), (Call_bytes body, 1)] ok fresh s0 = Some s"
    and fin: "CBB_finish ok fresh 0 s = Some (buf, n)"
  shows "\<exists>c1 r c2. CBS_get_u8 (CBS_init buf n) = (Some t, c1) \<and> CBS_get_u16_length_prefixed c1 = (Some r, c2) \<and>
    cbs_bytes r = body \<and> cbs_bytes c2 = []"
proof -
  obtain st where st: "spec_run [(Call_u8 t, 0), (Call_u16_prefixed, 0), (Call_bytes body, 1)] ([], []) = Some st"
    "cbb_rep s (fst st) (snd st)"
    using call_run_rep [OF init _ run] body by auto
  then have "close_all (fst st) (snd st) = Some ([t] @ prefixed 2 body @ [])"
    using body by (auto simp: spec_open_def spec_append_def spec_flush_def)
  then have "take (unat n) buf = [t] @ prefixed 2 body @ []" and "unat n \<le> length buf"
    using CBB_finish_sound [OF st(2) fin] by simp_all
  then show ?thesis
    using u8_u16_prefixed.read_both [where c = "CBS_init buf n" and a = t and b = body and rest = "[]"] body by (auto simp: cbs_init_wf cbs_bytes_init)
qed

theorem cbb_cbs_roundtrip_witness:
  "\<exists>s0 s buf n c1 r c2. CBB_init (\<lambda>_. True) (\<lambda>_. 0xaa) 0 = Some s0 \<and>
     call_run [(Call_u8 22, 0), (Call_u16_prefixed, 0), (Call_bytes [1, 2, 3], 1)] (\<lambda>_. True) (\<lambda>_. 0xaa) s0 = Some s \<and>
     CBB_finish (\<lambda>_. True) (\<lambda>_. 0xaa) 0 s = Some (buf, n) \<and>
     CBS_get_u8 (CBS_init buf n) = (Some 22, c1) \<and> CBS_get_u16_length_prefixed c1 = (Some r, c2) \<and> cbs_bytes r = [1, 2, 3]"
proof -
  have "Option.bind (CBB_init (\<lambda>_. True) (\<lambda>_. 0xaa) 0) (\<lambda>s0. Option.bind
     (call_run [(Call_u8 22, 0), (Call_u16_prefixed, 0), (Call_bytes [1, 2, 3], 1)] (\<lambda>_. True) (\<lambda>_. 0xaa) s0)
     (CBB_finish (\<lambda>_. True) (\<lambda>_. 0xaa) 0)) \<noteq> None"
    by code_simp
  then obtain s0 s buf n where r: "CBB_init (\<lambda>_. True) (\<lambda>_. 0xaa) 0 = Some s0"
    "call_run [(Call_u8 22, 0), (Call_u16_prefixed, 0), (Call_bytes [1, 2, 3], 1)] (\<lambda>_. True) (\<lambda>_. 0xaa) s0 = Some s"
    "CBB_finish (\<lambda>_. True) (\<lambda>_. 0xaa) 0 s = Some (buf, n)"
    by (auto simp: Option.bind_eq_Some_conv simp del: call_run.simps)
  then show ?thesis
    using cbb_cbs_roundtrip [OF r(1) _ r(2,3)] by fastforce
qed

end
